(* ===== verification/Prelude.thy ===== *)
theory Prelude
  imports Main "HOL-Library.Word"
begin

text \<open>
  What every component of the development shares: the names of the machine types, the
  combinators of Rust's \<open>Result\<close> on HOL sums, and the generic lemmas on lists and results
  that carry the component proofs.

  \<^item> \<open>u8\<close>, \<open>u16\<close>, \<open>u32\<close>, \<open>u64\<close> are words of that width; \<open>i32\<close> is a 32 bit word read with
    \<open>sint\<close> (two's complement); \<open>usize\<close> lengths are \<open>nat\<close>.
  \<^item> A \<open>Result<T, E>\<close> is the sum \<open>'e + 't\<close>, \<open>Inl\<close> the error. The \<open>?\<close> operator is
    \<open>and_then\<close>, after \<open>map_err\<close> where the error type changes.
  \<^item> A reader (\<open>std::io::Read\<close> over a \<open>Cursor\<close>) is the list of the bytes not read yet; a
    writer (\<open>std::io::Write\<close> over a \<open>Vec\<close>) is the list of the bytes written so far.
\<close>

unbundle bit_operations_syntax

type_synonym u8 = "8 word"
type_synonym u16 = "16 word"
type_synonym u32 = "32 word"
type_synonym u64 = "64 word"
type_synonym i32 = "32 word"
type_synonym usize = nat
type_synonym bytes = "u8 list"

named_theorems res_simps \<open>equations of the result combinators\<close>
named_theorems codec_simps \<open>what reading an encoding gives\<close>
named_theorems len_simps \<open>lengths of encodings\<close>

section \<open>Results\<close>

definition and_then :: "'e + 'a \<Rightarrow> ('a \<Rightarrow> 'e + 'b) \<Rightarrow> 'e + 'b" where
  "and_then m f = (case m of Inl e \<Rightarrow> Inl e | Inr x \<Rightarrow> f x)"

definition map_err :: "('e \<Rightarrow> 'f) \<Rightarrow> 'e + 'a \<Rightarrow> 'f + 'a" where
  "map_err f m = (case m of Inl e \<Rightarrow> Inl (f e) | Inr x \<Rightarrow> Inr x)"

definition result_ok :: "'e + 'a \<Rightarrow> 'a option" where
  "result_ok m = (case m of Inl e \<Rightarrow> None | Inr x \<Rightarrow> Some x)"

definition ok_or :: "'e \<Rightarrow> 'a option \<Rightarrow> 'e + 'a" where
  "ok_or e m = (case m of None \<Rightarrow> Inl e | Some x \<Rightarrow> Inr x)"

definition is_ok :: "'e + 'a \<Rightarrow> bool" where
  "is_ok m = (case m of Inl _ \<Rightarrow> False | Inr _ \<Rightarrow> True)"

lemma and_then_simps [simp, res_simps]:
  "and_then (Inl e) f = Inl e"
  "and_then (Inr x) f = f x"
  by (simp_all add: and_then_def)

lemma map_err_simps [simp, res_simps]:
  "map_err f (Inl e) = Inl (f e)"
  "map_err f (Inr x) = Inr x"
  by (simp_all add: map_err_def)

lemma result_ok_simps [simp, res_simps]:
  "result_ok (Inl e) = None"
  "result_ok (Inr x) = Some x"
  by (simp_all add: result_ok_def)

lemma ok_or_simps [simp, res_simps]:
  "ok_or e None = Inl e"
  "ok_or e (Some x) = Inr x"
  by (simp_all add: ok_or_def)

lemma is_ok_simps [simp, res_simps]:
  "is_ok (Inl e) = False"
  "is_ok (Inr x) = True"
  by (simp_all add: is_ok_def)

lemma and_then_Inr_iff: "and_then m f = Inr y \<longleftrightarrow> (\<exists>x. m = Inr x \<and> f x = Inr y)"
  by (cases m) auto

lemma and_then_Inl_iff:
  "and_then m f = Inl e \<longleftrightarrow> m = Inl e \<or> (\<exists>x. m = Inr x \<and> f x = Inl e)"
  by (cases m) auto

lemma map_err_Inr_iff [simp]: "map_err f m = Inr y \<longleftrightarrow> m = Inr y"
  by (cases m) auto

lemma map_err_Inl_iff: "map_err f m = Inl e \<longleftrightarrow> (\<exists>d. m = Inl d \<and> e = f d)"
  by (cases m) auto

lemma result_ok_Some_iff [simp]: "result_ok m = Some x \<longleftrightarrow> m = Inr x"
  by (cases m) auto

lemma result_ok_None_iff: "result_ok m = None \<longleftrightarrow> (\<exists>e. m = Inl e)"
  by (cases m) auto

lemma ok_or_Inr_iff [simp]: "ok_or e m = Inr x \<longleftrightarrow> m = Some x"
  by (cases m) auto

lemma is_ok_iff: "is_ok m \<longleftrightarrow> (\<exists>x. m = Inr x)"
  by (cases m) auto

lemma not_is_ok_iff: "\<not> is_ok m \<longleftrightarrow> (\<exists>e. m = Inl e)"
  by (cases m) auto

lemma and_then_assoc: "and_then (and_then m f) g = and_then m (\<lambda>x. and_then (f x) g)"
  by (cases m) simp_all

lemma and_then_cong [fundef_cong]:
  "m = n \<Longrightarrow> (\<And>x. n = Inr x \<Longrightarrow> f x = g x) \<Longrightarrow> and_then m f = and_then n g"
  by (cases n) auto

lemmas result_elims = and_then_Inr_iff and_then_Inl_iff map_err_Inl_iff

section \<open>Computations that may panic\<close>

text \<open>
  Integer overflow and \<open>debug_assert!\<close> panic in a debug build; in a release build the value
  wraps and the assertion is not checked. An operation where this can happen takes the build
  profile \<open>dbg\<close> and returns a \<open>run\<close>.
\<close>

datatype 'a run = Panic | Ran 'a

definition run_bind :: "'a run \<Rightarrow> ('a \<Rightarrow> 'b run) \<Rightarrow> 'b run" where
  "run_bind m f = (case m of Panic \<Rightarrow> Panic | Ran x \<Rightarrow> f x)"

lemma run_bind_simps [simp, res_simps]:
  "run_bind Panic f = Panic"
  "run_bind (Ran x) f = f x"
  by (simp_all add: run_bind_def)

lemma run_bind_Ran_iff: "run_bind m f = Ran y \<longleftrightarrow> (\<exists>x. m = Ran x \<and> f x = Ran y)"
  by (cases m) auto

lemma run_bind_cong [fundef_cong]:
  "m = n \<Longrightarrow> (\<And>x. n = Ran x \<Longrightarrow> f x = g x) \<Longrightarrow> run_bind m f = run_bind n g"
  by (cases n) auto

definition u8_add :: "bool \<Rightarrow> u8 \<Rightarrow> u8 \<Rightarrow> u8 run" where
  "u8_add dbg a b = (if dbg \<and> unat a + unat b \<ge> 256 then Panic else Ran (a + b))"

definition u8_sub :: "bool \<Rightarrow> u8 \<Rightarrow> u8 \<Rightarrow> u8 run" where
  "u8_sub dbg a b = (if dbg \<and> a < b then Panic else Ran (a - b))"

definition debug_assert :: "bool \<Rightarrow> bool \<Rightarrow> unit run" where
  "debug_assert dbg b = (if dbg \<and> \<not> b then Panic else Ran ())"

lemma debug_assert_True [simp, res_simps]: "debug_assert dbg True = Ran ()"
  by (simp add: debug_assert_def)

section \<open>Lists\<close>

text \<open>The pieces of at most \<open>n\<close> elements that a list falls into (\<open>slice::chunks\<close>).\<close>

function chunks :: "nat \<Rightarrow> 'a list \<Rightarrow> 'a list list" where
  "chunks n xs = (if xs = [] \<or> n = 0 then [] else take n xs # chunks n (drop n xs))"
  by pat_completeness auto
termination
  by (relation "measure (\<lambda>(n, xs). length xs)") auto

declare chunks.simps [simp del]

lemma chunks_Nil [simp]: "chunks n [] = []"
  by (simp add: chunks.simps)

lemma chunks_short: "xs \<noteq> [] \<Longrightarrow> length xs \<le> n \<Longrightarrow> chunks n xs = [xs]"
proof -
  assume "xs \<noteq> []" "length xs \<le> n"
  then have "0 < n" by (cases n) auto
  with \<open>xs \<noteq> []\<close> \<open>length xs \<le> n\<close> show ?thesis
    by (subst chunks.simps) auto
qed

lemma chunks_long: "0 < n \<Longrightarrow> n < length xs \<Longrightarrow> chunks n xs = take n xs # chunks n (drop n xs)"
  by (subst chunks.simps) auto

lemma concat_chunks [simp]: "0 < n \<Longrightarrow> concat (chunks n xs) = xs"
proof (induction n xs rule: chunks.induct)
  case (1 n xs)
  then show ?case by (cases "xs = []") (auto simp: chunks.simps [of n xs])
qed

lemma length_chunks_le: "c \<in> set (chunks n xs) \<Longrightarrow> 0 < length c \<and> length c \<le> n"
proof (induction n xs rule: chunks.induct)
  case (1 n xs)
  then show ?case by (auto simp: chunks.simps [of n xs] split: if_splits)
qed

text \<open>\<open>usize::div_ceil\<close>, the number of chunks.\<close>

definition div_ceil :: "nat \<Rightarrow> nat \<Rightarrow> nat" where
  "div_ceil a b = (if a mod b = 0 then a div b else a div b + 1)"

lemma div_ceil_le: "0 < b \<Longrightarrow> 0 < a \<Longrightarrow> a \<le> b \<Longrightarrow> div_ceil a b = 1"
  by (cases "a = b") (auto simp: div_ceil_def)

lemma div_ceil_minus: "0 < b \<Longrightarrow> b \<le> a \<Longrightarrow> div_ceil a b = Suc (div_ceil (a - b) b)"
  by (auto simp: div_ceil_def le_div_geq le_mod_geq)

lemma div_ceil_0_iff: "0 < b \<Longrightarrow> div_ceil a b = 0 \<longleftrightarrow> a = 0"
  by (cases "a = 0") (auto simp: div_ceil_def intro: gr0I)

lemma div_ceil_le_iff: "0 < b \<Longrightarrow> div_ceil a b \<le> k \<longleftrightarrow> a \<le> k * b"
proof (induction k arbitrary: a)
  case 0
  then show ?case by (simp add: div_ceil_0_iff)
next
  case (Suc k)
  show ?case
  proof (cases "b \<le> a")
    case True
    have "div_ceil a b = Suc (div_ceil (a - b) b)"
      using Suc.prems True by (rule div_ceil_minus)
    moreover have "div_ceil (a - b) b \<le> k \<longleftrightarrow> a - b \<le> k * b"
      using Suc.prems by (rule Suc.IH)
    ultimately show ?thesis using True by auto
  next
    case False
    then have "div_ceil a b \<le> 1" by (simp add: div_ceil_def)
    with False show ?thesis by simp
  qed
qed

lemma length_chunks: "0 < n \<Longrightarrow> length (chunks n xs) = div_ceil (length xs) n"
proof (induction n xs rule: chunks.induct)
  case (1 n xs)
  show ?case
  proof (cases "length xs \<le> n")
    case True
    with 1 show ?thesis
      by (cases "xs = []") (simp_all add: chunks_short div_ceil_le div_ceil_0_iff)
  next
    case False
    then have "xs \<noteq> []" by auto
    with 1 False show ?thesis
      by (auto simp: chunks_long div_ceil_minus)
  qed
qed

lemma append_eq_conv_take:
  "xs = ys @ zs \<longleftrightarrow> length ys \<le> length xs \<and> take (length ys) xs = ys \<and> drop (length ys) xs = zs"
  by (auto simp: append_eq_conv_conj) (metis append_take_drop_id)

lemma list_prefix_split:
  assumes "n \<le> length xs"
  obtains ys zs where "xs = ys @ zs" and "length ys = n"
  using assms that [of "take n xs" "drop n xs"] by simp

lemma length_le_1D: "length xs \<le> Suc 0 \<Longrightarrow> xs = [] \<or> (\<exists>x. xs = [x])"
  by (cases xs) auto

section \<open>Bytes\<close>

lemma byte_bound [simp]: "unat (b :: u8) < 256"
proof -
  have "unat b < 2 ^ LENGTH(8)" by (rule unsigned_less)
  then show ?thesis by simp
qed

lemma byte_le_255 [simp]: "unat (b :: u8) \<le> 255"
  using byte_bound [of b] by linarith

end
