(* ===== verification/Rust_Str.thy ===== *)
theory Rust_Str
  imports Prelude
begin

text \<open>
  What the program uses of the Rust standard library's strings and integers as text. A
  \<open>String\<close> or \<open>str\<close> is a list of characters, each standing for one byte of its UTF-8 form;
  \<open>valid_str\<close> is the type's invariant (well-formed UTF-8). Modelled here:
  \<^item> \<open>str::as_bytes\<close>, \<open>String::from_utf8\<close> with its error (\<open>valid_up_to\<close>, \<open>error_len\<close>);
  \<^item> \<open>u8/u64::to_string\<close> and \<open>str::parse::<u8/u64>\<close> with the error kinds of
    \<open>core::num\<close> (empty, invalid digit, overflow; an optional leading plus sign);
  \<^item> \<open>str::splitn(n, c)\<close> and \<open>str::trim().is_empty()\<close> (Unicode white space).
\<close>

section \<open>Bytes of a string\<close>

definition byte_of_char :: "char \<Rightarrow> u8" where
  "byte_of_char c = word_of_nat (of_char c)"

definition char_of_byte :: "u8 \<Rightarrow> char" where
  "char_of_byte b = char_of (unat b)"

definition as_bytes :: "string \<Rightarrow> bytes" where
  "as_bytes s = map byte_of_char s"

definition str_of_bytes :: "bytes \<Rightarrow> string" where
  "str_of_bytes bs = map char_of_byte bs"

lemma of_char_less_256: "(of_char c :: nat) < 256"
  by simp

lemma char_of_byte_of_char [simp]: "char_of_byte (byte_of_char c) = c"
  by (simp add: byte_of_char_def char_of_byte_def unat_of_nat)

lemma byte_of_char_of_byte [simp]: "byte_of_char (char_of_byte b) = b"
  by (simp add: byte_of_char_def char_of_byte_def)

lemma str_of_bytes_as_bytes [simp]: "str_of_bytes (as_bytes s) = s"
  by (simp add: as_bytes_def str_of_bytes_def o_def)

lemma as_bytes_str_of_bytes [simp]: "as_bytes (str_of_bytes bs) = bs"
  by (simp add: as_bytes_def str_of_bytes_def o_def)

lemma length_as_bytes [simp, len_simps]: "length (as_bytes s) = length s"
  by (simp add: as_bytes_def)

lemma length_str_of_bytes [simp]: "length (str_of_bytes s) = length s"
  by (simp add: str_of_bytes_def)

lemma as_bytes_append [simp]: "as_bytes (s @ t) = as_bytes s @ as_bytes t"
  by (simp add: as_bytes_def)

lemma as_bytes_Nil [simp]: "as_bytes [] = []"
  by (simp add: as_bytes_def)

lemma as_bytes_inj [simp]: "as_bytes s = as_bytes t \<longleftrightarrow> s = t"
  by (metis str_of_bytes_as_bytes)

section \<open>UTF-8\<close>

text \<open>
  \<open>core::str::from_utf8\<close>: at index \<open>i\<close> the decoder looks at the first byte and at as many
  continuation bytes as it announces. \<open>error_len\<close> is \<open>None\<close> when the input ends inside a
  sequence, else the number of bytes to skip.
\<close>

record utf8_error =
  valid_up_to :: usize
  error_len :: "usize option"

definition is_cont :: "u8 \<Rightarrow> bool" where
  "is_cont b \<longleftrightarrow> 0x80 \<le> b \<and> b \<le> 0xBF"

definition second3_ok :: "u8 \<Rightarrow> u8 \<Rightarrow> bool" where
  "second3_ok a b \<longleftrightarrow>
     (a = 0xE0 \<and> 0xA0 \<le> b \<and> b \<le> 0xBF) \<or>
     (0xE1 \<le> a \<and> a \<le> 0xEC \<and> 0x80 \<le> b \<and> b \<le> 0xBF) \<or>
     (a = 0xED \<and> 0x80 \<le> b \<and> b \<le> 0x9F) \<or>
     (0xEE \<le> a \<and> a \<le> 0xEF \<and> 0x80 \<le> b \<and> b \<le> 0xBF)"

definition second4_ok :: "u8 \<Rightarrow> u8 \<Rightarrow> bool" where
  "second4_ok a b \<longleftrightarrow>
     (a = 0xF0 \<and> 0x90 \<le> b \<and> b \<le> 0xBF) \<or>
     (0xF1 \<le> a \<and> a \<le> 0xF3 \<and> 0x80 \<le> b \<and> b \<le> 0xBF) \<or>
     (a = 0xF4 \<and> 0x80 \<le> b \<and> b \<le> 0x8F)"

definition utf8_fail :: "usize \<Rightarrow> usize option \<Rightarrow> utf8_error option" where
  "utf8_fail i l = Some \<lparr>valid_up_to = i, error_len = l\<rparr>"

text \<open>The length of the sequence that a first byte announces, 0 for a byte that starts none.\<close>

definition utf8_width :: "u8 \<Rightarrow> nat" where
  "utf8_width a =
     (if a < 0x80 then 1
      else if 0xC2 \<le> a \<and> a \<le> 0xDF then 2
      else if 0xE0 \<le> a \<and> a \<le> 0xEF then 3
      else if 0xF0 \<le> a \<and> a \<le> 0xF4 then 4
      else 0)"

text \<open>
  One sequence at the front of the input: \<open>Inr rest\<close> when it is well formed, else the
  \<open>error_len\<close>.
\<close>

definition utf8_cont_from :: "nat \<Rightarrow> bytes \<Rightarrow> (bytes \<Rightarrow> usize option + bytes) \<Rightarrow> usize option + bytes" where
  "utf8_cont_from n bs k =
     (case bs of [] \<Rightarrow> Inl None
      | c # r \<Rightarrow> if is_cont c then k r else Inl (Some n))"

definition utf8_step :: "u8 \<Rightarrow> bytes \<Rightarrow> usize option + bytes" where
  "utf8_step a bs =
     (if utf8_width a = 1 then Inr bs
      else if utf8_width a = 2 then utf8_cont_from 1 bs Inr
      else if utf8_width a = 3 then
        (case bs of [] \<Rightarrow> Inl None
         | b # r \<Rightarrow> if second3_ok a b then utf8_cont_from 2 r Inr else Inl (Some 1))
      else if utf8_width a = 4 then
        (case bs of [] \<Rightarrow> Inl None
         | b # r \<Rightarrow> if second4_ok a b
             then utf8_cont_from 2 r (\<lambda>r. utf8_cont_from 3 r Inr) else Inl (Some 1))
      else Inl (Some 1))"

lemma utf8_cont_from_length:
  "utf8_cont_from n bs k = Inr r \<Longrightarrow> (\<And>x. k x = Inr r \<Longrightarrow> length r \<le> length x) \<Longrightarrow> length r \<le> length bs"
  by (force simp: utf8_cont_from_def split: list.splits if_splits)

lemma utf8_step_length: "utf8_step a bs = Inr r \<Longrightarrow> length r \<le> length bs"
  by (auto simp: utf8_step_def utf8_cont_from_def split: list.splits if_splits)

function utf8_validate :: "usize \<Rightarrow> bytes \<Rightarrow> utf8_error option" where
  "utf8_validate i [] = None"
| "utf8_validate i (a # bs) =
     (case utf8_step a bs of
        Inl l \<Rightarrow> utf8_fail i l
      | Inr r \<Rightarrow> utf8_validate (i + utf8_width a) r)"
  by pat_completeness auto
termination
  by (relation "measure (\<lambda>(i, bs). length bs)") (auto dest: utf8_step_length)

definition utf8_valid :: "bytes \<Rightarrow> bool" where
  "utf8_valid bs \<longleftrightarrow> utf8_validate 0 bs = None"

definition valid_str :: "string \<Rightarrow> bool" where
  "valid_str s \<longleftrightarrow> utf8_valid (as_bytes s)"

definition from_utf8 :: "bytes \<Rightarrow> utf8_error + string" where
  "from_utf8 bs = (case utf8_validate 0 bs of None \<Rightarrow> Inr (str_of_bytes bs) | Some e \<Rightarrow> Inl e)"

lemma utf8_validate_index: "utf8_validate i bs = None \<longleftrightarrow> utf8_validate j bs = None"
proof (induction i bs arbitrary: j rule: utf8_validate.induct)
  case (1 i)
  show ?case by simp
next
  case (2 i a bs)
  show ?case
  proof (cases "utf8_step a bs")
    case (Inl l)
    then show ?thesis by (simp add: utf8_fail_def)
  next
    case (Inr r)
    then have "utf8_validate (i + utf8_width a) r = None \<longleftrightarrow> utf8_validate (j + utf8_width a) r = None"
      by (rule "2.IH")
    with Inr show ?thesis by simp
  qed
qed

lemma utf8_valid_Nil [simp]: "utf8_valid []"
  by (simp add: utf8_valid_def)

lemma utf8_valid_Cons:
  "utf8_valid (a # bs) \<longleftrightarrow> (\<exists>r. utf8_step a bs = Inr r \<and> utf8_valid r)"
  by (simp add: utf8_valid_def utf8_fail_def utf8_validate_index [of "utf8_width a" _ 0]
      split: sum.split)

lemma utf8_step_append: "utf8_step a bs = Inr r \<Longrightarrow> utf8_step a (bs @ cs) = Inr (r @ cs)"
  by (auto simp: utf8_step_def utf8_cont_from_def split: list.splits if_splits)

lemma utf8_valid_append: "utf8_valid bs \<Longrightarrow> utf8_valid cs \<Longrightarrow> utf8_valid (bs @ cs)"
proof (induction bs rule: length_induct)
  case (1 bs)
  show ?case
  proof (cases bs)
    case Nil
    with 1 show ?thesis by simp
  next
    case (Cons a as)
    with 1(2) obtain r where r: "utf8_step a as = Inr r" "utf8_valid r"
      by (auto simp: utf8_valid_Cons)
    with 1 Cons have "utf8_valid (r @ cs)"
      by (auto dest: utf8_step_length)
    with r Cons show ?thesis
      by (auto simp: utf8_valid_Cons dest: utf8_step_append)
  qed
qed

lemma utf8_step_ascii: "a < 0x80 \<Longrightarrow> utf8_step a bs = Inr bs"
  by (simp add: utf8_step_def utf8_width_def)

lemma utf8_valid_ascii_Cons: "a < 0x80 \<Longrightarrow> utf8_valid (a # bs) \<longleftrightarrow> utf8_valid bs"
  by (simp add: utf8_valid_Cons utf8_step_ascii)

lemma utf8_valid_ascii: "\<forall>b \<in> set bs. b < 0x80 \<Longrightarrow> utf8_valid bs"
  by (induction bs) (simp_all add: utf8_valid_ascii_Cons)

text \<open>Cutting a valid string at an ASCII byte leaves two valid strings.\<close>

lemma is_cont_not_ascii: "is_cont b \<Longrightarrow> \<not> b < 0x80"
  by (auto simp: is_cont_def word_less_nat_alt word_le_nat_alt)

lemma second_not_ascii:
  assumes "second3_ok a b \<or> second4_ok a b" shows "\<not> b < 0x80"
proof -
  from assms have "0x80 \<le> b \<or> 0xA0 \<le> b \<or> 0x90 \<le> b"
    by (auto simp: second3_ok_def second4_ok_def)
  then show ?thesis
    by (auto simp: word_less_nat_alt word_le_nat_alt)
qed

lemma utf8_step_split:
  assumes "utf8_step a (bs @ c # cs) = Inr r" and "c < 0x80"
  obtains s where "utf8_step a bs = Inr s" and "r = s @ c # cs"
  using assms second_not_ascii [of a c] is_cont_not_ascii [of c]
  by (force simp: utf8_step_def utf8_cont_from_def Cons_eq_append_conv append_eq_Cons_conv
      split: list.splits if_splits)

lemma utf8_valid_split:
  "utf8_valid (bs @ c # cs) \<Longrightarrow> c < 0x80 \<Longrightarrow> utf8_valid bs \<and> utf8_valid cs"
proof (induction bs rule: length_induct)
  case (1 bs)
  show ?case
  proof (cases bs)
    case Nil
    with 1 show ?thesis by (simp add: utf8_valid_ascii_Cons)
  next
    case (Cons a as)
    with 1(2) obtain r where r: "utf8_step a (as @ c # cs) = Inr r" "utf8_valid r"
      by (auto simp: utf8_valid_Cons)
    then obtain s where s: "utf8_step a as = Inr s" "r = s @ c # cs"
      using 1(3) by (auto elim: utf8_step_split)
    with r have "utf8_valid (s @ c # cs)" and "length s < length bs"
      using Cons by (auto dest: utf8_step_length)
    with 1(1,3) have "utf8_valid s \<and> utf8_valid cs" by blast
    with s Cons show ?thesis by (auto simp: utf8_valid_Cons)
  qed
qed

lemma from_utf8_Inr_iff [simp]: "from_utf8 bs = Inr s \<longleftrightarrow> utf8_valid bs \<and> s = str_of_bytes bs"
  by (auto simp: from_utf8_def utf8_valid_def split: option.splits)

lemma from_utf8_as_bytes [codec_simps]: "valid_str s \<Longrightarrow> from_utf8 (as_bytes s) = Inr s"
  by (simp add: valid_str_def)

lemma valid_str_str_of_bytes [simp]: "valid_str (str_of_bytes bs) = utf8_valid bs"
  by (simp add: valid_str_def)

end
