(* ===== verification/Rust_Text.thy ===== *)
theory Rust_Text
  imports Rust_Str
begin

text \<open>
  Numbers as text, and the string operations of the Rust standard library that the signaling
  messages use: \<open>to_string\<close> and \<open>parse\<close> of unsigned integers, \<open>splitn(n, c)\<close>, and
  \<open>trim().is_empty()\<close>. The lemmas give the round trip of numbers, that decimal text holds no
  blank, and how a joined line splits again.
\<close>

section \<open>Unsigned integers as text\<close>

definition digit_char :: "nat \<Rightarrow> char" where
  "digit_char d = char_of (48 + d)"

definition to_digit :: "char \<Rightarrow> nat option" where
  "to_digit c =
     (let n = (of_char c :: nat) in if 48 \<le> n \<and> n \<le> 57 then Some (n - 48) else None)"

fun show_nat :: "nat \<Rightarrow> string" where
  "show_nat n =
     (if n < 10 then [digit_char n] else show_nat (n div 10) @ [digit_char (n mod 10)])"

declare show_nat.simps [simp del]

datatype int_error = Empty | InvalidDigit | PosOverflow

text \<open>\<open>Display\<close> of \<open>core::num::ParseIntError\<close>.\<close>

fun show_int_error :: "int_error \<Rightarrow> string" where
  "show_int_error Empty = ''cannot parse integer from empty string''"
| "show_int_error InvalidDigit = ''invalid digit found in string''"
| "show_int_error PosOverflow = ''number too large to fit in target type''"

text \<open>
  \<open>from_str_radix(s, 10)\<close> for an unsigned type whose largest value is \<open>m\<close>: every character is
  first checked to be a digit, then \<open>checked_mul\<close> and \<open>checked_add\<close> may overflow.
\<close>

fun parse_digits :: "nat \<Rightarrow> nat \<Rightarrow> string \<Rightarrow> int_error + nat" where
  "parse_digits m acc [] = Inr acc"
| "parse_digits m acc (c # cs) =
     (case to_digit c of
        None \<Rightarrow> Inl InvalidDigit
      | Some d \<Rightarrow>
          if acc * 10 > m then Inl PosOverflow
          else if acc * 10 + d > m then Inl PosOverflow
          else parse_digits m (acc * 10 + d) cs)"

definition parse_uint :: "nat \<Rightarrow> string \<Rightarrow> int_error + nat" where
  "parse_uint m s =
     (case s of
        [] \<Rightarrow> Inl Empty
      | c # cs \<Rightarrow>
          if cs = [] \<and> (c = CHR ''+'' \<or> c = CHR ''-'') then Inl InvalidDigit
          else if c = CHR ''+'' then parse_digits m 0 cs
          else parse_digits m 0 (c # cs))"

definition u64_to_string :: "u64 \<Rightarrow> string" where
  "u64_to_string w = show_nat (unat w)"

definition parse_u64 :: "string \<Rightarrow> int_error + u64" where
  "parse_u64 s = and_then (parse_uint (2 ^ 64 - 1) s) (\<lambda>n. Inr (word_of_nat n))"

definition parse_u8 :: "string \<Rightarrow> int_error + u8" where
  "parse_u8 s = and_then (parse_uint (2 ^ 8 - 1) s) (\<lambda>n. Inr (word_of_nat n))"

definition is_digit :: "char \<Rightarrow> bool" where
  "is_digit c \<longleftrightarrow> to_digit c \<noteq> None"

lemma to_digit_digit_char [simp]: "d < 10 \<Longrightarrow> to_digit (digit_char d) = Some d"
  by (simp add: to_digit_def digit_char_def)

lemma show_nat_ne [simp]: "show_nat n \<noteq> []"
  by (subst show_nat.simps) simp

lemma show_nat_digits: "c \<in> set (show_nat n) \<Longrightarrow> is_digit c"
proof (induction n rule: show_nat.induct)
  case (1 n)
  then show ?case
    by (auto simp: show_nat.simps [of n] is_digit_def split: if_splits)
qed

lemma not_is_digit [simp]:
  "\<not> is_digit CHR '' ''" "\<not> is_digit CHR ''+''" "\<not> is_digit CHR ''-''"
  by (simp_all add: is_digit_def to_digit_def)

lemma show_nat_no_space [simp]: "CHR '' '' \<notin> set (show_nat n)"
  using show_nat_digits [of "CHR '' ''" n] by auto

lemma parse_digits_append:
  "parse_digits m a (xs @ ys) = and_then (parse_digits m a xs) (\<lambda>v. parse_digits m v ys)"
  by (induction xs arbitrary: a) (auto split: option.split)

lemma parse_digits_show_nat: "n \<le> m \<Longrightarrow> parse_digits m 0 (show_nat n) = Inr n"
proof (induction n rule: show_nat.induct)
  case (1 n)
  show ?case
  proof (cases "n < 10")
    case True
    with 1 show ?thesis by (simp add: show_nat.simps [of n])
  next
    case False
    with 1 have "parse_digits m 0 (show_nat (n div 10)) = Inr (n div 10)" by simp
    moreover have "n div 10 * 10 + n mod 10 = n" by simp
    moreover have "n div 10 * 10 \<le> n" by simp
    ultimately show ?thesis
      using False 1(2) by (simp add: show_nat.simps [of n] parse_digits_append)
  qed
qed

lemma parse_digits_bound: "parse_digits m a s = Inr n \<Longrightarrow> a \<le> m \<Longrightarrow> n \<le> m"
  by (induction s arbitrary: a) (auto split: option.splits if_splits)

lemma parse_uint_bound: "parse_uint m s = Inr n \<Longrightarrow> n \<le> m"
  by (auto simp: parse_uint_def simp del: parse_digits.simps dest: parse_digits_bound
      split: list.splits if_splits)

lemma parse_uint_show_nat [codec_simps]: "n \<le> m \<Longrightarrow> parse_uint m (show_nat n) = Inr n"
proof -
  assume n: "n \<le> m"
  obtain c cs where c: "show_nat n = c # cs" by (cases "show_nat n") auto
  then have "is_digit c" using show_nat_digits [of c n] by simp
  then have "c \<noteq> CHR ''+''" "c \<noteq> CHR ''-''" by auto
  with c n show ?thesis
    using parse_digits_show_nat [of n m] by (simp add: parse_uint_def del: parse_digits.simps)
qed

lemma unat_u64_le [simp]: "unat (w :: u64) \<le> 18446744073709551615"
proof -
  have "unat w < 2 ^ LENGTH(64)" by (rule unsigned_less)
  then show ?thesis by simp
qed

lemma parse_u64_to_string [codec_simps]: "parse_u64 (u64_to_string w) = Inr w"
  by (simp add: parse_u64_def u64_to_string_def parse_uint_show_nat)

lemma parse_u8_show_nat [codec_simps]: "parse_u8 (show_nat (unat w)) = Inr w"
  by (simp add: parse_u8_def parse_uint_show_nat)

lemma u64_to_string_no_space [simp]: "CHR '' '' \<notin> set (u64_to_string w)"
  by (simp add: u64_to_string_def)

lemma digit_ascii: "is_digit c \<Longrightarrow> byte_of_char c < 0x80"
  by (auto simp: is_digit_def to_digit_def byte_of_char_def Let_def word_less_nat_alt unat_of_nat
      split: if_splits)

lemma valid_show_nat [simp]: "valid_str (show_nat n)"
  unfolding valid_str_def as_bytes_def
  by (rule utf8_valid_ascii) (auto dest: show_nat_digits digit_ascii)

lemma valid_u64_to_string [simp]: "valid_str (u64_to_string w)"
  by (simp add: u64_to_string_def)

text \<open>\<open>Display\<close> of a \<open>FromUtf8Error\<close>.\<close>

definition show_utf8_error :: "utf8_error \<Rightarrow> string" where
  "show_utf8_error e =
     (case error_len e of
        Some n \<Rightarrow> ''invalid utf-8 sequence of '' @ show_nat n @ '' bytes from index '' @
          show_nat (valid_up_to e)
      | None \<Rightarrow> ''incomplete utf-8 byte sequence from index '' @ show_nat (valid_up_to e))"

section \<open>Splitting at a character\<close>

fun split_once :: "char \<Rightarrow> string \<Rightarrow> (string \<times> string) option" where
  "split_once c [] = None"
| "split_once c (x # xs) =
     (if x = c then Some ([], xs) else map_option (\<lambda>(a, b). (x # a, b)) (split_once c xs))"

fun splitn :: "nat \<Rightarrow> char \<Rightarrow> string \<Rightarrow> string list" where
  "splitn 0 c s = []"
| "splitn (Suc 0) c s = [s]"
| "splitn (Suc (Suc n)) c s =
     (case split_once c s of None \<Rightarrow> [s] | Some (a, b) \<Rightarrow> a # splitn (Suc n) c b)"

lemma split_once_append [simp]: "c \<notin> set a \<Longrightarrow> split_once c (a @ c # b) = Some (a, b)"
  by (induction a) auto

lemma split_once_None_iff: "split_once c s = None \<longleftrightarrow> c \<notin> set s"
  by (induction s) auto

lemma split_once_Some_iff: "split_once c s = Some (a, b) \<longleftrightarrow> s = a @ c # b \<and> c \<notin> set a"
proof (induction s arbitrary: a)
  case Nil
  then show ?case by simp
next
  case (Cons x xs)
  then show ?case by (cases a) auto
qed

lemma splitn_3_eq:
  "splitn 3 c s =
     (case split_once c s of None \<Rightarrow> [s]
      | Some (a, r) \<Rightarrow> (case split_once c r of None \<Rightarrow> [a, r] | Some (b, d) \<Rightarrow> [a, b, d]))"
  by (simp add: numeral_3_eq_3 split: option.split)

lemma splitn_3_joined [simp]:
  "c \<notin> set a \<Longrightarrow> c \<notin> set b \<Longrightarrow> splitn 3 c (a @ c # b @ c # d) = [a, b, d]"
  by (simp add: splitn_3_eq)

lemma splitn_3_iff:
  "splitn 3 c s = [a, b, d] \<longleftrightarrow> s = a @ c # b @ c # d \<and> c \<notin> set a \<and> c \<notin> set b"
proof
  assume "splitn 3 c s = [a, b, d]"
  then show "s = a @ c # b @ c # d \<and> c \<notin> set a \<and> c \<notin> set b"
    by (auto simp: splitn_3_eq split_once_Some_iff split: option.splits)
qed auto

lemma splitn_3_length: "length (splitn 3 c s) \<in> {1, 2, 3}"
  by (auto simp: splitn_3_eq split: option.split)

section \<open>Blank strings\<close>

text \<open>
  \<open>s.trim().is_empty()\<close>: every character of \<open>s\<close> has the Unicode property White_Space.
  \<open>strip_ws\<close> takes one such character off the front of a UTF-8 text: U+0009 to U+000D, U+0020,
  U+0085, U+00A0, U+1680, U+2000 to U+200A, U+2028, U+2029, U+202F, U+205F, U+3000.
\<close>

definition ws1 :: "u8 \<Rightarrow> bool" where
  "ws1 a \<longleftrightarrow> (0x09 \<le> a \<and> a \<le> 0x0D) \<or> a = 0x20"

definition ws2 :: "u8 \<Rightarrow> u8 \<Rightarrow> bool" where
  "ws2 a b \<longleftrightarrow> a = 0xC2 \<and> (b = 0x85 \<or> b = 0xA0)"

definition ws3 :: "u8 \<Rightarrow> u8 \<Rightarrow> u8 \<Rightarrow> bool" where
  "ws3 a b c \<longleftrightarrow>
     (a = 0xE1 \<and> b = 0x9A \<and> c = 0x80) \<or>
     (a = 0xE2 \<and> b = 0x80 \<and> ((0x80 \<le> c \<and> c \<le> 0x8A) \<or> c = 0xA8 \<or> c = 0xA9 \<or> c = 0xAF)) \<or>
     (a = 0xE2 \<and> b = 0x81 \<and> c = 0x9F) \<or>
     (a = 0xE3 \<and> b = 0x80 \<and> c = 0x80)"

fun strip_ws :: "bytes \<Rightarrow> bytes option" where
  "strip_ws [] = None"
| "strip_ws [a] = (if ws1 a then Some [] else None)"
| "strip_ws [a, b] = (if ws1 a then Some [b] else if ws2 a b then Some [] else None)"
| "strip_ws (a # b # c # r) =
     (if ws1 a then Some (b # c # r) else if ws2 a b then Some (c # r)
      else if ws3 a b c then Some r else None)"

lemma strip_ws_length: "strip_ws bs = Some r \<Longrightarrow> length r < length bs"
  by (cases bs rule: strip_ws.cases) (auto split: if_splits)

function all_ws :: "bytes \<Rightarrow> bool" where
  "all_ws bs = (bs = [] \<or> (case strip_ws bs of None \<Rightarrow> False | Some r \<Rightarrow> all_ws r))"
  by pat_completeness auto
termination
  by (relation "measure length") (auto dest: strip_ws_length)

declare all_ws.simps [simp del]

definition trim_is_empty :: "string \<Rightarrow> bool" where
  "trim_is_empty s = all_ws (as_bytes s)"

lemma all_ws_Nil [simp]: "all_ws []"
  by (simp add: all_ws.simps)

lemma all_ws_space [simp]: "all_ws (0x20 # r) = all_ws r"
proof -
  have "strip_ws (0x20 # r) = Some r"
    by (cases "(0x20 :: u8) # r" rule: strip_ws.cases) (simp_all add: ws1_def)
  then show ?thesis by (simp add: all_ws.simps [of "0x20 # r"])
qed

lemma all_ws_ascii_head: "a < 0x80 \<Longrightarrow> \<not> ws1 a \<Longrightarrow> \<not> all_ws (a # r)"
proof -
  assume "a < 0x80" "\<not> ws1 a"
  then have "strip_ws (a # r) = None"
    by (cases "a # r" rule: strip_ws.cases) (auto simp: ws2_def ws3_def)
  then show ?thesis by (simp add: all_ws.simps [of "a # r"])
qed

lemma trim_is_empty_Nil [simp]: "trim_is_empty []"
  by (simp add: trim_is_empty_def)

end
