(* ===== verification/Errors.thy ===== *)
theory Errors
  imports Rust_Text
begin

text \<open>
  The crate's error types (src/src/error/mod.rs): \<open>NethernetError\<close>, \<open>SignalingError\<close>, their
  \<open>Display\<close> texts, and \<open>SignalErrorCode\<close> with its conversions to and from \<open>u32\<close>. An error of
  the \<open>webrtc\<close> crate is opaque to the program, which only prints it: it is represented by its
  text. A \<open>std::io::Error\<close> is its kind and its text. The lemmas show that the numeric codes
  are injective, round-trip, and that every unknown number is read as
  \<open>SignalingUnknownError\<close>.
\<close>

section \<open>Errors as values\<close>

datatype io_kind = UnexpectedEof | InvalidData | InvalidInput | NotFound | OtherKind

datatype io_error = Io_Error io_kind string

datatype signaling_error =
    SendFailed string
  | ReceiveFailed string
  | InvalidSignal string
  | Stopped
  | NetworkIdNotFound u64
  | CredentialError string
  | ParseError string

datatype nethernet_error =
    WebRtc string
  | Ice string
  | Dtls string
  | Sctp string
  | SignalingErr signaling_error
  | Io io_error
  | ConnectionClosed
  | DataChannel string
  | MessageParse string
  | MessageTooLarge usize
  | Timeout
  | InvalidState string
  | Other string

type_synonym 'a res = "nethernet_error + 'a"
type_synonym 'a io_res = "io_error + 'a"

fun io_text :: "io_error \<Rightarrow> string" where
  "io_text (Io_Error k s) = s"

fun show_signaling_error :: "signaling_error \<Rightarrow> string" where
  "show_signaling_error (SendFailed s) = ''Failed to send signal: '' @ s"
| "show_signaling_error (ReceiveFailed s) = ''Failed to receive signal: '' @ s"
| "show_signaling_error (InvalidSignal s) = ''Invalid signal: '' @ s"
| "show_signaling_error Stopped = ''Signaling stopped''"
| "show_signaling_error (NetworkIdNotFound n) = ''Network ID not found: '' @ u64_to_string n"
| "show_signaling_error (CredentialError s) = ''Credential error: '' @ s"
| "show_signaling_error (ParseError s) = ''Parse error: '' @ s"

fun show_nethernet_error :: "nethernet_error \<Rightarrow> string" where
  "show_nethernet_error (WebRtc s) = ''WebRTC error: '' @ s"
| "show_nethernet_error (Ice s) = ''ICE error: '' @ s"
| "show_nethernet_error (Dtls s) = ''DTLS error: '' @ s"
| "show_nethernet_error (Sctp s) = ''SCTP error: '' @ s"
| "show_nethernet_error (SignalingErr e) = ''Signaling error: '' @ show_signaling_error e"
| "show_nethernet_error (Io e) = ''IO error: '' @ io_text e"
| "show_nethernet_error ConnectionClosed = ''Connection closed''"
| "show_nethernet_error (DataChannel s) = ''Data channel error: '' @ s"
| "show_nethernet_error (MessageParse s) = ''Message parse error: '' @ s"
| "show_nethernet_error (MessageTooLarge n) =
     ''Message too large: exceeds maximum size of '' @ show_nat n @ '' bytes''"
| "show_nethernet_error Timeout = ''Operation timed out''"
| "show_nethernet_error (InvalidState s) = ''Invalid state: '' @ s"
| "show_nethernet_error (Other s) = s"

text \<open>\<open>?\<close> on an \<open>io::Result\<close> where a crate \<open>Result\<close> is expected (\<open>#[from] io::Error\<close>).\<close>

definition lift_io :: "'a io_res \<Rightarrow> 'a res" where
  "lift_io m = map_err Io m"

lemma lift_io_simps [simp, res_simps]:
  "lift_io (Inl e) = Inl (Io e)"
  "lift_io (Inr x) = Inr x"
  by (simp_all add: lift_io_def)

lemma lift_io_Inr_iff [simp]: "lift_io m = Inr x \<longleftrightarrow> m = Inr x"
  by (simp add: lift_io_def)

lemma lift_io_Inl_iff: "lift_io m = Inl e \<longleftrightarrow> (\<exists>d. m = Inl d \<and> e = Io d)"
  by (simp add: lift_io_def map_err_Inl_iff)

text \<open>\<open>io::Error::other(e)\<close>, as the poll functions wrap a crate error.\<close>

definition io_other :: "nethernet_error \<Rightarrow> io_error" where
  "io_other e = Io_Error OtherKind (show_nethernet_error e)"

section \<open>Signal error codes\<close>

datatype signal_error_code =
    S_None
  | S_DestinationNotLoggedIn
  | S_NegotiationTimeout
  | S_WrongTransportVersion
  | S_FailedToCreatePeerConnection
  | S_Ice
  | S_ConnectRequest
  | S_ConnectResponse
  | S_CandidateAdd
  | S_InactivityTimeout
  | S_FailedToCreateOffer
  | S_FailedToCreateAnswer
  | S_FailedToSetLocalDescription
  | S_FailedToSetRemoteDescription
  | S_NegotiationTimeoutWaitingForResponse
  | S_NegotiationTimeoutWaitingForAccept
  | S_IncomingConnectionIgnored
  | S_SignalingParsingFailure
  | S_SignalingUnknownError
  | S_SignalingUnicastMessageDeliveryFailed
  | S_SignalingBroadcastDeliveryFailed
  | S_SignalingMessageDeliveryFailed
  | S_SignalingTurnAuthFailed
  | S_SignalingFallbackToBestEffortDelivery
  | S_NoSignalingChannel
  | S_NotLoggedIn
  | S_SignalingFailedToSend

definition all_signal_error_codes :: "signal_error_code list" where
  "all_signal_error_codes =
      [S_None, S_DestinationNotLoggedIn, S_NegotiationTimeout, S_WrongTransportVersion,
       S_FailedToCreatePeerConnection, S_Ice, S_ConnectRequest, S_ConnectResponse,
       S_CandidateAdd, S_InactivityTimeout, S_FailedToCreateOffer, S_FailedToCreateAnswer,
       S_FailedToSetLocalDescription, S_FailedToSetRemoteDescription,
       S_NegotiationTimeoutWaitingForResponse, S_NegotiationTimeoutWaitingForAccept,
       S_IncomingConnectionIgnored, S_SignalingParsingFailure, S_SignalingUnknownError,
       S_SignalingUnicastMessageDeliveryFailed, S_SignalingBroadcastDeliveryFailed,
       S_SignalingMessageDeliveryFailed, S_SignalingTurnAuthFailed,
       S_SignalingFallbackToBestEffortDelivery, S_NoSignalingChannel, S_NotLoggedIn,
       S_SignalingFailedToSend]"

lemma set_all_signal_error_codes: "x \<in> set all_signal_error_codes"
  by (cases x) (simp_all add: all_signal_error_codes_def)

instantiation signal_error_code :: enum
begin

definition enum_signal_error_code :: "signal_error_code list" where
  "enum_signal_error_code = all_signal_error_codes"

definition enum_all_signal_error_code :: "(signal_error_code \<Rightarrow> bool) \<Rightarrow> bool" where
  "enum_all_signal_error_code P = list_all P all_signal_error_codes"

definition enum_ex_signal_error_code :: "(signal_error_code \<Rightarrow> bool) \<Rightarrow> bool" where
  "enum_ex_signal_error_code P = list_ex P all_signal_error_codes"

instance
proof
  show "(UNIV :: signal_error_code set) = set enum_class.enum"
    by (auto simp: enum_signal_error_code_def set_all_signal_error_codes)
  show "distinct (enum_class.enum :: signal_error_code list)"
    by (simp add: enum_signal_error_code_def all_signal_error_codes_def)
  show "enum_class.enum_all P = Ball UNIV P" for P :: "signal_error_code \<Rightarrow> bool"
    by (auto simp: enum_all_signal_error_code_def list_all_iff set_all_signal_error_codes)
  show "enum_class.enum_ex P = Bex UNIV P" for P :: "signal_error_code \<Rightarrow> bool"
    by (auto simp: enum_ex_signal_error_code_def list_ex_iff set_all_signal_error_codes)
qed

end

fun signal_error_to_u32 :: "signal_error_code \<Rightarrow> u32" where
  "signal_error_to_u32 S_None = 0"
| "signal_error_to_u32 S_DestinationNotLoggedIn = 1"
| "signal_error_to_u32 S_NegotiationTimeout = 2"
| "signal_error_to_u32 S_WrongTransportVersion = 3"
| "signal_error_to_u32 S_FailedToCreatePeerConnection = 4"
| "signal_error_to_u32 S_Ice = 5"
| "signal_error_to_u32 S_ConnectRequest = 6"
| "signal_error_to_u32 S_ConnectResponse = 7"
| "signal_error_to_u32 S_CandidateAdd = 8"
| "signal_error_to_u32 S_InactivityTimeout = 9"
| "signal_error_to_u32 S_FailedToCreateOffer = 10"
| "signal_error_to_u32 S_FailedToCreateAnswer = 11"
| "signal_error_to_u32 S_FailedToSetLocalDescription = 12"
| "signal_error_to_u32 S_FailedToSetRemoteDescription = 13"
| "signal_error_to_u32 S_NegotiationTimeoutWaitingForResponse = 14"
| "signal_error_to_u32 S_NegotiationTimeoutWaitingForAccept = 15"
| "signal_error_to_u32 S_IncomingConnectionIgnored = 16"
| "signal_error_to_u32 S_SignalingParsingFailure = 17"
| "signal_error_to_u32 S_SignalingUnknownError = 18"
| "signal_error_to_u32 S_SignalingUnicastMessageDeliveryFailed = 19"
| "signal_error_to_u32 S_SignalingBroadcastDeliveryFailed = 20"
| "signal_error_to_u32 S_SignalingMessageDeliveryFailed = 21"
| "signal_error_to_u32 S_SignalingTurnAuthFailed = 22"
| "signal_error_to_u32 S_SignalingFallbackToBestEffortDelivery = 23"
| "signal_error_to_u32 S_NoSignalingChannel = 24"
| "signal_error_to_u32 S_NotLoggedIn = 25"
| "signal_error_to_u32 S_SignalingFailedToSend = 26"

definition signal_error_from_u32 :: "u32 \<Rightarrow> signal_error_code" where
  "signal_error_from_u32 code =
    (if code = 0 then S_None
     else if code = 1 then S_DestinationNotLoggedIn
     else if code = 2 then S_NegotiationTimeout
     else if code = 3 then S_WrongTransportVersion
     else if code = 4 then S_FailedToCreatePeerConnection
     else if code = 5 then S_Ice
     else if code = 6 then S_ConnectRequest
     else if code = 7 then S_ConnectResponse
     else if code = 8 then S_CandidateAdd
     else if code = 9 then S_InactivityTimeout
     else if code = 10 then S_FailedToCreateOffer
     else if code = 11 then S_FailedToCreateAnswer
     else if code = 12 then S_FailedToSetLocalDescription
     else if code = 13 then S_FailedToSetRemoteDescription
     else if code = 14 then S_NegotiationTimeoutWaitingForResponse
     else if code = 15 then S_NegotiationTimeoutWaitingForAccept
     else if code = 16 then S_IncomingConnectionIgnored
     else if code = 17 then S_SignalingParsingFailure
     else if code = 18 then S_SignalingUnknownError
     else if code = 19 then S_SignalingUnicastMessageDeliveryFailed
     else if code = 20 then S_SignalingBroadcastDeliveryFailed
     else if code = 21 then S_SignalingMessageDeliveryFailed
     else if code = 22 then S_SignalingTurnAuthFailed
     else if code = 23 then S_SignalingFallbackToBestEffortDelivery
     else if code = 24 then S_NoSignalingChannel
     else if code = 25 then S_NotLoggedIn
     else if code = 26 then S_SignalingFailedToSend
     else S_SignalingUnknownError)"

text \<open>Converting a code to a number and back loses nothing, so the numbers are distinct.\<close>

lemma signal_error_from_to [simp]: "signal_error_from_u32 (signal_error_to_u32 c) = c"
  by (cases c) (simp_all add: signal_error_from_u32_def)

lemma signal_error_to_u32_inj: "inj signal_error_to_u32"
  by (rule inj_on_inverseI) (rule signal_error_from_to)

lemma signal_error_to_u32_le: "signal_error_to_u32 c \<le> 26"
  by (cases c) simp_all

lemma signal_error_from_u32_unknown: "26 < n \<Longrightarrow> signal_error_from_u32 n = S_SignalingUnknownError"
  by (auto simp: signal_error_from_u32_def)

lemma word_le_26_cases:
  assumes "(n :: u32) \<le> 26" obtains k where "k \<in> {0..<27}" and "n = word_of_nat k"
proof
  from assms show "unat n \<in> {0..<27}" by (simp add: word_le_nat_alt)
  show "n = word_of_nat (unat n)" by simp
qed

lemma signal_error_to_from: "n \<le> 26 \<Longrightarrow> signal_error_to_u32 (signal_error_from_u32 n) = n"
proof -
  assume "n \<le> 26"
  then obtain k where k: "k \<in> {0..<27}" and n: "n = word_of_nat k" by (rule word_le_26_cases)
  have "\<forall>k \<in> set [0..<27]. signal_error_to_u32 (signal_error_from_u32 (word_of_nat k)) = word_of_nat k"
    by code_simp
  with k n show ?thesis by simp
qed

end
