(* ===== verification/Connect_Error.thy ===== *)
theory Connect_Error
  imports Errors
begin

text \<open>
  \<open>ConnectError\<close> (src/src/protocol/webrtc/error.rs): the error codes of a \<open>CONNECTERROR\<close>
  message, their numbers on the wire (with a gap at 0x14), the partial inverse \<open>from_code\<close>,
  the texts, and the conversions to and from \<open>SignalErrorCode\<close>. The lemmas show that the two
  enumerations are isomorphic, that \<open>from_code\<close> inverts \<open>code\<close> exactly, and where the two
  numberings part.
\<close>

datatype connect_error =
    C_None
  | C_DestinationNotLoggedIn
  | C_NegotiationTimeout
  | C_WrongTransportVersion
  | C_FailedToCreatePeerConnection
  | C_ICE
  | C_ConnectRequest
  | C_ConnectResponse
  | C_CandidateAdd
  | C_InactivityTimeout
  | C_FailedToCreateOffer
  | C_FailedToCreateAnswer
  | C_FailedToSetLocalDescription
  | C_FailedToSetRemoteDescription
  | C_NegotiationTimeoutWaitingForResponse
  | C_NegotiationTimeoutWaitingForAccept
  | C_IncomingConnectionIgnored
  | C_SignalingParsingFailure
  | C_SignalingUnknownError
  | C_SignalingUnicastMessageDeliveryFailed
  | C_SignalingBroadcastDeliveryFailed
  | C_SignalingMessageDeliveryFailed
  | C_SignalingTurnAuthFailed
  | C_SignalingFallbackToBestEffortDelivery
  | C_NoSignalingChannel
  | C_NotLoggedIn
  | C_SignalingFailedToSend

definition all_connect_errors :: "connect_error list" where
  "all_connect_errors =
      [C_None, C_DestinationNotLoggedIn, C_NegotiationTimeout, C_WrongTransportVersion,
       C_FailedToCreatePeerConnection, C_ICE, C_ConnectRequest, C_ConnectResponse,
       C_CandidateAdd, C_InactivityTimeout, C_FailedToCreateOffer, C_FailedToCreateAnswer,
       C_FailedToSetLocalDescription, C_FailedToSetRemoteDescription,
       C_NegotiationTimeoutWaitingForResponse, C_NegotiationTimeoutWaitingForAccept,
       C_IncomingConnectionIgnored, C_SignalingParsingFailure, C_SignalingUnknownError,
       C_SignalingUnicastMessageDeliveryFailed, C_SignalingBroadcastDeliveryFailed,
       C_SignalingMessageDeliveryFailed, C_SignalingTurnAuthFailed,
       C_SignalingFallbackToBestEffortDelivery, C_NoSignalingChannel, C_NotLoggedIn,
       C_SignalingFailedToSend]"

lemma set_all_connect_errors: "x \<in> set all_connect_errors"
  by (cases x) (simp_all add: all_connect_errors_def)

instantiation connect_error :: enum
begin

definition enum_connect_error :: "connect_error list" where
  "enum_connect_error = all_connect_errors"

definition enum_all_connect_error :: "(connect_error \<Rightarrow> bool) \<Rightarrow> bool" where
  "enum_all_connect_error P = list_all P all_connect_errors"

definition enum_ex_connect_error :: "(connect_error \<Rightarrow> bool) \<Rightarrow> bool" where
  "enum_ex_connect_error P = list_ex P all_connect_errors"

instance
proof
  show "(UNIV :: connect_error set) = set enum_class.enum"
    by (auto simp: enum_connect_error_def set_all_connect_errors)
  show "distinct (enum_class.enum :: connect_error list)"
    by (simp add: enum_connect_error_def all_connect_errors_def)
  show "enum_class.enum_all P = Ball UNIV P" for P :: "connect_error \<Rightarrow> bool"
    by (auto simp: enum_all_connect_error_def list_all_iff set_all_connect_errors)
  show "enum_class.enum_ex P = Bex UNIV P" for P :: "connect_error \<Rightarrow> bool"
    by (auto simp: enum_ex_connect_error_def list_ex_iff set_all_connect_errors)
qed

end

fun connect_error_code :: "connect_error \<Rightarrow> u8" where
  "connect_error_code C_None = 0x00"
| "connect_error_code C_DestinationNotLoggedIn = 0x01"
| "connect_error_code C_NegotiationTimeout = 0x02"
| "connect_error_code C_WrongTransportVersion = 0x03"
| "connect_error_code C_FailedToCreatePeerConnection = 0x04"
| "connect_error_code C_ICE = 0x05"
| "connect_error_code C_ConnectRequest = 0x06"
| "connect_error_code C_ConnectResponse = 0x07"
| "connect_error_code C_CandidateAdd = 0x08"
| "connect_error_code C_InactivityTimeout = 0x09"
| "connect_error_code C_FailedToCreateOffer = 0x0A"
| "connect_error_code C_FailedToCreateAnswer = 0x0B"
| "connect_error_code C_FailedToSetLocalDescription = 0x0C"
| "connect_error_code C_FailedToSetRemoteDescription = 0x0D"
| "connect_error_code C_NegotiationTimeoutWaitingForResponse = 0x0E"
| "connect_error_code C_NegotiationTimeoutWaitingForAccept = 0x0F"
| "connect_error_code C_IncomingConnectionIgnored = 0x10"
| "connect_error_code C_SignalingParsingFailure = 0x11"
| "connect_error_code C_SignalingUnknownError = 0x12"
| "connect_error_code C_SignalingUnicastMessageDeliveryFailed = 0x13"
| "connect_error_code C_SignalingBroadcastDeliveryFailed = 0x15"
| "connect_error_code C_SignalingMessageDeliveryFailed = 0x16"
| "connect_error_code C_SignalingTurnAuthFailed = 0x17"
| "connect_error_code C_SignalingFallbackToBestEffortDelivery = 0x18"
| "connect_error_code C_NoSignalingChannel = 0x19"
| "connect_error_code C_NotLoggedIn = 0x1A"
| "connect_error_code C_SignalingFailedToSend = 0x1B"

definition connect_error_from_code :: "u8 \<Rightarrow> connect_error option" where
  "connect_error_from_code code =
    (if code = 0x00 then Some C_None
     else if code = 0x01 then Some C_DestinationNotLoggedIn
     else if code = 0x02 then Some C_NegotiationTimeout
     else if code = 0x03 then Some C_WrongTransportVersion
     else if code = 0x04 then Some C_FailedToCreatePeerConnection
     else if code = 0x05 then Some C_ICE
     else if code = 0x06 then Some C_ConnectRequest
     else if code = 0x07 then Some C_ConnectResponse
     else if code = 0x08 then Some C_CandidateAdd
     else if code = 0x09 then Some C_InactivityTimeout
     else if code = 0x0A then Some C_FailedToCreateOffer
     else if code = 0x0B then Some C_FailedToCreateAnswer
     else if code = 0x0C then Some C_FailedToSetLocalDescription
     else if code = 0x0D then Some C_FailedToSetRemoteDescription
     else if code = 0x0E then Some C_NegotiationTimeoutWaitingForResponse
     else if code = 0x0F then Some C_NegotiationTimeoutWaitingForAccept
     else if code = 0x10 then Some C_IncomingConnectionIgnored
     else if code = 0x11 then Some C_SignalingParsingFailure
     else if code = 0x12 then Some C_SignalingUnknownError
     else if code = 0x13 then Some C_SignalingUnicastMessageDeliveryFailed
     else if code = 0x15 then Some C_SignalingBroadcastDeliveryFailed
     else if code = 0x16 then Some C_SignalingMessageDeliveryFailed
     else if code = 0x17 then Some C_SignalingTurnAuthFailed
     else if code = 0x18 then Some C_SignalingFallbackToBestEffortDelivery
     else if code = 0x19 then Some C_NoSignalingChannel
     else if code = 0x1A then Some C_NotLoggedIn
     else if code = 0x1B then Some C_SignalingFailedToSend
     else None)"

fun connect_error_of_signal :: "signal_error_code \<Rightarrow> connect_error" where
  "connect_error_of_signal S_None = C_None"
| "connect_error_of_signal S_DestinationNotLoggedIn = C_DestinationNotLoggedIn"
| "connect_error_of_signal S_NegotiationTimeout = C_NegotiationTimeout"
| "connect_error_of_signal S_WrongTransportVersion = C_WrongTransportVersion"
| "connect_error_of_signal S_FailedToCreatePeerConnection = C_FailedToCreatePeerConnection"
| "connect_error_of_signal S_Ice = C_ICE"
| "connect_error_of_signal S_ConnectRequest = C_ConnectRequest"
| "connect_error_of_signal S_ConnectResponse = C_ConnectResponse"
| "connect_error_of_signal S_CandidateAdd = C_CandidateAdd"
| "connect_error_of_signal S_InactivityTimeout = C_InactivityTimeout"
| "connect_error_of_signal S_FailedToCreateOffer = C_FailedToCreateOffer"
| "connect_error_of_signal S_FailedToCreateAnswer = C_FailedToCreateAnswer"
| "connect_error_of_signal S_FailedToSetLocalDescription = C_FailedToSetLocalDescription"
| "connect_error_of_signal S_FailedToSetRemoteDescription = C_FailedToSetRemoteDescription"
| "connect_error_of_signal S_NegotiationTimeoutWaitingForResponse = C_NegotiationTimeoutWaitingForResponse"
| "connect_error_of_signal S_NegotiationTimeoutWaitingForAccept = C_NegotiationTimeoutWaitingForAccept"
| "connect_error_of_signal S_IncomingConnectionIgnored = C_IncomingConnectionIgnored"
| "connect_error_of_signal S_SignalingParsingFailure = C_SignalingParsingFailure"
| "connect_error_of_signal S_SignalingUnknownError = C_SignalingUnknownError"
| "connect_error_of_signal S_SignalingUnicastMessageDeliveryFailed = C_SignalingUnicastMessageDeliveryFailed"
| "connect_error_of_signal S_SignalingBroadcastDeliveryFailed = C_SignalingBroadcastDeliveryFailed"
| "connect_error_of_signal S_SignalingMessageDeliveryFailed = C_SignalingMessageDeliveryFailed"
| "connect_error_of_signal S_SignalingTurnAuthFailed = C_SignalingTurnAuthFailed"
| "connect_error_of_signal S_SignalingFallbackToBestEffortDelivery = C_SignalingFallbackToBestEffortDelivery"
| "connect_error_of_signal S_NoSignalingChannel = C_NoSignalingChannel"
| "connect_error_of_signal S_NotLoggedIn = C_NotLoggedIn"
| "connect_error_of_signal S_SignalingFailedToSend = C_SignalingFailedToSend"

fun signal_error_of_connect :: "connect_error \<Rightarrow> signal_error_code" where
  "signal_error_of_connect C_None = S_None"
| "signal_error_of_connect C_DestinationNotLoggedIn = S_DestinationNotLoggedIn"
| "signal_error_of_connect C_NegotiationTimeout = S_NegotiationTimeout"
| "signal_error_of_connect C_WrongTransportVersion = S_WrongTransportVersion"
| "signal_error_of_connect C_FailedToCreatePeerConnection = S_FailedToCreatePeerConnection"
| "signal_error_of_connect C_ICE = S_Ice"
| "signal_error_of_connect C_ConnectRequest = S_ConnectRequest"
| "signal_error_of_connect C_ConnectResponse = S_ConnectResponse"
| "signal_error_of_connect C_CandidateAdd = S_CandidateAdd"
| "signal_error_of_connect C_InactivityTimeout = S_InactivityTimeout"
| "signal_error_of_connect C_FailedToCreateOffer = S_FailedToCreateOffer"
| "signal_error_of_connect C_FailedToCreateAnswer = S_FailedToCreateAnswer"
| "signal_error_of_connect C_FailedToSetLocalDescription = S_FailedToSetLocalDescription"
| "signal_error_of_connect C_FailedToSetRemoteDescription = S_FailedToSetRemoteDescription"
| "signal_error_of_connect C_NegotiationTimeoutWaitingForResponse = S_NegotiationTimeoutWaitingForResponse"
| "signal_error_of_connect C_NegotiationTimeoutWaitingForAccept = S_NegotiationTimeoutWaitingForAccept"
| "signal_error_of_connect C_IncomingConnectionIgnored = S_IncomingConnectionIgnored"
| "signal_error_of_connect C_SignalingParsingFailure = S_SignalingParsingFailure"
| "signal_error_of_connect C_SignalingUnknownError = S_SignalingUnknownError"
| "signal_error_of_connect C_SignalingUnicastMessageDeliveryFailed = S_SignalingUnicastMessageDeliveryFailed"
| "signal_error_of_connect C_SignalingBroadcastDeliveryFailed = S_SignalingBroadcastDeliveryFailed"
| "signal_error_of_connect C_SignalingMessageDeliveryFailed = S_SignalingMessageDeliveryFailed"
| "signal_error_of_connect C_SignalingTurnAuthFailed = S_SignalingTurnAuthFailed"
| "signal_error_of_connect C_SignalingFallbackToBestEffortDelivery = S_SignalingFallbackToBestEffortDelivery"
| "signal_error_of_connect C_NoSignalingChannel = S_NoSignalingChannel"
| "signal_error_of_connect C_NotLoggedIn = S_NotLoggedIn"
| "signal_error_of_connect C_SignalingFailedToSend = S_SignalingFailedToSend"

fun show_connect_error :: "connect_error \<Rightarrow> string" where
  "show_connect_error C_None = ''no error''"
| "show_connect_error C_DestinationNotLoggedIn = ''destination not logged in''"
| "show_connect_error C_NegotiationTimeout = ''negotiation timeout''"
| "show_connect_error C_WrongTransportVersion = ''wrong transport version''"
| "show_connect_error C_FailedToCreatePeerConnection = ''failed to create peer connection''"
| "show_connect_error C_ICE = ''ICE error''"
| "show_connect_error C_ConnectRequest = ''connect request error''"
| "show_connect_error C_ConnectResponse = ''connect response error''"
| "show_connect_error C_CandidateAdd = ''candidate add error''"
| "show_connect_error C_InactivityTimeout = ''inactivity timeout''"
| "show_connect_error C_FailedToCreateOffer = ''failed to create offer''"
| "show_connect_error C_FailedToCreateAnswer = ''failed to create answer''"
| "show_connect_error C_FailedToSetLocalDescription = ''failed to set local description''"
| "show_connect_error C_FailedToSetRemoteDescription = ''failed to set remote description''"
| "show_connect_error C_NegotiationTimeoutWaitingForResponse = ''negotiation timeout waiting for response''"
| "show_connect_error C_NegotiationTimeoutWaitingForAccept = ''negotiation timeout waiting for accept''"
| "show_connect_error C_IncomingConnectionIgnored = ''incoming connection ignored''"
| "show_connect_error C_SignalingParsingFailure = ''signaling parsing failure''"
| "show_connect_error C_SignalingUnknownError = ''signaling unknown error''"
| "show_connect_error C_SignalingUnicastMessageDeliveryFailed = ''signaling unicast message delivery failed''"
| "show_connect_error C_SignalingBroadcastDeliveryFailed = ''signaling broadcast delivery failed''"
| "show_connect_error C_SignalingMessageDeliveryFailed = ''signaling message delivery failed''"
| "show_connect_error C_SignalingTurnAuthFailed = ''signaling TURN auth failed''"
| "show_connect_error C_SignalingFallbackToBestEffortDelivery = ''signaling fallback to best effort delivery''"
| "show_connect_error C_NoSignalingChannel = ''no signaling channel''"
| "show_connect_error C_NotLoggedIn = ''not logged in''"
| "show_connect_error C_SignalingFailedToSend = ''signaling failed to send''"

text \<open>\<open>from_code\<close> is the inverse of \<open>code\<close>, and defined exactly on the codes.\<close>

lemma connect_error_from_code_code [simp]:
  "connect_error_from_code (connect_error_code e) = Some e"
  by (cases e) (simp_all add: connect_error_from_code_def)

lemma connect_error_from_code_Some:
  "connect_error_from_code n = Some e \<Longrightarrow> connect_error_code e = n"
  by (auto simp: connect_error_from_code_def split: if_splits)

lemma connect_error_from_code_iff:
  "connect_error_from_code n = Some e \<longleftrightarrow> connect_error_code e = n"
  using connect_error_from_code_Some connect_error_from_code_code by blast

lemma connect_error_code_inj: "connect_error_code a = connect_error_code b \<longleftrightarrow> a = b"
  by (metis connect_error_from_code_code option.inject)

lemma connect_error_of_signal_of_connect [simp]:
  "connect_error_of_signal (signal_error_of_connect e) = e"
  by (cases e) simp_all

lemma signal_error_of_connect_of_signal [simp]:
  "signal_error_of_connect (connect_error_of_signal c) = c"
  by (cases c) simp_all

text \<open>
  The two numberings agree up to 19; from 20 on the \<open>ConnectError\<close> number is one larger.
\<close>

lemma codes_compare:
  "unat (connect_error_code (connect_error_of_signal c)) =
     (if signal_error_to_u32 c \<le> 19 then unat (signal_error_to_u32 c)
      else unat (signal_error_to_u32 c) + 1)"
  by (cases c) simp_all

text \<open>The codes are ordered by their number, as the \<open>repr(u8)\<close> discriminants are.\<close>

instantiation connect_error :: linorder
begin

definition less_eq_connect_error :: "connect_error \<Rightarrow> connect_error \<Rightarrow> bool" where
  "less_eq_connect_error a b \<longleftrightarrow> connect_error_code a \<le> connect_error_code b"

definition less_connect_error :: "connect_error \<Rightarrow> connect_error \<Rightarrow> bool" where
  "less_connect_error a b \<longleftrightarrow> connect_error_code a < connect_error_code b"

instance
  by standard (auto simp: less_eq_connect_error_def less_connect_error_def connect_error_code_inj
      simp flip: not_le)

end

lemma connect_error_code_mono: "mono connect_error_code"
  by (rule monoI) (simp add: less_eq_connect_error_def)

end
