(* ===== verification/Wire.thy ===== *)
theory Wire
  imports Errors
begin

text \<open>
  The on-the-wire primitives (src/src/protocol/types/ints.rs, primitives.rs) and the protocol's
  constants (src/src/protocol/constants.rs): little-endian integers, single bytes, and byte
  arrays with a length prefix, read from a cursor and appended to a buffer. The locales
  \<open>roundtrip_codec\<close>, \<open>codec\<close>, \<open>canonical_codec\<close> and \<open>fixed_codec\<close> state what the packet formats rely on: writing
  appends one fixed encoding, reading it gives the value back and leaves what follows, and
  (for canonical codecs) nothing else is accepted. Every primitive is an interpretation.
\<close>

section \<open>Constants\<close>

definition LAN_DISCOVERY_PORT :: u16 where "LAN_DISCOVERY_PORT = 7551"

definition ID_REQUEST_PACKET :: u16 where "ID_REQUEST_PACKET = 0"
definition ID_RESPONSE_PACKET :: u16 where "ID_RESPONSE_PACKET = 1"
definition ID_MESSAGE_PACKET :: u16 where "ID_MESSAGE_PACKET = 2"

definition MAX_MESSAGE_SIZE :: usize where "MAX_MESSAGE_SIZE = 10000"

definition MAX_BYTES :: usize where "MAX_BYTES = 16 * 1024 * 1024"

definition HEADER_SIZE :: usize where "HEADER_SIZE = 18"

definition RELIABLE_CHANNEL :: string where "RELIABLE_CHANNEL = ''ReliableDataChannel''"
definition UNRELIABLE_CHANNEL :: string where "UNRELIABLE_CHANNEL = ''UnreliableDataChannel''"

definition DEFAULT_PACKET_CHANNEL_CAPACITY :: usize where
  "DEFAULT_PACKET_CHANNEL_CAPACITY = 1024"

lemmas packet_ids = ID_REQUEST_PACKET_def ID_RESPONSE_PACKET_def ID_MESSAGE_PACKET_def

section \<open>Little-endian bytes of a word\<close>

text \<open>\<open>to_le_bytes\<close> and \<open>from_le_bytes\<close> of the standard library, for any width.\<close>

fun to_le :: "nat \<Rightarrow> 'a::len word \<Rightarrow> bytes" where
  "to_le 0 w = []"
| "to_le (Suc n) w = ucast w # to_le n (drop_bit 8 w)"

fun from_le :: "bytes \<Rightarrow> 'a::len word" where
  "from_le [] = 0"
| "from_le (b # bs) = ucast b OR push_bit 8 (from_le bs)"

lemma length_to_le [simp, len_simps]: "length (to_le n w) = n"
  by (induction n arbitrary: w) auto

lemma from_le_to_le_take: "from_le (to_le n w) = take_bit (8 * n) w"
proof (induction n arbitrary: w)
  case 0
  then show ?case by simp
next
  case (Suc n)
  have "(ucast (ucast w :: u8) :: 'a word) OR push_bit 8 (take_bit (8 * n) (drop_bit 8 w)) =
      take_bit (8 * Suc n) w"
    by (rule bit_word_eqI)
      (auto simp: bit_or_iff bit_push_bit_iff bit_take_bit_iff bit_drop_bit_eq bit_ucast_iff)
  with Suc show ?case by simp
qed

lemma from_le_to_le: "LENGTH('a) \<le> 8 * n \<Longrightarrow> from_le (to_le n (w :: 'a::len word)) = w"
  by (simp add: from_le_to_le_take take_bit_word_eq_self)

lemma bit_from_leD: "bit (from_le bs :: 'a::len word) i \<Longrightarrow> i < 8 * length bs"
proof (induction bs arbitrary: i)
  case Nil
  then show ?case by simp
next
  case (Cons b bs)
  from Cons.prems consider "i < 8" | "8 \<le> i" "bit (from_le bs :: 'a word) (i - 8)"
    by (auto simp: bit_or_iff bit_push_bit_iff bit_ucast_iff dest: bit_imp_le_length)
  then show ?case
    by cases (auto dest: Cons.IH)
qed

lemma to_le_from_le:
  "8 * length bs \<le> LENGTH('a) \<Longrightarrow> to_le (length bs) (from_le bs :: 'a::len word) = bs"
proof (induction bs)
  case Nil
  then show ?case by simp
next
  case (Cons b bs)
  let ?x = "from_le bs :: 'a word"
  from Cons.prems have len: "8 + 8 * length bs \<le> LENGTH('a)" by simp
  have "ucast (ucast b OR push_bit 8 ?x) = b"
    by (rule bit_word_eqI) (use len in \<open>auto simp: bit_or_iff bit_push_bit_iff bit_ucast_iff\<close>)
  moreover have "drop_bit 8 (ucast b OR push_bit 8 ?x) = ?x"
  proof (rule bit_word_eqI)
    fix i assume "i < LENGTH('a)"
    show "bit (drop_bit 8 (ucast b OR push_bit 8 ?x)) i \<longleftrightarrow> bit ?x i"
      using len bit_from_leD [of bs i, where 'a = 'a]
      by (auto simp: bit_or_iff bit_push_bit_iff bit_ucast_iff bit_drop_bit_eq
          dest: bit_imp_le_length)
  qed
  ultimately show ?case using Cons by simp
qed

lemma to_le_from_le_length:
  "length bs = n \<Longrightarrow> 8 * n \<le> LENGTH('a) \<Longrightarrow> to_le n (from_le bs :: 'a::len word) = bs"
  using to_le_from_le [of bs, where 'a = 'a] by simp

section \<open>Readers and writers\<close>

text \<open>\<open>Read::read_exact\<close> on a cursor: the next \<open>n\<close> bytes, or the end-of-file error.\<close>

definition eof_error :: io_error where
  "eof_error = Io_Error UnexpectedEof ''failed to fill whole buffer''"

definition read_exact :: "nat \<Rightarrow> bytes \<Rightarrow> (bytes \<times> bytes) io_res" where
  "read_exact n r = (if n \<le> length r then Inr (take n r, drop n r) else Inl eof_error)"

text \<open>\<open>Write::write_all\<close> on a \<open>Vec\<close> always succeeds.\<close>

definition write_all :: "bytes \<Rightarrow> bytes \<Rightarrow> bytes io_res" where
  "write_all w data = Inr (w @ data)"

lemma read_exact_append [simp, codec_simps]:
  "n = length p \<Longrightarrow> read_exact n (p @ r) = Inr (p, r)"
  by (simp add: read_exact_def)

lemma read_exact_Inr_iff: "read_exact n bs = Inr (p, r) \<longleftrightarrow> length p = n \<and> bs = p @ r"
  by (auto simp: read_exact_def)

lemma read_exact_short: "length bs < n \<Longrightarrow> read_exact n bs = Inl eof_error"
  by (simp add: read_exact_def)

definition u16le_read :: "bytes \<Rightarrow> (u16 \<times> bytes) io_res" where
  "u16le_read r = and_then (read_exact 2 r) (\<lambda>(buf, r). Inr (from_le buf, r))"

definition u16le_write :: "bytes \<Rightarrow> u16 \<Rightarrow> bytes io_res" where
  "u16le_write w v = write_all w (to_le 2 v)"

definition u32le_read :: "bytes \<Rightarrow> (u32 \<times> bytes) io_res" where
  "u32le_read r = and_then (read_exact 4 r) (\<lambda>(buf, r). Inr (from_le buf, r))"

definition u32le_write :: "bytes \<Rightarrow> u32 \<Rightarrow> bytes io_res" where
  "u32le_write w v = write_all w (to_le 4 v)"

definition u64le_read :: "bytes \<Rightarrow> (u64 \<times> bytes) io_res" where
  "u64le_read r = and_then (read_exact 8 r) (\<lambda>(buf, r). Inr (from_le buf, r))"

definition u64le_write :: "bytes \<Rightarrow> u64 \<Rightarrow> bytes io_res" where
  "u64le_write w v = write_all w (to_le 8 v)"

definition read_u8 :: "bytes \<Rightarrow> (u8 \<times> bytes) io_res" where
  "read_u8 r = and_then (read_exact 1 r) (\<lambda>(buf, r). Inr (buf ! 0, r))"

definition write_u8 :: "bytes \<Rightarrow> u8 \<Rightarrow> bytes io_res" where
  "write_u8 w v = write_all w [v]"

definition read_i32_le :: "bytes \<Rightarrow> (i32 \<times> bytes) io_res" where
  "read_i32_le r = and_then (read_exact 4 r) (\<lambda>(buf, r). Inr (from_le buf, r))"

definition write_i32_le :: "bytes \<Rightarrow> i32 \<Rightarrow> bytes io_res" where
  "write_i32_le w v = write_all w (to_le 4 v)"

text \<open>
  A length-prefixed byte array. The length is checked against \<open>MAX_BYTES\<close> before the buffer is
  allocated; the conversion to \<open>usize\<close> cannot fail on a 64 bit target.
\<close>

definition read_bytes ::
    "(bytes \<Rightarrow> ('l::len word \<times> bytes) io_res) \<Rightarrow> bytes \<Rightarrow> (bytes \<times> bytes) io_res" where
  "read_bytes read_length r =
     and_then (read_length r) (\<lambda>(l, r).
       let length = (ucast l :: u64) in
       if unat length > MAX_BYTES
       then Inl (Io_Error InvalidData
         (''byte array length '' @ u64_to_string length @
          '' exceeds maximum allowed '' @ show_nat MAX_BYTES))
       else read_exact (unat length) r)"

definition read_bytes_u8 :: "bytes \<Rightarrow> (bytes \<times> bytes) io_res" where
  "read_bytes_u8 r = read_bytes read_u8 r"

definition read_bytes_u32 :: "bytes \<Rightarrow> (bytes \<times> bytes) io_res" where
  "read_bytes_u32 r = and_then (u32le_read r) (\<lambda>(length, r). read_bytes (\<lambda>r. Inr (length, r)) r)"

text \<open>\<open>TryFrom<usize>\<close> for an unsigned type.\<close>

definition try_from_usize :: "usize \<Rightarrow> 'l::len word option" where
  "try_from_usize n = (if n < 2 ^ LENGTH('l) then Some (word_of_nat n) else None)"

definition write_bytes ::
    "bytes \<Rightarrow> bytes \<Rightarrow> (bytes \<Rightarrow> 'l::len word \<Rightarrow> bytes io_res) \<Rightarrow> bytes io_res" where
  "write_bytes w data write_length =
     (if length data > MAX_BYTES
      then Inl (Io_Error InvalidInput
        (''data length '' @ show_nat (length data) @
         '' exceeds maximum allowed '' @ show_nat MAX_BYTES))
      else
        and_then
          (ok_or (Io_Error InvalidInput ''length conversion failed: TryFromIntError(())'')
            (try_from_usize (length data)))
          (\<lambda>len. and_then (write_length w len) (\<lambda>w. write_all w data)))"

definition write_bytes_u8 :: "bytes \<Rightarrow> bytes \<Rightarrow> bytes io_res" where
  "write_bytes_u8 w data = write_bytes w data write_u8"

definition write_bytes_u32 :: "bytes \<Rightarrow> bytes \<Rightarrow> bytes io_res" where
  "write_bytes_u32 w data = write_bytes w data u32le_write"

section \<open>What a codec promises\<close>

locale roundtrip_codec =
  fixes enc :: "'a \<Rightarrow> bytes"
    and ok :: "'a \<Rightarrow> bool"
    and put :: "bytes \<Rightarrow> 'a \<Rightarrow> 'e + bytes"
    and get :: "bytes \<Rightarrow> 'f + ('a \<times> bytes)"
  assumes write_ok: "ok x \<Longrightarrow> put w x = Inr (w @ enc x)"
    and read_enc: "ok x \<Longrightarrow> get (enc x @ r) = Inr (x, r)"
begin

lemma write_read: "ok x \<Longrightarrow> put [] x = Inr bs \<Longrightarrow> get (bs @ r) = Inr (x, r)"
  by (auto simp: write_ok read_enc)

lemma enc_prefix_free:
  assumes "ok x" "ok y" "enc x @ r = enc y @ s" shows "x = y \<and> r = s"
proof -
  have "get (enc x @ r) = get (enc y @ s)"
    by (rule arg_cong [OF assms(3)])
  then show ?thesis
    unfolding read_enc [OF assms(1)] read_enc [OF assms(2)] by simp
qed

end

locale codec = roundtrip_codec +
  assumes write_bad: "\<not> ok x \<Longrightarrow> \<exists>e. put w x = Inl e"
    and read_suffix: "get bs = Inr (x, r) \<Longrightarrow> \<exists>p. bs = p @ r"
begin

lemma write_Inr_iff: "put w x = Inr w' \<longleftrightarrow> ok x \<and> w' = w @ enc x"
  using write_ok [of x w] write_bad [of x w] by (cases "ok x") auto

lemma write_is_ok: "is_ok (put w x) \<longleftrightarrow> ok x"
  by (auto simp: is_ok_iff write_Inr_iff)

lemma read_length: "get bs = Inr (x, r) \<Longrightarrow> length r \<le> length bs"
  by (auto dest: read_suffix)

end

locale canonical_codec = codec +
  assumes read_canonical: "get bs = Inr (x, r) \<Longrightarrow> ok x \<and> bs = enc x @ r"
begin

lemma read_Inr_iff: "get bs = Inr (x, r) \<longleftrightarrow> ok x \<and> bs = enc x @ r"
  using read_canonical read_enc by blast

lemma read_append: "get bs = Inr (x, r) \<Longrightarrow> get (bs @ s) = Inr (x, r @ s)"
  by (simp add: read_Inr_iff)

lemma read_rewrites: "get bs = Inr (x, r) \<Longrightarrow> put w x = Inr (w @ take (length bs - length r) bs)"
  by (auto simp: read_Inr_iff write_Inr_iff)

end

locale fixed_codec = canonical_codec +
  fixes n :: nat
  assumes all_ok: "ok x"
    and enc_length: "length (enc x) = n"
    and read_total: "n \<le> length bs \<Longrightarrow> \<exists>x r. get bs = Inr (x, r)"
begin

lemma read_short: "length bs < n \<Longrightarrow> \<exists>e. get bs = Inl e"
  by (cases "get bs") (auto simp: read_Inr_iff enc_length)

lemma read_is_ok: "is_ok (get bs) \<longleftrightarrow> n \<le> length bs"
  using read_short [of bs] read_total [of bs] by (cases "n \<le> length bs") auto

lemma read_consumes: "get bs = Inr (x, r) \<Longrightarrow> enc x = take n bs \<and> r = drop n bs"
  by (auto simp: read_Inr_iff enc_length)

end

text \<open>
  The primitives of a fixed width have one shape: get \<open>n\<close> bytes and convert them, where the
  conversion is inverse to the encoding.
\<close>

lemma fixed_codec_read_exact:
  assumes put: "\<And>w x. put w x = write_all w (f x)"
    and get: "\<And>bs. get bs = and_then (read_exact n bs) (\<lambda>(buf, r). Inr (g buf, r))"
    and len: "\<And>x. length (f x) = n"
    and gf: "\<And>x. g (f x) = x"
    and fg: "\<And>bs. length bs = n \<Longrightarrow> f (g bs) = bs"
  shows "fixed_codec f (\<lambda>_. True) put get n"
proof unfold_locales
  fix bs x r
  show canon: "True \<and> bs = f x @ r" if "get bs = Inr (x, r)"
    using that by (auto simp: get and_then_Inr_iff read_exact_Inr_iff fg)
  then show "\<exists>p. bs = p @ r" if "get bs = Inr (x, r)"
    using that by blast
  show "\<exists>x r. get bs = Inr (x, r)" if "n \<le> length bs"
    using that by (simp add: get read_exact_def)
qed (simp_all add: put write_all_def get len gf)

interpretation u8c: fixed_codec "\<lambda>x. [x]" "\<lambda>_. True" write_u8 read_u8 1
  by (rule fixed_codec_read_exact [where g = "\<lambda>b. b ! 0"])
    (auto simp: write_u8_def read_u8_def length_Suc_conv)

interpretation u16c: fixed_codec "to_le 2" "\<lambda>_. True" u16le_write u16le_read 2
  by (rule fixed_codec_read_exact [where g = from_le])
    (auto simp: u16le_write_def u16le_read_def from_le_to_le to_le_from_le_length)

interpretation u32c: fixed_codec "to_le 4" "\<lambda>_. True" u32le_write u32le_read 4
  by (rule fixed_codec_read_exact [where g = from_le])
    (auto simp: u32le_write_def u32le_read_def from_le_to_le to_le_from_le_length)

interpretation u64c: fixed_codec "to_le 8" "\<lambda>_. True" u64le_write u64le_read 8
  by (rule fixed_codec_read_exact [where g = from_le])
    (auto simp: u64le_write_def u64le_read_def from_le_to_le to_le_from_le_length)

interpretation i32c: fixed_codec "to_le 4" "\<lambda>_. True" write_i32_le read_i32_le 4
  by (rule fixed_codec_read_exact [where g = from_le])
    (auto simp: write_i32_le_def read_i32_le_def from_le_to_le to_le_from_le_length)

lemmas write_primitives [simp, codec_simps] =
  u8c.write_ok [OF TrueI] u16c.write_ok [OF TrueI] u32c.write_ok [OF TrueI]
  u64c.write_ok [OF TrueI] i32c.write_ok [OF TrueI]

lemmas read_primitives [simp, codec_simps] =
  u8c.read_enc [OF TrueI, simplified] u16c.read_enc [OF TrueI] u32c.read_enc [OF TrueI]
  u64c.read_enc [OF TrueI] i32c.read_enc [OF TrueI]

lemmas read_iff_primitives =
  u8c.read_Inr_iff u16c.read_Inr_iff u32c.read_Inr_iff u64c.read_Inr_iff i32c.read_Inr_iff

section \<open>Length-prefixed byte arrays\<close>

definition enc_bytes_u8 :: "bytes \<Rightarrow> bytes" where
  "enc_bytes_u8 data = word_of_nat (length data) # data"

definition enc_bytes_u32 :: "bytes \<Rightarrow> bytes" where
  "enc_bytes_u32 data = to_le 4 (word_of_nat (length data) :: u32) @ data"

lemma length_enc_bytes [simp, len_simps]:
  "length (enc_bytes_u8 data) = 1 + length data"
  "length (enc_bytes_u32 data) = 4 + length data"
  by (simp_all add: enc_bytes_u8_def enc_bytes_u32_def)

lemma MAX_BYTES_eq: "MAX_BYTES = 16777216"
  by (simp add: MAX_BYTES_def)

lemma unat_ucast_up:
  "LENGTH('a) \<le> LENGTH('b) \<Longrightarrow> unat (ucast (w :: 'a::len word) :: 'b::len word) = unat w"
proof -
  assume le: "LENGTH('a) \<le> LENGTH('b)"
  have "unat w < 2 ^ LENGTH('a)" by (rule unsigned_less)
  also have "\<dots> \<le> 2 ^ LENGTH('b)" using le by simp
  finally show ?thesis by (simp add: unsigned_ucast_eq take_bit_nat_eq_self_iff)
qed

lemma unat_u64_of_u8 [simp]: "unat (ucast (b :: u8) :: u64) = unat b"
  by (simp add: unat_ucast_up)

lemma unat_u64_of_u32 [simp]: "unat (ucast (b :: u32) :: u64) = unat b"
  by (simp add: unat_ucast_up)

lemma read_bytes_u8_eq:
  "read_bytes_u8 bs = and_then (read_u8 bs) (\<lambda>(l, r). read_exact (unat l) r)"
proof -
  have "\<not> MAX_BYTES < unat l" for l :: u8
    using byte_bound [of l] unfolding MAX_BYTES_eq by linarith
  then show ?thesis
    by (auto simp: read_bytes_u8_def read_bytes_def intro!: and_then_cong)
qed

lemma write_bytes_u8_eq:
  "write_bytes_u8 w data =
     (if length data > MAX_BYTES
      then Inl (Io_Error InvalidInput
        (''data length '' @ show_nat (length data) @ '' exceeds maximum allowed '' @ show_nat MAX_BYTES))
      else if length data > 255
      then Inl (Io_Error InvalidInput ''length conversion failed: TryFromIntError(())'')
      else Inr (w @ enc_bytes_u8 data))"
  by (simp add: write_bytes_u8_def write_bytes_def try_from_usize_def write_all_def enc_bytes_u8_def)

lemma write_bytes_u32_eq:
  "write_bytes_u32 w data =
     (if length data > MAX_BYTES
      then Inl (Io_Error InvalidInput
        (''data length '' @ show_nat (length data) @ '' exceeds maximum allowed '' @ show_nat MAX_BYTES))
      else Inr (w @ enc_bytes_u32 data))"
  by (simp add: write_bytes_u32_def write_bytes_def try_from_usize_def write_all_def
      enc_bytes_u32_def MAX_BYTES_eq)

interpretation bytes8: canonical_codec enc_bytes_u8 "\<lambda>d. length d \<le> 255" write_bytes_u8 read_bytes_u8
proof unfold_locales
  fix bs d r
  show canon: "length d \<le> 255 \<and> bs = enc_bytes_u8 d @ r" if "read_bytes_u8 bs = Inr (d, r)"
    using that
    by (auto simp: read_bytes_u8_eq and_then_Inr_iff u8c.read_Inr_iff read_exact_Inr_iff enc_bytes_u8_def)
  then show "\<exists>p. bs = p @ r" if "read_bytes_u8 bs = Inr (d, r)"
    using that by blast
qed (auto simp: write_bytes_u8_eq read_bytes_u8_eq enc_bytes_u8_def unat_of_nat MAX_BYTES_eq)

interpretation bytes32:
  canonical_codec enc_bytes_u32 "\<lambda>d. length d \<le> MAX_BYTES" write_bytes_u32 read_bytes_u32
proof unfold_locales
  fix bs d r
  show canon: "length d \<le> MAX_BYTES \<and> bs = enc_bytes_u32 d @ r" if "read_bytes_u32 bs = Inr (d, r)"
    using that
    by (auto simp: read_bytes_u32_def read_bytes_def and_then_Inr_iff u32c.read_Inr_iff
        read_exact_Inr_iff enc_bytes_u32_def Let_def split: if_splits)
  then show "\<exists>p. bs = p @ r" if "read_bytes_u32 bs = Inr (d, r)"
    using that by blast
qed (auto simp: write_bytes_u32_eq read_bytes_u32_def read_bytes_def enc_bytes_u32_def unat_of_nat
    MAX_BYTES_eq)

lemmas bytes_codecs [codec_simps] =
  bytes8.write_ok bytes8.read_enc bytes32.write_ok bytes32.read_enc

end
