(* ===== verification/Segments.thy ===== *)
theory Segments
  imports Wire
begin

text \<open>
  Message segmentation and reassembly (src/src/protocol/message.rs). A message is sent as
  segments of at most \<open>MAX_MESSAGE_SIZE\<close> bytes; each carries the number of segments that
  follow it. \<open>split_into_segments\<close> cuts, \<open>add_segment\<close> reassembles. The buffer's capacity is
  not modelled (it has no effect on values). Arithmetic is \<open>u8\<close> under the build profile
  \<open>dbg\<close>: it panics on overflow in a debug build and wraps in a release build.

  The lemmas show that splitting equals its specification by \<open>chunks\<close>, never panics, and that
  the segments of a message reassemble to it; what \<open>add_segment\<close> does on every branch; the
  invariant of the accumulator for segment numbers below 255; and what the number 255 does.
  The locale \<open>framing\<close> is the contract between a sender that cuts and a receiver that
  assembles; its lemma on sequences of messages is used here and by the session.
\<close>

section \<open>Data\<close>

record message_segment =
  remaining_segments :: u8
  seg_data :: bytes

record message =
  expected_segments :: u8
  msg_data :: bytes

definition segment_new :: "u8 \<Rightarrow> bytes \<Rightarrow> message_segment" where
  "segment_new remaining data = \<lparr>remaining_segments = remaining, seg_data = data\<rparr>"

definition message_new :: message where
  "message_new = \<lparr>expected_segments = 0, msg_data = []\<rparr>"

section \<open>Encoding of a segment\<close>

definition segment_encode :: "message_segment \<Rightarrow> bytes" where
  "segment_encode s = remaining_segments s # seg_data s"

definition segment_decode :: "bytes \<Rightarrow> message_segment res" where
  "segment_decode data =
     (if length data < 2
      then Inl (MessageParse (''Message too short, expected at least 2 bytes, got '' @
        show_nat (length data)))
      else Inr \<lparr>remaining_segments = data ! 0, seg_data = drop 1 data\<rparr>)"

lemma segment_decode_Inr_iff:
  "segment_decode bs = Inr s \<longleftrightarrow> seg_data s \<noteq> [] \<and> bs = segment_encode s"
proof (cases bs)
  case Nil
  then show ?thesis by (simp add: segment_decode_def segment_encode_def)
next
  case (Cons b r)
  then show ?thesis
    by (cases s; cases r) (auto simp: segment_decode_def segment_encode_def)
qed

lemma segment_decode_encode [codec_simps]:
  "seg_data s \<noteq> [] \<Longrightarrow> segment_decode (segment_encode s) = Inr s"
  by (simp add: segment_decode_Inr_iff)

section \<open>Reassembly\<close>

definition sequence_error :: "u8 \<Rightarrow> u8 \<Rightarrow> nethernet_error" where
  "sequence_error expected got =
     MessageParse (''Invalid segment sequence: expected '' @ show_nat (unat expected) @
       '', got '' @ show_nat (unat got))"

text \<open>The first segment of a message announces how many there are.\<close>

definition start_message :: "bool \<Rightarrow> message \<Rightarrow> message_segment \<Rightarrow> message run" where
  "start_message dbg m s =
     (if expected_segments m = 0 \<and> remaining_segments s > 0
      then run_bind (u8_add dbg (remaining_segments s) 1) (\<lambda>n. Ran (m\<lparr>expected_segments := n\<rparr>))
      else Ran m)"

text \<open>The check of the order, with the reset on a mismatch.\<close>

definition check_sequence ::
    "bool \<Rightarrow> message \<Rightarrow> message_segment \<Rightarrow> (nethernet_error \<times> message + message) run" where
  "check_sequence dbg m s =
     (if expected_segments m > 0 then
        run_bind (u8_sub dbg (expected_segments m) 1) (\<lambda>expected_remaining.
          if expected_remaining \<noteq> remaining_segments s
          then Ran (Inl (sequence_error expected_remaining (remaining_segments s),
                 m\<lparr>msg_data := [], expected_segments := 0\<rparr>))
          else run_bind (u8_sub dbg (expected_segments m) 1)
                 (\<lambda>n. Ran (Inr (m\<lparr>expected_segments := n\<rparr>))))
      else Ran (Inr m))"

definition finish_segment :: "message \<Rightarrow> message_segment \<Rightarrow> bytes option res \<times> message" where
  "finish_segment m s =
     (let m = m\<lparr>msg_data := msg_data m @ seg_data s\<rparr> in
      if remaining_segments s = 0
      then (Inr (Some (msg_data m)), m\<lparr>msg_data := [], expected_segments := 0\<rparr>)
      else (Inr None, m))"

definition add_segment ::
    "bool \<Rightarrow> message \<Rightarrow> message_segment \<Rightarrow> (bytes option res \<times> message) run" where
  "add_segment dbg m s =
     run_bind (start_message dbg m s) (\<lambda>m.
     run_bind (check_sequence dbg m s) (\<lambda>c.
       case c of
         Inl (e, m) \<Rightarrow> Ran (Inl e, m)
       | Inr m \<Rightarrow> Ran (finish_segment m s)))"

section \<open>Splitting\<close>

lemma MAX_MESSAGE_SIZE_pos [simp]: "0 < MAX_MESSAGE_SIZE" "MAX_MESSAGE_SIZE \<noteq> 0"
  by (simp_all add: MAX_MESSAGE_SIZE_def)

function split_loop ::
    "bool \<Rightarrow> bytes \<Rightarrow> u8 \<Rightarrow> message_segment list \<Rightarrow> (bytes \<times> u8 \<times> message_segment list) run" where
  "split_loop dbg remaining left segments =
     (if length remaining > MAX_MESSAGE_SIZE then
        run_bind (u8_sub dbg left 1) (\<lambda>left.
          split_loop dbg (drop MAX_MESSAGE_SIZE remaining) left
            (segments @ [segment_new left (take MAX_MESSAGE_SIZE remaining)]))
      else Ran (remaining, left, segments))"
  by pat_completeness auto
termination
  by (relation "measure (\<lambda>(dbg, remaining, left, segments). length remaining)")
    (auto simp: MAX_MESSAGE_SIZE_def)

declare split_loop.simps [simp del]

definition split_into_segments :: "bool \<Rightarrow> bytes \<Rightarrow> message_segment list res run" where
  "split_into_segments dbg data =
     (let len = length data in
      if len \<le> MAX_MESSAGE_SIZE then Ran (Inr [segment_new 0 data])
      else
        let segment_count = div_ceil len MAX_MESSAGE_SIZE in
        if segment_count > 255 then Ran (Inl (MessageTooLarge len))
        else
          run_bind (split_loop dbg data (word_of_nat segment_count) []) (\<lambda>(remaining, left, segments).
          run_bind
            (if remaining \<noteq> []
             then run_bind (u8_sub dbg left 1)
                    (\<lambda>left. Ran (left, segments @ [segment_new left remaining]))
             else Ran (left, segments))
            (\<lambda>(left, segments).
          run_bind (debug_assert dbg (left = 0)) (\<lambda>_. Ran (Inr segments)))))"

text \<open>
  The specification: the chunks of the data, numbered downwards to 0; the empty message is one
  empty segment.
\<close>

fun number_down :: "bytes list \<Rightarrow> message_segment list" where
  "number_down [] = []"
| "number_down (c # cs) = segment_new (word_of_nat (length cs)) c # number_down cs"

definition spec_segments :: "bytes \<Rightarrow> message_segment list" where
  "spec_segments data = number_down (if data = [] then [[]] else chunks MAX_MESSAGE_SIZE data)"

definition MAX_SEGMENTED :: nat where
  "MAX_SEGMENTED = 255 * MAX_MESSAGE_SIZE"

lemma u8_sub_1: "0 < n \<Longrightarrow> n < 256 \<Longrightarrow> u8_sub dbg (word_of_nat n) 1 = Ran (word_of_nat (n - 1))"
proof -
  assume n: "0 < n" "n < 256"
  then have "\<not> (word_of_nat n :: u8) < 1"
    by (auto simp: word_less_nat_alt unat_of_nat)
  moreover have "(word_of_nat n :: u8) - 1 = word_of_nat (n - 1)"
    using n by (simp add: of_nat_diff)
  ultimately show ?thesis by (simp add: u8_sub_def)
qed

lemma split_loop_eq:
  assumes "remaining \<noteq> []" and "div_ceil (length remaining) MAX_MESSAGE_SIZE = n" and "n < 256"
  shows "\<exists>r segs. split_loop dbg remaining (word_of_nat n) acc = Ran (r, 1, segs) \<and> r \<noteq> [] \<and>
    segs @ [segment_new 0 r] = acc @ number_down (chunks MAX_MESSAGE_SIZE remaining)"
  using assms
proof (induction "length remaining" arbitrary: remaining n acc rule: less_induct)
  case less
  show ?case
  proof (cases "MAX_MESSAGE_SIZE < length remaining")
    case False
    with less.prems have "n = 1" by (auto simp: div_ceil_le)
    with False less.prems(1) show ?thesis
      by (simp add: split_loop.simps chunks_short)
  next
    case True
    let ?rest = "drop MAX_MESSAGE_SIZE remaining"
    from True less.prems have n: "n = Suc (div_ceil (length ?rest) MAX_MESSAGE_SIZE)"
      by (auto simp: div_ceil_minus)
    have sub: "u8_sub dbg (word_of_nat n) 1 = Ran (word_of_nat (n - 1))"
      using n less.prems by (intro u8_sub_1) auto
    have "length ?rest < length remaining" "?rest \<noteq> []"
      using True less.prems by auto
    with less.hyps [of ?rest "n - 1" "acc @ [segment_new (word_of_nat (n - 1)) (take MAX_MESSAGE_SIZE remaining)]"]
    show ?thesis
      using n True less.prems(3) sub
      by (simp add: split_loop.simps [of dbg remaining] chunks_long length_chunks)
  qed
qed

lemma MAX_SEGMENTED_eq: "MAX_SEGMENTED = 2550000"
  by (simp add: MAX_SEGMENTED_def MAX_MESSAGE_SIZE_def)

text \<open>Splitting meets its specification on every input and in both builds.\<close>

lemma split_into_segments_eq:
  "split_into_segments dbg data =
     Ran (if length data \<le> MAX_SEGMENTED then Inr (spec_segments data)
          else Inl (MessageTooLarge (length data)))"
proof (cases "length data \<le> MAX_MESSAGE_SIZE")
  case True
  then show ?thesis
    by (auto simp: split_into_segments_def spec_segments_def chunks_short MAX_SEGMENTED_def)
next
  case False
  let ?n = "div_ceil (length data) MAX_MESSAGE_SIZE"
  from False have ne: "data \<noteq> []" by auto
  have le: "?n \<le> 255 \<longleftrightarrow> length data \<le> MAX_SEGMENTED"
    by (simp add: div_ceil_le_iff MAX_SEGMENTED_def)
  show ?thesis
  proof (cases "?n \<le> 255")
    case False
    with \<open>\<not> length data \<le> MAX_MESSAGE_SIZE\<close> le show ?thesis
      by (simp add: split_into_segments_def)
  next
    case True
    with split_loop_eq [OF ne refl, of dbg "[]"] obtain r segs where
      "split_loop dbg data (word_of_nat ?n) [] = Ran (r, 1, segs)" "r \<noteq> []"
      "segs @ [segment_new 0 r] = number_down (chunks MAX_MESSAGE_SIZE data)"
      by auto
    with True False le ne show ?thesis
      by (simp add: split_into_segments_def spec_segments_def u8_sub_def)
  qed
qed

lemma length_number_down [simp]: "length (number_down cs) = length cs"
  by (induction cs) auto

lemma concat_number_down: "concat (map seg_data (number_down cs)) = concat cs"
  by (induction cs) (auto simp: segment_new_def)

lemma number_down_data: "s \<in> set (number_down cs) \<Longrightarrow> seg_data s \<in> set cs"
  by (induction cs) (auto simp: segment_new_def)

lemma spec_segments_concat: "concat (map seg_data (spec_segments data)) = data"
  by (simp add: spec_segments_def concat_number_down)

lemma spec_segments_data:
  "s \<in> set (spec_segments data) \<Longrightarrow>
    length (seg_data s) \<le> MAX_MESSAGE_SIZE \<and> (data \<noteq> [] \<longrightarrow> seg_data s \<noteq> [])"
  by (auto simp: spec_segments_def segment_new_def dest!: number_down_data dest: length_chunks_le split: if_splits)

lemma length_spec_segments:
  "length (spec_segments data) = max 1 (div_ceil (length data) MAX_MESSAGE_SIZE)"
proof (cases "data = []")
  case True
  then show ?thesis by (simp add: spec_segments_def div_ceil_def)
next
  case False
  then have "0 < div_ceil (length data) MAX_MESSAGE_SIZE"
    using div_ceil_0_iff [of MAX_MESSAGE_SIZE "length data"] by auto
  with False show ?thesis by (simp add: spec_segments_def length_chunks)
qed

section \<open>What add_segment does\<close>

definition accept_segment :: "message \<Rightarrow> message_segment \<Rightarrow> bytes option res \<times> message" where
  "accept_segment m s =
     (if remaining_segments s = 0 then (Inr (Some (msg_data m @ seg_data s)), message_new)
      else (Inr None,
        \<lparr>expected_segments = remaining_segments s, msg_data = msg_data m @ seg_data s\<rparr>))"

lemma u8_ne_0_iff: "(0 :: u8) < e \<longleftrightarrow> e \<noteq> 0"
  by (simp add: word_gt_0)

lemma u8_plus_1_eq_0_iff: "(r :: u8) + 1 = 0 \<longleftrightarrow> r = 255"
proof
  assume "r + 1 = 0"
  then have "r = - 1" by (simp add: eq_neg_iff_add_eq_0)
  then show "r = 255" by simp
qed simp

lemma u8_add_1: "u8_add dbg r 1 = (if dbg \<and> r = 255 then Panic else Ran (r + 1))"
proof -
  have "r = 255 \<longleftrightarrow> unat r = 255" by (simp add: word_unat_eq_iff)
  moreover have "unat r + 1 \<ge> 256 \<longleftrightarrow> unat r = 255"
    using byte_bound [of r] by linarith
  ultimately show ?thesis by (simp add: u8_add_def)
qed

lemma u8_sub_pos: "e \<noteq> 0 \<Longrightarrow> u8_sub dbg e 1 = Ran (e - 1)"
proof -
  assume "e \<noteq> 0"
  then have "unat e \<noteq> 0" by (simp add: unat_eq_0)
  then have "\<not> e < 1" by (simp add: word_less_nat_alt)
  then show ?thesis by (simp add: u8_sub_def)
qed

text \<open>Every branch of \<open>add_segment\<close> in one equation.\<close>

lemma add_segment_eq:
  "add_segment dbg m s =
     (if expected_segments m = 0 then
        if remaining_segments s = 255 then
          if dbg then Panic
          else Ran (Inr None, \<lparr>expected_segments = 0, msg_data = msg_data m @ seg_data s\<rparr>)
        else Ran (accept_segment m s)
      else if remaining_segments s = expected_segments m - 1 then Ran (accept_segment m s)
      else Ran (Inl (sequence_error (expected_segments m - 1) (remaining_segments s)), message_new))"
proof (cases "expected_segments m = 0")
  case True
  then show ?thesis
    by (cases m)
      (auto simp: add_segment_def start_message_def check_sequence_def finish_segment_def
        accept_segment_def message_new_def u8_add_1 u8_sub_pos u8_ne_0_iff u8_plus_1_eq_0_iff)
next
  case False
  then show ?thesis
    by (cases m)
      (auto simp: add_segment_def start_message_def check_sequence_def finish_segment_def
        accept_segment_def message_new_def u8_sub_pos u8_ne_0_iff)
qed

text \<open>
  The accumulator's invariant: it is empty between messages. Segments numbered below 255 keep
  it, and never panic.
\<close>

definition message_inv :: "message \<Rightarrow> bool" where
  "message_inv m \<longleftrightarrow> (expected_segments m = 0 \<longrightarrow> msg_data m = [])"

lemma message_inv_new [simp]: "message_inv message_new"
  by (simp add: message_inv_def message_new_def)

lemma add_segment_inv:
  assumes "message_inv m" and "remaining_segments s \<noteq> 255"
  obtains r m' where "add_segment dbg m s = Ran (r, m')" and "message_inv m'"
proof -
  have "\<exists>r m'. add_segment dbg m s = Ran (r, m') \<and> message_inv m'"
    using assms by (simp add: add_segment_eq accept_segment_def message_inv_def message_new_def)
  then show ?thesis using that by blast
qed

section \<open>The contract between the sender and the receiver\<close>

text \<open>Running a receiver over a list of frames, collecting what it delivers.\<close>

primrec run_steps :: "('s \<Rightarrow> 'f \<Rightarrow> 'd list \<times> 's) \<Rightarrow> 's \<Rightarrow> 'f list \<Rightarrow> 'd list \<times> 's" where
  "run_steps step s [] = ([], s)"
| "run_steps step s (f # fs) =
     (let (out, s1) = step s f; (outs, s2) = run_steps step s1 fs in (out @ outs, s2))"

lemma run_steps_append:
  "run_steps step s (fs @ gs) =
     (let (out, s1) = run_steps step s fs; (outs, s2) = run_steps step s1 gs in (out @ outs, s2))"
  by (induction fs arbitrary: s) (auto simp: Let_def split: prod.split)

locale framing =
  fixes cut :: "'d \<Rightarrow> 'f list option"
    and step :: "'s \<Rightarrow> 'f \<Rightarrow> 'd list \<times> 's"
    and idle :: "'s \<Rightarrow> bool"
  assumes deliver_one: "cut d = Some fs \<Longrightarrow> idle s \<Longrightarrow> \<exists>s'. run_steps step s fs = ([d], s') \<and> idle s'"
begin

lemma deliver_all:
  assumes "list_all2 (\<lambda>d fs. cut d = Some fs) ds fss" and "idle s"
  shows "\<exists>s'. run_steps step s (concat fss) = (ds, s') \<and> idle s'"
  using assms
proof (induction ds fss arbitrary: s rule: list_all2_induct)
  case Nil
  then show ?case by simp
next
  case (Cons d ds fs fss)
  from deliver_one [OF Cons.hyps(1) Cons.prems] obtain s1 where
    "run_steps step s fs = ([d], s1)" and "idle s1" by blast
  moreover from Cons.IH [OF \<open>idle s1\<close>] obtain s2 where
    "run_steps step s1 (concat fss) = (ds, s2)" and "idle s2" by blast
  ultimately show ?case by (simp add: run_steps_append)
qed

text \<open>What was cut from different messages is different.\<close>

lemma cut_inj:
  assumes "cut d = Some fs" and "cut d' = Some fs" and "idle s" shows "d = d'"
  using deliver_one [OF assms(1,3)] deliver_one [OF assms(2,3)] by auto

end

text \<open>
  Reassembly as a receiver: the state is the accumulator, or the panic that ended it. A
  segment that completes a message delivers it.
\<close>

fun assemble_step :: "bool \<Rightarrow> message run \<Rightarrow> message_segment \<Rightarrow> bytes list \<times> message run" where
  "assemble_step dbg Panic s = ([], Panic)"
| "assemble_step dbg (Ran m) s =
     (case add_segment dbg m s of
        Panic \<Rightarrow> ([], Panic)
      | Ran (Inr (Some d), m') \<Rightarrow> ([d], Ran m')
      | Ran (_, m') \<Rightarrow> ([], Ran m'))"

definition cut_segments :: "bool \<Rightarrow> bytes \<Rightarrow> message_segment list option" where
  "cut_segments dbg d =
     (case split_into_segments dbg d of Ran (Inr segs) \<Rightarrow> Some segs | _ \<Rightarrow> None)"

lemma cut_segments_eq:
  "cut_segments dbg d = (if length d \<le> MAX_SEGMENTED then Some (spec_segments d) else None)"
  by (simp add: cut_segments_def split_into_segments_eq)

lemma assemble_number_down:
  assumes "cs \<noteq> []" and "length cs \<le> 255"
    and "expected_segments m = 0 \<or> expected_segments m = word_of_nat (length cs)"
  shows "run_steps (assemble_step dbg) (Ran m) (number_down cs) =
    ([msg_data m @ concat cs], Ran message_new)"
  using assms
proof (induction cs arbitrary: m)
  case Nil
  then show ?case by simp
next
  case (Cons c cs)
  have small: "unat (word_of_nat k :: u8) = k" if "k \<le> 255" for k
    using that by (simp add: unat_of_nat)
  have ne: "(word_of_nat (length cs) :: u8) \<noteq> 255"
    using small [of "length cs"] Cons.prems(2) by auto
  show ?case
  proof (cases "cs = []")
    case True
    with Cons.prems show ?thesis
      by (auto simp: add_segment_eq accept_segment_def segment_new_def)
  next
    case False
    with small [of "length cs"] Cons.prems(2) have "(word_of_nat (length cs) :: u8) \<noteq> 0"
      by auto
    let ?m = "\<lparr>expected_segments = word_of_nat (length cs), msg_data = msg_data m @ c\<rparr>"
    have "expected_segments m = 0 \<or>
        (expected_segments m \<noteq> 0 \<and> word_of_nat (length cs) = expected_segments m - 1)"
      using Cons.prems(3) by auto
    then have "add_segment dbg m (segment_new (word_of_nat (length cs)) c) = Ran (Inr None, ?m)"
      using ne \<open>(word_of_nat (length cs) :: u8) \<noteq> 0\<close>
      by (auto simp: add_segment_eq accept_segment_def segment_new_def)
    moreover have "run_steps (assemble_step dbg) (Ran ?m) (number_down cs) =
        ([msg_data m @ c @ concat cs], Ran message_new)"
      using Cons.IH [of ?m] False Cons.prems(2) by simp
    ultimately show ?thesis by simp
  qed
qed

lemma length_spec_chunks:
  "length d \<le> MAX_SEGMENTED \<Longrightarrow> length (chunks MAX_MESSAGE_SIZE d) \<le> 255"
  by (simp add: length_chunks div_ceil_le_iff MAX_SEGMENTED_def)

lemma assemble_spec_segments:
  assumes "length d \<le> MAX_SEGMENTED"
  shows "run_steps (assemble_step dbg) (Ran message_new) (spec_segments d) = ([d], Ran message_new)"
proof -
  let ?cs = "if d = [] then [[]] else chunks MAX_MESSAGE_SIZE d"
  have "?cs \<noteq> []" by (simp add: chunks.simps [of _ d])
  moreover have "length ?cs \<le> 255" using length_spec_chunks [OF assms] by simp
  ultimately show ?thesis
    using assemble_number_down [of ?cs message_new dbg]
    by (simp add: spec_segments_def message_new_def)
qed

interpretation segs: framing "cut_segments dbg" "assemble_step dbg" "\<lambda>s. s = Ran message_new"
  by unfold_locales (auto simp: cut_segments_eq assemble_spec_segments split: if_splits)

section \<open>Soundness of reassembly\<close>

text \<open>A list of segments whose numbers count down by one.\<close>

fun counts_down :: "message_segment list \<Rightarrow> bool" where
  "counts_down [] \<longleftrightarrow> True"
| "counts_down [s] \<longleftrightarrow> True"
| "counts_down (s # t # ss) \<longleftrightarrow>
     remaining_segments t + 1 = remaining_segments s \<and> remaining_segments s \<noteq> 0 \<and>
     counts_down (t # ss)"

lemma counts_down_snoc:
  "counts_down (ss @ [s, t]) \<longleftrightarrow>
     counts_down (ss @ [s]) \<and> remaining_segments t + 1 = remaining_segments s \<and> remaining_segments s \<noteq> 0"
  by (induction ss rule: counts_down.induct) auto

text \<open>
  What the accumulator holds after the segments \<open>ss\<close>: nothing, or the data of a run of
  segments at their end that counts down to the number it expects next.
\<close>

definition holds_run :: "message_segment list \<Rightarrow> message \<Rightarrow> bool" where
  "holds_run ss m \<longleftrightarrow>
     m = message_new \<or>
     (\<exists>pre run s. ss = pre @ run @ [s] \<and> counts_down (run @ [s]) \<and> expected_segments m \<noteq> 0 \<and>
        remaining_segments s = expected_segments m \<and>
        msg_data m = concat (map seg_data (run @ [s])))"

definition complete_run :: "message_segment list \<Rightarrow> bytes \<Rightarrow> bool" where
  "complete_run ss d \<longleftrightarrow>
     (\<exists>pre run s. ss = pre @ run @ [s] \<and> counts_down (run @ [s]) \<and> remaining_segments s = 0 \<and>
        d = concat (map seg_data (run @ [s])))"

lemma accept_segment_run:
  assumes "holds_run ss m"
    and "m = message_new \<or> remaining_segments s = expected_segments m - 1"
    and "accept_segment m s = (r, m')"
  shows "holds_run (ss @ [s]) m' \<and> (r = Inr None \<or> (\<exists>d. r = Inr (Some d) \<and> complete_run (ss @ [s]) d))"
proof -
  have "\<exists>pre run. ss @ [s] = pre @ run @ [s] \<and> counts_down (run @ [s]) \<and>
      msg_data m @ seg_data s = concat (map seg_data (run @ [s]))"
  proof (cases "m = message_new")
    case True
    then show ?thesis by (intro exI [of _ ss] exI [of _ "[]"]) (simp add: message_new_def)
  next
    case False
    with assms(1) obtain pre run t where *: "ss = pre @ run @ [t]" "counts_down (run @ [t])"
      "expected_segments m \<noteq> 0" "remaining_segments t = expected_segments m"
      "msg_data m = concat (map seg_data (run @ [t]))"
      by (auto simp: holds_run_def)
    with False assms(2) have "counts_down (run @ [t, s])"
      by (simp add: counts_down_snoc)
    with * show ?thesis by (intro exI [of _ pre] exI [of _ "run @ [t]"]) simp
  qed
  then obtain pre run where run: "ss @ [s] = pre @ run @ [s]" "counts_down (run @ [s])"
    "msg_data m @ seg_data s = concat (map seg_data (run @ [s]))"
    by blast
  show ?thesis
  proof (cases "remaining_segments s = 0")
    case True
    with assms(3) have "r = Inr (Some (msg_data m @ seg_data s))" "m' = message_new"
      by (auto simp: accept_segment_def)
    moreover have "complete_run (ss @ [s]) (msg_data m @ seg_data s)"
      unfolding complete_run_def using run True by blast
    ultimately show ?thesis by (simp add: holds_run_def)
  next
    case False
    with assms(3) have "r = Inr None"
      "m' = \<lparr>expected_segments = remaining_segments s, msg_data = msg_data m @ seg_data s\<rparr>"
      by (auto simp: accept_segment_def)
    moreover have "holds_run (ss @ [s]) m'"
      unfolding holds_run_def calculation(2) using run False
      by (intro disjI2 exI [of _ pre] exI [of _ run] exI [of _ s]) simp
    ultimately show ?thesis by simp
  qed
qed

lemma add_segment_run:
  assumes "holds_run ss m" and "remaining_segments s \<noteq> 255"
    and "add_segment dbg m s = Ran (r, m')"
  shows "holds_run (ss @ [s]) m' \<and> (\<forall>d. r = Inr (Some d) \<longrightarrow> complete_run (ss @ [s]) d)"
proof -
  have new: "expected_segments m = 0 \<longleftrightarrow> m = message_new"
    using assms(1) by (auto simp: holds_run_def message_new_def)
  show ?thesis
  proof (cases "expected_segments m = 0 \<or> remaining_segments s = expected_segments m - 1")
    case True
    with assms(2,3) have "accept_segment m s = (r, m')"
      by (auto simp: add_segment_eq split: if_splits)
    with accept_segment_run [OF assms(1)] True new show ?thesis by blast
  next
    case False
    with assms(3) show ?thesis by (auto simp: add_segment_eq holds_run_def)
  qed
qed

lemma assemble_delivers_runs:
  assumes "holds_run pre m" and "\<forall>s \<in> set ss. remaining_segments s \<noteq> 255"
    and "run_steps (assemble_step dbg) (Ran m) ss = (out, m')" and "d \<in> set out"
  shows "\<exists>mid. (\<exists>post. ss = mid @ post) \<and> complete_run (pre @ mid) d"
  using assms
proof (induction ss arbitrary: pre m out)
  case Nil
  then show ?case by simp
next
  case (Cons s ss)
  obtain r m1 where add: "add_segment dbg m s = Ran (r, m1)"
    using Cons.prems(2) by (cases "add_segment dbg m s") (auto simp: add_segment_eq split: if_splits)
  have run: "holds_run (pre @ [s]) m1" "\<forall>d. r = Inr (Some d) \<longrightarrow> complete_run (pre @ [s]) d"
    using add_segment_run [OF Cons.prems(1) _ add] Cons.prems(2) by auto
  obtain out1 where out1: "assemble_step dbg (Ran m) s = (out1, Ran m1)"
    "set out1 = {d. r = Inr (Some d)}"
  proof (cases "\<exists>d. r = Inr (Some d)")
    case True
    with add that show ?thesis by auto
  next
    case False
    with add have "assemble_step dbg (Ran m) s = ([], Ran m1)"
      by (auto split: sum.split option.split)
    with False that show ?thesis by auto
  qed
  obtain out2 where out2: "run_steps (assemble_step dbg) (Ran m1) ss = (out2, m')"
    and "out = out1 @ out2"
    using Cons.prems(3) out1(1) by (auto split: prod.splits)
  with Cons.prems(4) consider "d \<in> set out1" | "d \<in> set out2" by auto
  then show ?case
  proof cases
    case 1
    with run(2) out1(2) have "complete_run (pre @ [s]) d" by auto
    then show ?thesis by (intro exI [of _ "[s]"]) simp
  next
    case 2
    with Cons.IH [OF run(1) _ out2] Cons.prems(2) obtain mid post where
      "ss = mid @ post" "complete_run ((pre @ [s]) @ mid) d" by auto
    then show ?thesis by (intro exI [of _ "s # mid"]) simp
  qed
qed

section \<open>Properties\<close>

text \<open>C5: Splitting never panics, in a debug or a release build. Up to 255 * 10000 bytes it
  returns segments whose data joined is the message, numbered downwards to 0, none longer than
  \<open>MAX_MESSAGE_SIZE\<close>, one for each started block of that size; beyond, it is refused with
  \<open>MessageTooLarge\<close> and the length.\<close>

theorem split_into_segments_correct:
  "case split_into_segments dbg data of
     Panic \<Rightarrow> False
   | Ran (Inl e) \<Rightarrow> e = MessageTooLarge (length data) \<and> 2550000 < length data
   | Ran (Inr segs) \<Rightarrow>
       length data \<le> 2550000 \<and>
       concat (map seg_data segs) = data \<and>
       map (unat \<circ> remaining_segments) segs = rev [0..<length segs] \<and>
       length segs = max 1 (div_ceil (length data) MAX_MESSAGE_SIZE) \<and>
       list_all (\<lambda>s. length (seg_data s) \<le> MAX_MESSAGE_SIZE) segs"
proof (cases "length data \<le> MAX_SEGMENTED")
  case True
  have "map (unat \<circ> remaining_segments) (number_down cs) = rev [0..<length cs]"
    if "length cs \<le> 255" for cs
    using that by (induction cs) (auto simp: segment_new_def unat_of_nat)
  moreover have "length (if data = [] then [[]] else chunks MAX_MESSAGE_SIZE data) \<le> 255"
    using length_spec_chunks [OF True] by simp
  ultimately have "map (unat \<circ> remaining_segments) (spec_segments data) =
      rev [0..<length (spec_segments data)]"
    by (simp add: spec_segments_def)
  with True show ?thesis
    by (simp add: split_into_segments_eq spec_segments_concat length_spec_segments list_all_iff
        spec_segments_data MAX_SEGMENTED_eq)
qed (simp add: split_into_segments_eq MAX_SEGMENTED_eq)

text \<open>C4: Whatever messages a sender splits one after the other, a fresh receiver that is fed
  all the segments in order delivers exactly these messages in this order and ends empty,
  whatever the build profiles of the two sides.\<close>

theorem messages_reassemble:
  assumes "list_all2 (\<lambda>d segs. split_into_segments dbg d = Ran (Inr segs)) ds segss"
  shows "run_steps (assemble_step dbg') (Ran message_new) (concat segss) = (ds, Ran message_new)"
proof -
  have "list_all2 (\<lambda>d segs. cut_segments dbg' d = Some segs) ds segss"
    using assms by (rule list_all2_mono) (auto simp: cut_segments_eq split_into_segments_eq split: if_splits)
  then show ?thesis using segs.deliver_all [where s = "Ran message_new"] by auto
qed

theorem messages_reassemble_witness:
  "run_steps (assemble_step False) (Ran message_new)
     (concat [[segment_new 0 [1, 2, 3]], [segment_new 0 []], [segment_new 0 [4]]]) =
   ([[1, 2, 3], [], [4]], Ran message_new)"
proof (rule messages_reassemble [of True])
  show "list_all2 (\<lambda>d segs. split_into_segments True d = Ran (Inr segs)) [[1, 2, 3], [], [4]]
      [[segment_new 0 [1, 2, 3]], [segment_new 0 []], [segment_new 0 [4]]]"
    by (simp add: split_into_segments_def MAX_MESSAGE_SIZE_def)
qed

text \<open>C10: A receiver never invents or mixes data: whatever segments arrive (none numbered 255),
  every message it delivers is the joined data of a run of consecutively received segments
  whose numbers count down by one to 0.\<close>

theorem reassembly_sound:
  assumes "\<forall>s \<in> set ss. remaining_segments s \<noteq> 255"
    and "run_steps (assemble_step dbg) (Ran message_new) ss = (out, m')" and "d \<in> set out"
  shows "\<exists>pre run s post. ss = pre @ run @ [s] @ post \<and> counts_down (run @ [s]) \<and>
    remaining_segments s = 0 \<and> d = concat (map seg_data (run @ [s]))"
proof -
  have "holds_run [] message_new" by (simp add: holds_run_def)
  from assemble_delivers_runs [OF this assms] obtain mid post where
    mid: "ss = mid @ post" and "complete_run mid d" by auto
  then obtain pre run s where "mid = pre @ run @ [s]" "counts_down (run @ [s])"
    "remaining_segments s = 0" "d = concat (map seg_data (run @ [s]))"
    unfolding complete_run_def by blast
  with mid show ?thesis
    by (intro exI [of _ pre] exI [of _ run] exI [of _ s] exI [of _ post]) simp
qed

theorem reassembly_sound_witness:
  "\<exists>pre run s post.
     [segment_new 5 [9], segment_new 1 [1], segment_new 1 [2], segment_new 0 [3]] = pre @ run @ [s] @ post \<and>
     counts_down (run @ [s]) \<and> remaining_segments s = 0 \<and> [2, 3] = concat (map seg_data (run @ [s]))"
  by (rule reassembly_sound [where dbg = True and out = "[[2, 3]]" and m' = "Ran message_new"])
    (simp_all add: add_segment_eq accept_segment_def message_new_def segment_new_def)

text \<open>What \<open>add_segment\<close> does on every branch: an empty accumulator accepts any number
  below 255 as the start of a message; a message in progress accepts only the next lower
  number, and any other number is refused with the error and the accumulator emptied; number 0
  completes the message and empties the accumulator.\<close>

theorem add_segment_branches:
  "add_segment dbg m s =
     (let accept =
        (if remaining_segments s = 0 then (Inr (Some (msg_data m @ seg_data s)), message_new)
         else (Inr None,
           \<lparr>expected_segments = remaining_segments s, msg_data = msg_data m @ seg_data s\<rparr>))
      in
      if expected_segments m = 0 \<and> remaining_segments s = 255 then
        (if dbg then Panic
         else Ran (Inr None, \<lparr>expected_segments = 0, msg_data = msg_data m @ seg_data s\<rparr>))
      else if expected_segments m = 0 \<or> remaining_segments s = expected_segments m - 1 then Ran accept
      else Ran (Inl (sequence_error (expected_segments m - 1) (remaining_segments s)), message_new))"
  by (auto simp: add_segment_eq accept_segment_def Let_def)

text \<open>C31: The segment number 255 defeats the accumulator: \<open>remaining_segments + 1\<close> overflows.
  A debug build panics on the first such segment; a release build wraps to 0, skips the order
  check and keeps appending, so \<open>n\<close> of them are buffered without a bound and without an error.\<close>

theorem segment_255_unchecked:
  "add_segment True message_new (segment_new 255 d) = Panic \<and>
   run_steps (assemble_step False) (Ran message_new) (replicate n (segment_new 255 d)) =
     ([], Ran \<lparr>expected_segments = 0, msg_data = concat (replicate n d)\<rparr>)"
proof -
  have "run_steps (assemble_step False) (Ran \<lparr>expected_segments = 0, msg_data = a\<rparr>)
      (replicate n (segment_new 255 d)) =
    ([], Ran \<lparr>expected_segments = 0, msg_data = a @ concat (replicate n d)\<rparr>)" for a
    by (induction n arbitrary: a) (simp_all add: add_segment_eq segment_new_def)
  then show ?thesis
    by (simp add: message_new_def add_segment_eq segment_new_def)
qed

text \<open>C32: Decoding inverts encoding exactly on segments with data: the decoder accepts the
  encodings of the segments whose data is not empty and nothing else, so the one segment of an
  empty message is sent but never accepted.\<close>

theorem segment_codec_exact:
  "(segment_decode bs = Inr s \<longleftrightarrow> seg_data s \<noteq> [] \<and> bs = segment_encode s) \<and>
   split_into_segments dbg [] = Ran (Inr [segment_new 0 []]) \<and>
   \<not> is_ok (segment_decode (segment_encode (segment_new 0 [])))"
proof (intro conjI)
  show "segment_decode bs = Inr s \<longleftrightarrow> seg_data s \<noteq> [] \<and> bs = segment_encode s"
    by (rule segment_decode_Inr_iff)
  show "split_into_segments dbg [] = Ran (Inr [segment_new 0 []])"
    by (simp add: split_into_segments_def)
  show "\<not> is_ok (segment_decode (segment_encode (segment_new 0 [])))"
    by (simp add: segment_decode_def segment_encode_def segment_new_def)
qed

end
