(* ===== verification/Signals.thy ===== *)
theory Signals
  imports Errors
begin

text \<open>
  Signals (src/src/protocol/signal.rs): the signal types with their wire names, the signal
  record with its constructors, \<open>Display\<close> and the parser \<open>from_string\<close>. The lemmas give the
  round trip, the parser's exact domain with the error of every branch, and that parsing keeps
  strings valid UTF-8.
\<close>

section \<open>Signal types\<close>

datatype signal_type = Offer | Answer | Candidate | Error

fun signal_type_as_str :: "signal_type \<Rightarrow> string" where
  "signal_type_as_str Offer = ''CONNECTREQUEST''"
| "signal_type_as_str Answer = ''CONNECTRESPONSE''"
| "signal_type_as_str Candidate = ''CANDIDATEADD''"
| "signal_type_as_str Error = ''CONNECTERROR''"

definition signal_type_from_str :: "string \<Rightarrow> signal_type res" where
  "signal_type_from_str s =
     (if s = ''CONNECTREQUEST'' then Inr Offer
      else if s = ''CONNECTRESPONSE'' then Inr Answer
      else if s = ''CANDIDATEADD'' then Inr Candidate
      else if s = ''CONNECTERROR'' then Inr Error
      else Inl (Other (''Unknown signal type: '' @ s)))"

text \<open>\<open>Display\<close> of a signal type.\<close>

definition signal_type_fmt :: "signal_type \<Rightarrow> string" where
  "signal_type_fmt t = signal_type_as_str t"

lemma signal_type_from_as_str [simp, codec_simps]:
  "signal_type_from_str (signal_type_as_str t) = Inr t"
  by (cases t) (simp_all add: signal_type_from_str_def)

lemma signal_type_from_str_Inr_iff: "signal_type_from_str s = Inr t \<longleftrightarrow> s = signal_type_as_str t"
  by (cases t) (auto simp: signal_type_from_str_def split: if_splits)

lemma signal_type_from_str_Inl_iff:
  "signal_type_from_str s = Inl e \<longleftrightarrow>
     (\<forall>t. s \<noteq> signal_type_as_str t) \<and> e = Other (''Unknown signal type: '' @ s)"
proof (cases "signal_type_from_str s")
  case (Inl d)
  then show ?thesis
    using signal_type_from_as_str by (fastforce simp: signal_type_from_str_def split: if_splits)
next
  case (Inr t)
  then show ?thesis by (auto simp: signal_type_from_str_Inr_iff)
qed

lemma signal_type_no_space [simp]: "CHR '' '' \<notin> set (signal_type_as_str t)"
  by (cases t) simp_all

section \<open>Signals\<close>

record signal =
  signal_type :: signal_type
  connection_id :: u64
  signal_data :: string
  network_id :: string

definition signal_new :: "signal_type \<Rightarrow> u64 \<Rightarrow> string \<Rightarrow> string \<Rightarrow> signal" where
  "signal_new t cid data nid =
     \<lparr>signal_type = t, connection_id = cid, signal_data = data, network_id = nid\<rparr>"

definition signal_offer :: "u64 \<Rightarrow> string \<Rightarrow> string \<Rightarrow> signal" where
  "signal_offer cid sdp nid = signal_new Offer cid sdp nid"

definition signal_answer :: "u64 \<Rightarrow> string \<Rightarrow> string \<Rightarrow> signal" where
  "signal_answer cid sdp nid = signal_new Answer cid sdp nid"

definition signal_candidate :: "u64 \<Rightarrow> string \<Rightarrow> string \<Rightarrow> signal" where
  "signal_candidate cid candidate nid = signal_new Candidate cid candidate nid"

definition signal_error :: "u64 \<Rightarrow> signal_error_code \<Rightarrow> string \<Rightarrow> signal" where
  "signal_error cid error_code nid =
     signal_new Error cid (show_nat (unat (signal_error_to_u32 error_code))) nid"

definition signal_fmt :: "signal \<Rightarrow> string" where
  "signal_fmt s =
     signal_type_as_str (signal_type s) @ '' '' @ u64_to_string (connection_id s) @ '' '' @
     signal_data s"

definition signal_from_string :: "string \<Rightarrow> string \<Rightarrow> signal res" where
  "signal_from_string s nid =
     (let parts = splitn 3 CHR '' '' s in
      if length parts \<noteq> 3
      then Inl (Other (''Invalid signal format: expected 3 parts, got '' @ show_nat (length parts)))
      else
        and_then (signal_type_from_str (parts ! 0)) (\<lambda>t.
        and_then
          (map_err (\<lambda>e. Other (''Failed to parse connection ID: '' @ show_int_error e))
            (parse_u64 (parts ! 1)))
          (\<lambda>cid.
            Inr \<lparr>signal_type = t, connection_id = cid, signal_data = parts ! 2, network_id = nid\<rparr>)))"

lemmas signal_constructors =
  signal_offer_def signal_answer_def signal_candidate_def signal_error_def signal_new_def

lemma splitn_signal_fmt [simp]:
  "splitn 3 CHR '' '' (signal_type_as_str t @ CHR '' '' # u64_to_string n @ CHR '' '' # d) =
    [signal_type_as_str t, u64_to_string n, d]"
  by (rule splitn_3_joined) simp_all

lemma signal_from_string_fmt [codec_simps]:
  "signal_from_string (signal_fmt s) nid = Inr (s\<lparr>network_id := nid\<rparr>)"
  by (cases s) (simp add: signal_from_string_def signal_fmt_def parse_u64_to_string)

lemma length_3_iff: "length xs = 3 \<longleftrightarrow> (\<exists>a b c. xs = [a, b, c])"
  by (auto simp: numeral_3_eq_3 length_Suc_conv)

lemma signal_from_string_Inr_iff:
  "signal_from_string s nid = Inr sig \<longleftrightarrow>
     (\<exists>num. s = signal_type_as_str (signal_type sig) @ '' '' @ num @ '' '' @ signal_data sig \<and>
        CHR '' '' \<notin> set num \<and> parse_u64 num = Inr (connection_id sig) \<and> network_id sig = nid)"
proof
  assume ok: "signal_from_string s nid = Inr sig"
  then obtain a b d where parts: "splitn 3 CHR '' '' s = [a, b, d]"
    by (auto simp: signal_from_string_def Let_def length_3_iff split: if_splits)
  with ok show "\<exists>num. s = signal_type_as_str (signal_type sig) @ '' '' @ num @ '' '' @ signal_data sig \<and>
      CHR '' '' \<notin> set num \<and> parse_u64 num = Inr (connection_id sig) \<and> network_id sig = nid"
    using parts [unfolded splitn_3_iff]
    by (auto simp: signal_from_string_def and_then_Inr_iff signal_type_from_str_Inr_iff)
next
  assume "\<exists>num. s = signal_type_as_str (signal_type sig) @ '' '' @ num @ '' '' @ signal_data sig \<and>
      CHR '' '' \<notin> set num \<and> parse_u64 num = Inr (connection_id sig) \<and> network_id sig = nid"
  then show "signal_from_string s nid = Inr sig"
    by (cases sig) (auto simp: signal_from_string_def)
qed

text \<open>The parts of a valid string are valid strings.\<close>

lemma valid_str_split:
  assumes "valid_str (a @ c # b)" and "byte_of_char c < 0x80"
  shows "valid_str a \<and> valid_str b"
  using assms utf8_valid_split [of "as_bytes a" "byte_of_char c" "as_bytes b"]
  by (simp add: valid_str_def as_bytes_def)

lemma space_ascii [simp]: "byte_of_char CHR '' '' < 0x80"
  by (simp add: byte_of_char_def)

definition valid_signal :: "signal \<Rightarrow> bool" where
  "valid_signal s \<longleftrightarrow> valid_str (signal_data s) \<and> valid_str (network_id s)"

lemma signal_from_string_valid:
  assumes "signal_from_string s nid = Inr sig" and "valid_str s" and "valid_str nid"
  shows "valid_signal sig"
proof -
  from assms(1) obtain num where
    s: "s = (signal_type_as_str (signal_type sig) @ '' '' @ num) @ CHR '' '' # signal_data sig"
    and nid: "network_id sig = nid"
    by (auto simp: signal_from_string_Inr_iff)
  from assms(2) [unfolded s] have "valid_str (signal_data sig)"
    by (rule valid_str_split [THEN conjunct2]) simp
  with nid assms(3) show ?thesis by (simp add: valid_signal_def)
qed

lemma valid_str_append: "valid_str s \<Longrightarrow> valid_str t \<Longrightarrow> valid_str (s @ t)"
  by (simp add: valid_str_def utf8_valid_append)

lemma valid_str_ascii: "\<forall>c \<in> set s. byte_of_char c < 0x80 \<Longrightarrow> valid_str s"
  unfolding valid_str_def as_bytes_def by (rule utf8_valid_ascii) auto

lemma valid_signal_type [simp]: "valid_str (signal_type_as_str t)"
  by (rule valid_str_ascii) (cases t; simp add: byte_of_char_def)

lemma valid_signal_fmt: "valid_signal s \<Longrightarrow> valid_str (signal_fmt s)"
  unfolding signal_fmt_def valid_signal_def
  by (intro valid_str_append) (auto intro: valid_str_ascii simp: byte_of_char_def)

section \<open>Properties\<close>

text \<open>C30: Parsing the text of any signal gives the signal back, with the network id that the
  caller supplies; the data may be empty and may contain blanks.\<close>

theorem signal_roundtrip:
  "signal_from_string (signal_fmt s) nid = Inr (s\<lparr>network_id := nid\<rparr>)"
  by (rule signal_from_string_fmt)

text \<open>C39: The parser accepts exactly the lines \<open>TYPE NUMBER DATA\<close> with a known type and a
  number that is a \<open>u64\<close> in decimal, and for every other line reports the first failing check:
  fewer than three parts, then an unknown type, then the number.\<close>

theorem signal_from_string_total:
  "case signal_from_string s nid of
     Inr sig \<Rightarrow>
       \<exists>num. s = signal_type_as_str (signal_type sig) @ '' '' @ num @ '' '' @ signal_data sig \<and>
         CHR '' '' \<notin> set num \<and> parse_u64 num = Inr (connection_id sig) \<and> network_id sig = nid
   | Inl e \<Rightarrow>
       (length (splitn 3 CHR '' '' s) < 3 \<and>
          e = Other (''Invalid signal format: expected 3 parts, got '' @
            show_nat (length (splitn 3 CHR '' '' s)))) \<or>
       (\<exists>t num d. s = t @ '' '' @ num @ '' '' @ d \<and> CHR '' '' \<notin> set t \<and> CHR '' '' \<notin> set num \<and>
          (if t \<in> range signal_type_as_str
           then \<exists>p. parse_u64 num = Inl p \<and>
             e = Other (''Failed to parse connection ID: '' @ show_int_error p)
           else e = Other (''Unknown signal type: '' @ t)))"
proof (cases "signal_from_string s nid")
  case (Inr sig)
  then have "\<exists>num. s = signal_type_as_str (signal_type sig) @ '' '' @ num @ '' '' @ signal_data sig \<and>
      CHR '' '' \<notin> set num \<and> parse_u64 num = Inr (connection_id sig) \<and> network_id sig = nid"
    by (simp only: signal_from_string_Inr_iff)
  with Inr show ?thesis by (simp only: sum.case)
next
  case (Inl e)
  show ?thesis
  proof (cases "length (splitn 3 CHR '' '' s) = 3")
    case False
    with Inl splitn_3_length [of "CHR '' ''" s] show ?thesis
      by (auto simp: signal_from_string_def)
  next
    case True
    then obtain t num d where parts: "splitn 3 CHR '' '' s = [t, num, d]"
      by (auto simp: length_3_iff)
    have "if t \<in> range signal_type_as_str
        then \<exists>p. parse_u64 num = Inl p \<and>
          e = Other (''Failed to parse connection ID: '' @ show_int_error p)
        else e = Other (''Unknown signal type: '' @ t)"
      using Inl parts
      by (auto simp: signal_from_string_def and_then_Inl_iff map_err_Inl_iff
          signal_type_from_str_Inl_iff signal_type_from_str_Inr_iff)
    moreover have "s = t @ '' '' @ num @ '' '' @ d" "CHR '' '' \<notin> set t" "CHR '' '' \<notin> set num"
      using parts [unfolded splitn_3_iff] by simp_all
    ultimately show ?thesis
      unfolding Inl sum.case by blast
  qed
qed

end
