(* ===== verification/Negotiation.thy ===== *)
theory Negotiation
  imports Signals Connect_Error
begin

text \<open>
  WebRTC negotiation messages (src/src/protocol/webrtc/negotiation.rs): the message type, its
  parser and \<open>Display\<close>. It is the typed view of the lines that \<open>Signal\<close> carries untyped. The
  lemmas give the round trip with its exact condition, that every accepted line is also a
  signal with the same type, number and payload, and what becomes of the error codes that a
  \<open>Signal\<close> writes.
\<close>

datatype negotiation_message =
    ConnectRequest u64 string
  | ConnectResponse u64 string
  | CandidateAdd u64 string
  | ConnectErr u64 connect_error

definition validate_payload :: "string list \<Rightarrow> string \<Rightarrow> string res" where
  "validate_payload parts error_msg =
     (if length parts < 3 then Inl (Other error_msg)
      else if trim_is_empty (parts ! 2) then Inl (Other error_msg)
      else Inr (parts ! 2))"

definition negotiation_parse :: "string \<Rightarrow> negotiation_message res" where
  "negotiation_parse s =
     (let parts = splitn 3 CHR '' '' s in
      if length parts < 2 then Inl (Other ''invalid message format'')
      else
        and_then
          (map_err (\<lambda>e. Other (''invalid connection ID: '' @ show_int_error e)) (parse_u64 (parts ! 1)))
          (\<lambda>cid.
            if parts ! 0 = ''CONNECTREQUEST'' then
              and_then (validate_payload parts ''missing SDP offer'')
                (\<lambda>sdp. Inr (ConnectRequest cid sdp))
            else if parts ! 0 = ''CONNECTRESPONSE'' then
              and_then (validate_payload parts ''missing SDP answer'')
                (\<lambda>sdp. Inr (ConnectResponse cid sdp))
            else if parts ! 0 = ''CANDIDATEADD'' then
              and_then (validate_payload parts ''missing ICE candidate'')
                (\<lambda>c. Inr (CandidateAdd cid c))
            else if parts ! 0 = ''CONNECTERROR'' then
              (if length parts < 3 then Inl (Other ''missing error code'')
               else
                 and_then
                   (map_err (\<lambda>e. Other (''invalid error code: '' @ show_int_error e))
                     (parse_u8 (parts ! 2)))
                   (\<lambda>code.
                 and_then
                   (ok_or (Other (''unknown error code: '' @ show_nat (unat code)))
                     (connect_error_from_code code))
                   (\<lambda>error. Inr (ConnectErr cid error))))
            else Inl (Other (''unknown message type: '' @ parts ! 0))))"

fun negotiation_connection_id :: "negotiation_message \<Rightarrow> u64" where
  "negotiation_connection_id (ConnectRequest cid _) = cid"
| "negotiation_connection_id (ConnectResponse cid _) = cid"
| "negotiation_connection_id (CandidateAdd cid _) = cid"
| "negotiation_connection_id (ConnectErr cid _) = cid"

fun negotiation_message_type :: "negotiation_message \<Rightarrow> string" where
  "negotiation_message_type (ConnectRequest _ _) = ''CONNECTREQUEST''"
| "negotiation_message_type (ConnectResponse _ _) = ''CONNECTRESPONSE''"
| "negotiation_message_type (CandidateAdd _ _) = ''CANDIDATEADD''"
| "negotiation_message_type (ConnectErr _ _) = ''CONNECTERROR''"

fun negotiation_fmt :: "negotiation_message \<Rightarrow> string" where
  "negotiation_fmt (ConnectRequest cid sdp) = ''CONNECTREQUEST '' @ u64_to_string cid @ '' '' @ sdp"
| "negotiation_fmt (ConnectResponse cid sdp) = ''CONNECTRESPONSE '' @ u64_to_string cid @ '' '' @ sdp"
| "negotiation_fmt (CandidateAdd cid c) = ''CANDIDATEADD '' @ u64_to_string cid @ '' '' @ c"
| "negotiation_fmt (ConnectErr cid e) =
     ''CONNECTERROR '' @ u64_to_string cid @ '' '' @ show_nat (unat (connect_error_code e))"

text \<open>The payload text of a message and its signal type.\<close>

fun negotiation_payload :: "negotiation_message \<Rightarrow> string" where
  "negotiation_payload (ConnectRequest _ sdp) = sdp"
| "negotiation_payload (ConnectResponse _ sdp) = sdp"
| "negotiation_payload (CandidateAdd _ c) = c"
| "negotiation_payload (ConnectErr _ e) = show_nat (unat (connect_error_code e))"

fun negotiation_signal_type :: "negotiation_message \<Rightarrow> signal_type" where
  "negotiation_signal_type (ConnectRequest _ _) = Offer"
| "negotiation_signal_type (ConnectResponse _ _) = Answer"
| "negotiation_signal_type (CandidateAdd _ _) = Candidate"
| "negotiation_signal_type (ConnectErr _ _) = Error"

fun missing_payload :: "negotiation_message \<Rightarrow> string" where
  "missing_payload (ConnectRequest _ _) = ''missing SDP offer''"
| "missing_payload (ConnectResponse _ _) = ''missing SDP answer''"
| "missing_payload (CandidateAdd _ _) = ''missing ICE candidate''"
| "missing_payload (ConnectErr _ _) = ''missing error code''"

lemma negotiation_type_str [simp]:
  "negotiation_message_type m = signal_type_as_str (negotiation_signal_type m)"
  by (cases m) simp_all

lemma negotiation_fmt_eq:
  "negotiation_fmt m =
     signal_type_as_str (negotiation_signal_type m) @ CHR '' '' # u64_to_string (negotiation_connection_id m) @
     CHR '' '' # negotiation_payload m"
  by (cases m) simp_all

lemma splitn_negotiation_fmt [simp]:
  "splitn 3 CHR '' '' (negotiation_fmt m) =
     [signal_type_as_str (negotiation_signal_type m), u64_to_string (negotiation_connection_id m),
      negotiation_payload m]"
  unfolding negotiation_fmt_eq by (rule splitn_signal_fmt)

lemma digit_not_ws: "is_digit c \<Longrightarrow> \<not> ws1 (byte_of_char c)"
  by (auto simp: is_digit_def to_digit_def byte_of_char_def ws1_def Let_def word_le_nat_alt
      unat_of_nat word_unat_eq_iff split: if_splits)

lemma show_nat_not_blank [simp]: "\<not> trim_is_empty (show_nat n)"
proof -
  obtain c cs where c: "show_nat n = c # cs" by (cases "show_nat n") auto
  then have "is_digit c" using show_nat_digits [of c n] by simp
  then show ?thesis
    using all_ws_ascii_head digit_ascii digit_not_ws
    by (simp add: trim_is_empty_def as_bytes_def c)
qed

lemma negotiation_parse_fmt:
  "negotiation_parse (negotiation_fmt m) =
     (if trim_is_empty (negotiation_payload m) then Inl (Other (missing_payload m)) else Inr m)"
  by (cases m)
    (simp_all add: negotiation_parse_def validate_payload_def parse_u64_to_string parse_u8_show_nat
      del: negotiation_fmt.simps)

lemma validate_payload_Inr_iff:
  "validate_payload parts msg = Inr p \<longleftrightarrow> \<not> length parts < 3 \<and> \<not> trim_is_empty (parts ! 2) \<and> p = parts ! 2"
  by (auto simp: validate_payload_def)

lemma negotiation_parse_parts:
  assumes "negotiation_parse s = Inr m"
  obtains num d where "splitn 3 CHR '' '' s = [signal_type_as_str (negotiation_signal_type m), num, d]"
    and "parse_u64 num = Inr (negotiation_connection_id m)"
    and "negotiation_signal_type m = Error \<or> d = negotiation_payload m \<and> \<not> trim_is_empty d"
    and "negotiation_signal_type m = Error \<longrightarrow>
      (\<exists>e. m = ConnectErr (negotiation_connection_id m) e \<and> parse_u8 d = Inr (connect_error_code e))"
proof -
  let ?parts = "splitn 3 CHR '' '' s"
  from assms have "\<not> length ?parts < 3"
    by (auto simp: negotiation_parse_def Let_def and_then_Inr_iff validate_payload_Inr_iff
        split: if_splits)
  with splitn_3_length [of "CHR '' ''" s] have "length ?parts = 3" by auto
  then obtain a num d where parts: "?parts = [a, num, d]"
    by (auto simp: length_3_iff)
  from assms have
    "a = signal_type_as_str (negotiation_signal_type m) \<and>
     parse_u64 num = Inr (negotiation_connection_id m) \<and>
     (negotiation_signal_type m = Error \<or> d = negotiation_payload m \<and> \<not> trim_is_empty d) \<and>
     (negotiation_signal_type m = Error \<longrightarrow>
       (\<exists>e. m = ConnectErr (negotiation_connection_id m) e \<and> parse_u8 d = Inr (connect_error_code e)))"
    unfolding negotiation_parse_def parts Let_def
    by (auto simp: and_then_Inr_iff validate_payload_Inr_iff connect_error_from_code_iff
        split: if_splits)
  with parts that show ?thesis by blast
qed

section \<open>Properties\<close>

text \<open>C33: Parsing the text of a negotiation message gives the message back exactly when its
  payload has a character that is not white space; otherwise it is refused as missing.\<close>

theorem negotiation_roundtrip:
  "negotiation_parse (negotiation_fmt m) =
     (if trim_is_empty (negotiation_payload m) then Inl (Other (missing_payload m)) else Inr m)"
  by (rule negotiation_parse_fmt)

text \<open>Every line that is a negotiation message is also a signal, with the same type and
  connection, and (for other types than an error) the message's payload as its data.\<close>

theorem negotiation_refines_signal:
  assumes "negotiation_parse s = Inr m"
  shows "\<exists>sig. signal_from_string s nid = Inr sig \<and>
    signal_type_as_str (signal_type sig) = negotiation_message_type m \<and>
    connection_id sig = negotiation_connection_id m \<and> network_id sig = nid \<and>
    (case m of ConnectErr _ e \<Rightarrow> parse_u8 (signal_data sig) = Inr (connect_error_code e)
       | _ \<Rightarrow> signal_data sig = negotiation_payload m)"
proof -
  from assms obtain num d where parts:
    "splitn 3 CHR '' '' s = [signal_type_as_str (negotiation_signal_type m), num, d]"
    "parse_u64 num = Inr (negotiation_connection_id m)"
    "negotiation_signal_type m = Error \<or> d = negotiation_payload m \<and> \<not> trim_is_empty d"
    "negotiation_signal_type m = Error \<longrightarrow>
      (\<exists>e. m = ConnectErr (negotiation_connection_id m) e \<and> parse_u8 d = Inr (connect_error_code e))"
    by (rule negotiation_parse_parts)
  then show ?thesis
    by (cases m) (auto simp: signal_from_string_def signal_type_from_str_def)
qed

theorem negotiation_refines_signal_witness:
  "\<exists>sig. signal_from_string ''CONNECTERROR 7 2'' ''9'' = Inr sig \<and>
    signal_type_as_str (signal_type sig) =
      negotiation_message_type (ConnectErr 7 C_NegotiationTimeout) \<and>
    connection_id sig = negotiation_connection_id (ConnectErr 7 C_NegotiationTimeout) \<and>
    network_id sig = ''9'' \<and>
    (case ConnectErr 7 C_NegotiationTimeout of
       ConnectErr _ e \<Rightarrow> parse_u8 (signal_data sig) = Inr (connect_error_code e)
     | _ \<Rightarrow> signal_data sig = negotiation_payload (ConnectErr 7 C_NegotiationTimeout))"
proof (rule negotiation_refines_signal)
  have "show_nat 7 = ''7''" and "show_nat 2 = ''2''" by code_simp+
  then have "''CONNECTERROR 7 2'' = negotiation_fmt (ConnectErr 7 C_NegotiationTimeout)"
    by (simp add: u64_to_string_def)
  then show "negotiation_parse ''CONNECTERROR 7 2'' = Inr (ConnectErr 7 C_NegotiationTimeout)"
    by (simp only: negotiation_parse_fmt) simp
qed

text \<open>C34: The two enumerations of error codes disagree on the wire: the text that
  \<open>Signal::error\<close> writes is read by \<open>NegotiationMessage::parse\<close> as the corresponding error
  exactly for the numbers up to 19; number 20 is refused and a larger one is read as the error
  before it.\<close>

theorem signal_error_wire_mismatch:
  "(negotiation_parse (signal_fmt (signal_error cid c nid)) =
      Inr (ConnectErr cid (connect_error_of_signal c))) = (signal_error_to_u32 c \<le> 19) \<and>
   negotiation_parse (signal_fmt (signal_error cid c nid)) =
     (if signal_error_to_u32 c = 20 then Inl (Other ''unknown error code: 20'')
      else if signal_error_to_u32 c \<le> 19 then Inr (ConnectErr cid (connect_error_of_signal c))
      else Inr (ConnectErr cid
        (connect_error_of_signal (signal_error_from_u32 (signal_error_to_u32 c - 1)))))"
proof -
  have fmt: "splitn 3 CHR '' '' (signal_fmt (signal_error cid c nid)) =
      [''CONNECTERROR'', u64_to_string cid, show_nat (unat (signal_error_to_u32 c))]"
    using splitn_signal_fmt [of Error]
    by (simp add: signal_fmt_def signal_error_def signal_new_def)
  have small: "unat (signal_error_to_u32 c) \<le> 26"
    using signal_error_to_u32_le [of c] by (simp add: word_le_nat_alt)
  then have "parse_u8 (show_nat (unat (signal_error_to_u32 c))) =
      Inr (word_of_nat (unat (signal_error_to_u32 c)))"
    by (simp add: parse_u8_def parse_uint_show_nat)
  moreover have "unat (ucast (signal_error_to_u32 c) :: u8) = unat (signal_error_to_u32 c)"
    using small by (simp add: unsigned_ucast_eq take_bit_nat_eq_self_iff)
  ultimately have "negotiation_parse (signal_fmt (signal_error cid c nid)) =
      and_then (ok_or (Other (''unknown error code: '' @ show_nat (unat (signal_error_to_u32 c))))
          (connect_error_from_code (word_of_nat (unat (signal_error_to_u32 c)))))
        (\<lambda>e. Inr (ConnectErr cid e))"
    by (simp add: negotiation_parse_def fmt parse_u64_to_string)
  moreover have "show_nat 20 = ''20''" by code_simp
  ultimately show ?thesis
    by (cases c) (simp_all add: connect_error_from_code_def signal_error_from_u32_def)
qed

end
