(* ===== verification/Server_Data.thy ===== *)
theory Server_Data
  imports Wire
begin

text \<open>
  \<open>ServerData\<close> (src/src/protocol/packet/discovery/server_data.rs), the binary description of a
  world in a discovery response, and its builder \<open>NethernetMotd\<close> (src/src/builders/motd.rs).
  The lemmas show for which records \<open>marshal\<close> succeeds and what it writes, which byte strings
  \<open>unmarshal\<close> accepts and what it makes of them, the round trip, that decoding and encoding
  again is stable, and that no accepted string stays accepted when cut or extended.
\<close>

section \<open>The record\<close>

definition SERVER_DATA_VERSION :: u8 where "SERVER_DATA_VERSION = 4"

record server_data =
  server_name :: string
  level_name :: string
  game_type :: u8
  player_count :: i32
  max_player_count :: i32
  editor_world :: bool
  hardcore :: bool
  transport_layer :: u8
  connection_type :: u8

definition server_data_new :: "string \<Rightarrow> string \<Rightarrow> server_data" where
  "server_data_new name level =
     \<lparr>server_name = name, level_name = level, game_type = 0, player_count = 1,
      max_player_count = 8, editor_world = False, hardcore = False,
      transport_layer = 2, connection_type = 4\<rparr>"

section \<open>Encoding\<close>

definition field_overflow :: "string \<Rightarrow> u8 \<Rightarrow> nethernet_error" where
  "field_overflow name v =
     Other (name @ '' must be less than 128 to avoid overflow, got '' @ show_nat (unat v))"

definition bool_byte :: "bool \<Rightarrow> u8" where
  "bool_byte b = (if b then 1 else 0)"

text \<open>\<open>v << 1\<close> and \<open>v >> 1\<close> on a \<open>u8\<close>.\<close>

definition shl1 :: "u8 \<Rightarrow> u8" where
  "shl1 v = push_bit 1 v"

definition shr1 :: "u8 \<Rightarrow> u8" where
  "shr1 v = drop_bit 1 v"

definition server_data_marshal :: "server_data \<Rightarrow> bytes res" where
  "server_data_marshal sd =
     (if game_type sd \<ge> 128 then Inl (field_overflow ''game_type'' (game_type sd))
      else if transport_layer sd \<ge> 128 then
        Inl (field_overflow ''transport_layer'' (transport_layer sd))
      else if connection_type sd \<ge> 128 then
        Inl (field_overflow ''connection_type'' (connection_type sd))
      else
        and_then (lift_io (write_u8 [] SERVER_DATA_VERSION)) (\<lambda>buf.
        and_then (lift_io (write_bytes_u8 buf (as_bytes (server_name sd)))) (\<lambda>buf.
        and_then (lift_io (write_bytes_u8 buf (as_bytes (level_name sd)))) (\<lambda>buf.
        and_then (lift_io (write_u8 buf (shl1 (game_type sd)))) (\<lambda>buf.
        and_then (lift_io (write_i32_le buf (player_count sd))) (\<lambda>buf.
        and_then (lift_io (write_i32_le buf (max_player_count sd))) (\<lambda>buf.
        and_then (lift_io (write_u8 buf (bool_byte (editor_world sd)))) (\<lambda>buf.
        and_then (lift_io (write_u8 buf (bool_byte (hardcore sd)))) (\<lambda>buf.
        and_then (lift_io (write_u8 buf (shl1 (transport_layer sd)))) (\<lambda>buf.
        and_then (lift_io (write_u8 buf (shl1 (connection_type sd)))) (\<lambda>buf.
          Inr buf)))))))))))"

section \<open>Decoding\<close>

text \<open>\<open>String::from_utf8(..).map_err(|e| Other(format!("invalid .. UTF-8: {}", e)))\<close>.\<close>

definition utf8_or_error :: "string \<Rightarrow> bytes \<Rightarrow> string res" where
  "utf8_or_error what bs = map_err (\<lambda>e. Other (what @ show_utf8_error e)) (from_utf8 bs)"

text \<open>The fields in their order, with the bytes that remain.\<close>

definition server_data_fields :: "bytes \<Rightarrow> (server_data \<times> bytes) res" where
  "server_data_fields r =
     and_then (lift_io (read_u8 r)) (\<lambda>(version, r).
       if version \<noteq> SERVER_DATA_VERSION
       then Inl (Other (''version mismatch: got '' @ show_nat (unat version) @ '', want '' @
         show_nat (unat SERVER_DATA_VERSION)))
       else
     and_then (lift_io (read_bytes_u8 r)) (\<lambda>(name_bytes, r).
     and_then (utf8_or_error ''invalid server name UTF-8: '' name_bytes) (\<lambda>name.
     and_then (lift_io (read_bytes_u8 r)) (\<lambda>(level_bytes, r).
     and_then (utf8_or_error ''invalid level name UTF-8: '' level_bytes) (\<lambda>level.
     and_then (lift_io (read_u8 r)) (\<lambda>(game, r).
     and_then (lift_io (read_i32_le r)) (\<lambda>(players, r).
     and_then (lift_io (read_i32_le r)) (\<lambda>(max_players, r).
     and_then (lift_io (read_u8 r)) (\<lambda>(editor, r).
     and_then (lift_io (read_u8 r)) (\<lambda>(hard, r).
     and_then (lift_io (read_u8 r)) (\<lambda>(transport, r).
     and_then (lift_io (read_u8 r)) (\<lambda>(connection, r).
       Inr (\<lparr>server_name = name, level_name = level, game_type = shr1 game,
             player_count = players, max_player_count = max_players,
             editor_world = (editor \<noteq> 0), hardcore = (hard \<noteq> 0),
             transport_layer = shr1 transport, connection_type = shr1 connection\<rparr>,
            r)))))))))))))"

definition server_data_unmarshal :: "bytes \<Rightarrow> server_data res" where
  "server_data_unmarshal data =
     and_then (server_data_fields data) (\<lambda>(sd, r).
       if length r \<noteq> 0 then Inl (Other (''unread '' @ show_nat (length r) @ '' bytes''))
       else Inr sd)"

section \<open>The builder\<close>

record nethernet_motd =
  motd_data :: server_data

definition motd_new :: "string \<Rightarrow> string \<Rightarrow> nethernet_motd" where
  "motd_new name level = \<lparr>motd_data = server_data_new name level\<rparr>"

definition motd_server_name :: "nethernet_motd \<Rightarrow> string \<Rightarrow> nethernet_motd" where
  "motd_server_name m v = m\<lparr>motd_data := (motd_data m)\<lparr>server_name := v\<rparr>\<rparr>"

definition motd_level_name :: "nethernet_motd \<Rightarrow> string \<Rightarrow> nethernet_motd" where
  "motd_level_name m v = m\<lparr>motd_data := (motd_data m)\<lparr>level_name := v\<rparr>\<rparr>"

definition motd_game_type :: "nethernet_motd \<Rightarrow> u8 \<Rightarrow> nethernet_motd" where
  "motd_game_type m v = m\<lparr>motd_data := (motd_data m)\<lparr>game_type := v\<rparr>\<rparr>"

definition motd_player_count :: "nethernet_motd \<Rightarrow> i32 \<Rightarrow> nethernet_motd" where
  "motd_player_count m v = m\<lparr>motd_data := (motd_data m)\<lparr>player_count := v\<rparr>\<rparr>"

definition motd_max_player_count :: "nethernet_motd \<Rightarrow> i32 \<Rightarrow> nethernet_motd" where
  "motd_max_player_count m v = m\<lparr>motd_data := (motd_data m)\<lparr>max_player_count := v\<rparr>\<rparr>"

definition motd_editor_world :: "nethernet_motd \<Rightarrow> bool \<Rightarrow> nethernet_motd" where
  "motd_editor_world m v = m\<lparr>motd_data := (motd_data m)\<lparr>editor_world := v\<rparr>\<rparr>"

definition motd_hardcore :: "nethernet_motd \<Rightarrow> bool \<Rightarrow> nethernet_motd" where
  "motd_hardcore m v = m\<lparr>motd_data := (motd_data m)\<lparr>hardcore := v\<rparr>\<rparr>"

definition motd_transport_layer :: "nethernet_motd \<Rightarrow> u8 \<Rightarrow> nethernet_motd" where
  "motd_transport_layer m v = m\<lparr>motd_data := (motd_data m)\<lparr>transport_layer := v\<rparr>\<rparr>"

definition motd_connection_type :: "nethernet_motd \<Rightarrow> u8 \<Rightarrow> nethernet_motd" where
  "motd_connection_type m v = m\<lparr>motd_data := (motd_data m)\<lparr>connection_type := v\<rparr>\<rparr>"

definition motd_build :: "nethernet_motd \<Rightarrow> server_data" where
  "motd_build m = motd_data m"

definition motd_marshal :: "nethernet_motd \<Rightarrow> bytes res" where
  "motd_marshal m = server_data_marshal (motd_data m)"

lemmas motd_defs = motd_new_def motd_server_name_def motd_level_name_def motd_game_type_def
  motd_player_count_def motd_max_player_count_def motd_editor_world_def motd_hardcore_def
  motd_transport_layer_def motd_connection_type_def motd_build_def motd_marshal_def

section \<open>What is written\<close>

text \<open>The layout of the record, with the shifted and the boolean fields as they are on the wire.\<close>

definition layout ::
    "bytes \<Rightarrow> bytes \<Rightarrow> u8 \<Rightarrow> i32 \<Rightarrow> i32 \<Rightarrow> u8 \<Rightarrow> u8 \<Rightarrow> u8 \<Rightarrow> u8 \<Rightarrow> bytes" where
  "layout name level g pc mc e h t c =
     SERVER_DATA_VERSION # enc_bytes_u8 name @ enc_bytes_u8 level @ [g] @ to_le 4 pc @ to_le 4 mc @
     [e, h, t, c]"

definition server_data_enc :: "server_data \<Rightarrow> bytes" where
  "server_data_enc sd =
     layout (as_bytes (server_name sd)) (as_bytes (level_name sd)) (shl1 (game_type sd))
       (player_count sd) (max_player_count sd) (bool_byte (editor_world sd))
       (bool_byte (hardcore sd)) (shl1 (transport_layer sd)) (shl1 (connection_type sd))"

definition encodable :: "server_data \<Rightarrow> bool" where
  "encodable sd \<longleftrightarrow>
     game_type sd < 128 \<and> transport_layer sd < 128 \<and> connection_type sd < 128 \<and>
     length (server_name sd) \<le> 255 \<and> length (level_name sd) \<le> 255"

definition valid_server_data :: "server_data \<Rightarrow> bool" where
  "valid_server_data sd \<longleftrightarrow> valid_str (server_name sd) \<and> valid_str (level_name sd)"

lemma length_layout: "length (layout name level g pc mc e h t c) = 16 + length name + length level"
  by (simp add: layout_def)

lemma marshal_Inr_iff: "server_data_marshal sd = Inr bs \<longleftrightarrow> encodable sd \<and> bs = server_data_enc sd"
  by (auto simp: server_data_marshal_def and_then_Inr_iff bytes8.write_Inr_iff encodable_def
      server_data_enc_def layout_def not_le)

lemma marshal_ok: "encodable sd \<Longrightarrow> server_data_marshal sd = Inr (server_data_enc sd)"
  by (simp add: marshal_Inr_iff)

lemma marshal_is_ok: "is_ok (server_data_marshal sd) \<longleftrightarrow> encodable sd"
  by (auto simp: is_ok_iff marshal_Inr_iff)

lemma utf8_or_error_Inr_iff [simp]:
  "utf8_or_error w bs = Inr s \<longleftrightarrow> utf8_valid bs \<and> s = str_of_bytes bs"
  by (simp add: utf8_or_error_def)

lemma utf8_or_error_ok [simp]: "utf8_valid bs \<Longrightarrow> utf8_or_error w bs = Inr (str_of_bytes bs)"
  by simp

text \<open>What is read: any flag bytes and any low bits are accepted.\<close>

lemma fields_Inr_iff:
  "server_data_fields bs = Inr (sd, r) \<longleftrightarrow>
     (\<exists>name level g pc mc e h t c.
        bs = layout name level g pc mc e h t c @ r \<and>
        length name \<le> 255 \<and> length level \<le> 255 \<and> utf8_valid name \<and> utf8_valid level \<and>
        sd = \<lparr>server_name = str_of_bytes name, level_name = str_of_bytes level,
          game_type = shr1 g, player_count = pc, max_player_count = mc,
          editor_world = (e \<noteq> 0), hardcore = (h \<noteq> 0),
          transport_layer = shr1 t, connection_type = shr1 c\<rparr>)"
  (is "?L = ?R")
proof
  assume ?L
  then show ?R
    by (auto simp: server_data_fields_def and_then_Inr_iff bytes8.read_Inr_iff read_iff_primitives
        layout_def split: if_splits) blast
next
  assume ?R
  then show ?L
    by (auto simp: server_data_fields_def bytes8.read_enc layout_def)
qed

lemma fields_append:
  "server_data_fields bs = Inr (sd, r) \<Longrightarrow> server_data_fields (bs @ s) = Inr (sd, r @ s)"
  unfolding fields_Inr_iff by auto

lemma unmarshal_Inr_iff: "server_data_unmarshal bs = Inr sd \<longleftrightarrow> server_data_fields bs = Inr (sd, [])"
  by (auto simp: server_data_unmarshal_def and_then_Inr_iff split: if_splits)

lemma unat_shr1: "unat (shr1 v) = unat v div 2"
  by (simp add: shr1_def unat_div drop_bit_Suc)

lemma shr1_shl1: "v < 128 \<Longrightarrow> shr1 (shl1 v) = v"
proof -
  assume "v < 128"
  then have "unat v < 128" by (simp add: word_less_nat_alt)
  then have "unat (shl1 v) = 2 * unat v"
    by (simp add: shl1_def push_bit_Suc unat_word_ariths)
  then show ?thesis by (simp add: word_unat_eq_iff unat_shr1)
qed

lemma shr1_less: "shr1 v < 128"
proof -
  have "unat v div 2 < 128" using byte_bound [of v] by linarith
  then show ?thesis by (simp add: word_less_nat_alt unat_shr1)
qed

lemma bool_byte_0_iff [simp]: "bool_byte b = 0 \<longleftrightarrow> \<not> b"
  by (simp add: bool_byte_def)

lemma unmarshal_enc:
  "encodable sd \<Longrightarrow> valid_server_data sd \<Longrightarrow> server_data_unmarshal (server_data_enc sd) = Inr sd"
  unfolding unmarshal_Inr_iff fields_Inr_iff server_data_enc_def
  by (cases sd, intro exI conjI)
    (auto simp: encodable_def valid_server_data_def valid_str_def shr1_shl1)

lemma unmarshal_encodable:
  assumes "server_data_unmarshal bs = Inr sd"
  shows "encodable sd \<and> valid_server_data sd \<and> length bs = length (server_data_enc sd)"
  using assms unfolding unmarshal_Inr_iff fields_Inr_iff
  by (auto simp: encodable_def valid_server_data_def shr1_less server_data_enc_def length_layout)

section \<open>Properties\<close>

text \<open>C29: Encoding succeeds exactly when the shifted fields are below 128 and both names take at
  most 255 bytes, and decoding what was encoded gives the record back.\<close>

theorem server_data_roundtrip:
  assumes "valid_server_data sd"
  shows "is_ok (server_data_marshal sd) = encodable sd \<and>
    (encodable sd \<longrightarrow> and_then (server_data_marshal sd) server_data_unmarshal = Inr sd)"
  using assms by (simp add: marshal_is_ok marshal_ok unmarshal_enc)

theorem server_data_roundtrip_witness:
  "is_ok (server_data_marshal (server_data_new ''Steve'' ''World'')) =
      encodable (server_data_new ''Steve'' ''World'') \<and>
   encodable (server_data_new ''Steve'' ''World'') \<and>
   and_then (server_data_marshal (server_data_new ''Steve'' ''World'')) server_data_unmarshal =
     Inr (server_data_new ''Steve'' ''World'')"
proof -
  have "valid_server_data (server_data_new ''Steve'' ''World'')" by code_simp
  moreover have "encodable (server_data_new ''Steve'' ''World'')" by code_simp
  ultimately show ?thesis using server_data_roundtrip by blast
qed

text \<open>What decoding accepts is a well-formed record: its names are valid UTF-8, it can be
  encoded again into as many bytes, and decoding those bytes gives the same record. (The bytes
  themselves may differ: flag bytes above 1 and the low bit of the shifted fields are dropped.)\<close>

theorem server_data_decode_stable:
  assumes "server_data_unmarshal bs = Inr sd"
  shows "valid_server_data sd \<and>
    (\<exists>bs'. server_data_marshal sd = Inr bs' \<and> length bs' = length bs \<and>
       server_data_unmarshal bs' = Inr sd)"
  using unmarshal_encodable [OF assms] by (auto simp: marshal_Inr_iff unmarshal_enc)

lemma server_data_example:
  "server_data_unmarshal [4, 1, 65, 1, 66, 3, 1, 0, 0, 0, 8, 0, 0, 0, 7, 0, 5, 9] =
    Inr \<lparr>server_name = ''A'', level_name = ''B'', game_type = 1, player_count = 1,
      max_player_count = 8, editor_world = True, hardcore = False, transport_layer = 2,
      connection_type = 4\<rparr>"
proof -
  have "to_le 4 (1 :: i32) = [1, 0, 0, 0]" "to_le 4 (8 :: i32) = [8, 0, 0, 0]" by code_simp+
  then have "[4, 1, 65, 1, 66, 3, 1, 0, 0, 0, 8, 0, 0, 0, 7, 0, 5, 9] = layout [65] [66] 3 1 8 7 0 5 9 @ []"
    by (simp add: layout_def SERVER_DATA_VERSION_def enc_bytes_u8_def)
  moreover have "str_of_bytes [65] = ''A''" "str_of_bytes [66] = ''B''" "utf8_valid [65]" "utf8_valid [66]"
    "shr1 3 = 1" "shr1 5 = 2" "shr1 9 = 4"
    by code_simp+
  ultimately show ?thesis
    unfolding unmarshal_Inr_iff fields_Inr_iff
    by (intro exI [of _ "[65]"] exI [of _ "[66]"] exI) (intro conjI, assumption, simp_all)
qed

theorem server_data_decode_stable_witness:
  "\<exists>sd. valid_server_data sd \<and>
    (\<exists>bs'. server_data_marshal sd = Inr bs' \<and> length bs' = 18 \<and> server_data_unmarshal bs' = Inr sd)"
  using server_data_decode_stable [OF server_data_example] by auto

text \<open>Decoding takes all bytes or none: an accepted byte string is refused when cut short
  anywhere, and when any bytes follow it (with their number in the error).\<close>

theorem server_data_exact_length:
  assumes "server_data_unmarshal bs = Inr sd"
  shows "(n < length bs \<longrightarrow> \<not> is_ok (server_data_unmarshal (take n bs))) \<and>
    (s \<noteq> [] \<longrightarrow> server_data_unmarshal (bs @ s) = Inl (Other (''unread '' @ show_nat (length s) @ '' bytes'')))"
proof (intro conjI impI)
  have fields: "server_data_fields bs = Inr (sd, [])"
    using assms by (simp add: unmarshal_Inr_iff)
  show "\<not> is_ok (server_data_unmarshal (take n bs))" if n: "n < length bs"
  proof
    assume "is_ok (server_data_unmarshal (take n bs))"
    then obtain sd' where "server_data_fields (take n bs) = Inr (sd', [])"
      by (auto simp: is_ok_iff unmarshal_Inr_iff)
    then have "server_data_fields (take n bs @ drop n bs) = Inr (sd', [] @ drop n bs)"
      by (rule fields_append)
    with fields n show False by simp
  qed
  show "server_data_unmarshal (bs @ s) = Inl (Other (''unread '' @ show_nat (length s) @ '' bytes''))"
    if "s \<noteq> []"
    using that fields_append [OF fields, of s] by (simp add: server_data_unmarshal_def)
qed

theorem server_data_exact_length_witness:
  "\<not> is_ok (server_data_unmarshal (take 17 [4, 1, 65, 1, 66, 3, 1, 0, 0, 0, 8, 0, 0, 0, 7, 0, 5, 9])) \<and>
   server_data_unmarshal ([4, 1, 65, 1, 66, 3, 1, 0, 0, 0, 8, 0, 0, 0, 7, 0, 5, 9] @ [0]) =
     Inl (Other (''unread '' @ show_nat (length [0 :: u8]) @ '' bytes''))"
  using server_data_exact_length [OF server_data_example, of 17 "[0]"] by simp

text \<open>The builder's setters change their own field only and the last value set is the one
  built, whatever is set in between; the result encodes exactly when the built record does.\<close>

theorem motd_builder:
  "motd_build (motd_connection_type (motd_transport_layer (motd_hardcore (motd_editor_world
     (motd_max_player_count (motd_player_count (motd_game_type (motd_level_name
       (motd_server_name m name) level) g) pc) mc) e) h) t) c) =
     \<lparr>server_name = name, level_name = level, game_type = g, player_count = pc,
      max_player_count = mc, editor_world = e, hardcore = h, transport_layer = t,
      connection_type = c\<rparr> \<and>
   motd_build (motd_new name level) = server_data_new name level \<and>
   motd_game_type (motd_level_name (motd_game_type m g) level) g' =
     motd_level_name (motd_game_type m g') level \<and>
   is_ok (motd_marshal m) = encodable (motd_build m)"
  by (simp add: motd_defs marshal_is_ok)

end
