(* ===== verification/Crypto.thy ===== *)
theory Crypto
  imports Wire
begin

text \<open>
  Encryption of discovery packets (src/src/protocol/packet/discovery/crypto.rs): AES-256 in ECB
  mode with PKCS#7 padding, and an HMAC-SHA256 checksum, both under one fixed key.

  The primitives are third-party crates (\<open>aes\<close>, \<open>hmac\<close>, \<open>sha2\<close>, \<open>hex\<close>): they are the fields of
  the record \<open>crates\<close>, a parameter of every definition. What the code relies on is
  \<open>crates_ok\<close>: a block cipher maps 16 byte blocks to such blocks and decryption inverts
  encryption; a tag has 32 bytes and verification accepts exactly the tag; hexadecimal text has
  two characters for a byte and decodes piece by piece. \<open>demo_crates\<close> shows that the laws can
  hold. The lemmas: the constant-time padding check accepts exactly PKCS#7, decryption inverts
  encryption, and the sizes.
\<close>

section \<open>The crates the code calls\<close>

record crates =
  sha256 :: "bytes \<Rightarrow> bytes"
  aes_encrypt_block :: "bytes \<Rightarrow> bytes \<Rightarrow> bytes"
  aes_decrypt_block :: "bytes \<Rightarrow> bytes \<Rightarrow> bytes"
  hmac_sha256 :: "bytes \<Rightarrow> bytes \<Rightarrow> bytes"
  hmac_verify_slice :: "bytes \<Rightarrow> bytes \<Rightarrow> bytes \<Rightarrow> bool"
  hex_encode_to_slice :: "bytes \<Rightarrow> usize \<Rightarrow> string + bytes"
  hex_decode :: "bytes \<Rightarrow> string + bytes"

definition aes_ok :: "crates \<Rightarrow> bool" where
  "aes_ok D \<longleftrightarrow>
     (\<forall>k b. length b = 16 \<longrightarrow>
        length (aes_encrypt_block D k b) = 16 \<and> length (aes_decrypt_block D k b) = 16 \<and>
        aes_decrypt_block D k (aes_encrypt_block D k b) = b)"

definition hmac_ok :: "crates \<Rightarrow> bool" where
  "hmac_ok D \<longleftrightarrow>
     (\<forall>k m. length (hmac_sha256 D k m) = 32) \<and>
     (\<forall>k m t. hmac_verify_slice D k m t \<longleftrightarrow> t = hmac_sha256 D k m)"

definition hex_ok :: "crates \<Rightarrow> bool" where
  "hex_ok D \<longleftrightarrow>
     (\<forall>d. \<exists>h. hex_encode_to_slice D d (2 * length d) = Inr h \<and> length h = 2 * length d \<and>
        (\<forall>r x. hex_decode D r = Inr x \<longrightarrow> hex_decode D (h @ r) = Inr (d @ x))) \<and>
     hex_decode D [] = Inr []"

definition crates_ok :: "crates \<Rightarrow> bool" where
  "crates_ok D \<longleftrightarrow> aes_ok D \<and> hmac_ok D \<and> hex_ok D"

section \<open>Keys\<close>

definition ENCRYPTION_KEY :: "crates \<Rightarrow> bytes" where
  "ENCRYPTION_KEY D = sha256 D (to_le 8 (0xdeadbeef :: u64))"

section \<open>Encryption\<close>

definition pkcs7_pad :: "bytes \<Rightarrow> bytes" where
  "pkcs7_pad buf =
     (let block_size = 16; data_len = length buf;
          padding_len = block_size - data_len mod block_size
      in buf @ replicate padding_len (word_of_nat padding_len))"

definition encrypt_blocks :: "crates \<Rightarrow> bytes \<Rightarrow> bytes" where
  "encrypt_blocks D buf = concat (map (aes_encrypt_block D (ENCRYPTION_KEY D)) (chunks 16 buf))"

definition decrypt_blocks :: "crates \<Rightarrow> bytes \<Rightarrow> bytes" where
  "decrypt_blocks D buf = concat (map (aes_decrypt_block D (ENCRYPTION_KEY D)) (chunks 16 buf))"

definition encrypt :: "crates \<Rightarrow> bytes \<Rightarrow> bytes res" where
  "encrypt D buf = Inr (encrypt_blocks D (pkcs7_pad buf))"

text \<open>The constant-time comparison: the differences of all padding bytes are or-ed together.\<close>

definition mismatched :: "u8 \<Rightarrow> bytes \<Rightarrow> u8" where
  "mismatched padding_len bs = fold (\<lambda>byte acc. acc OR (byte XOR padding_len)) bs 0"

definition pkcs7_unpad :: "bytes \<Rightarrow> bytes option" where
  "pkcs7_unpad buf =
     (if buf = [] then None
      else
        let padding_len = last buf; data_len = length buf in
        if padding_len > 0 \<and> padding_len \<le> 16 \<and> data_len \<ge> unat padding_len then
          (let padding_start = data_len - unat padding_len in
           if mismatched padding_len (drop padding_start buf) = 0
           then Some (take padding_start buf) else None)
        else None)"

definition decrypt :: "crates \<Rightarrow> bytes \<Rightarrow> bytes res" where
  "decrypt D buf =
     (if buf = [] \<or> length buf mod 16 \<noteq> 0
      then Inl (Other ''Invalid encrypted data length'')
      else ok_or (Other ''Invalid padding'') (pkcs7_unpad (decrypt_blocks D buf)))"

section \<open>Checksums\<close>

definition compute_checksum :: "crates \<Rightarrow> bytes \<Rightarrow> bytes" where
  "compute_checksum D data = hmac_sha256 D (ENCRYPTION_KEY D) data"

definition verify_checksum :: "crates \<Rightarrow> bytes \<Rightarrow> bytes \<Rightarrow> bool" where
  "verify_checksum D data expected = hmac_verify_slice D (ENCRYPTION_KEY D) data expected"

lemma verify_checksum_iff: "hmac_ok D \<Longrightarrow> verify_checksum D m t \<longleftrightarrow> t = compute_checksum D m"
  by (simp add: hmac_ok_def verify_checksum_def compute_checksum_def)

lemma length_checksum [len_simps]: "hmac_ok D \<Longrightarrow> length (compute_checksum D m) = 32"
  by (simp add: hmac_ok_def compute_checksum_def)

section \<open>Padding\<close>

lemma or_word_eq_0_iff: "(a :: 'a::len word) OR b = 0 \<longleftrightarrow> a = 0 \<and> b = 0"
proof
  assume "a OR b = 0"
  then have "\<not> bit (a OR b) n" for n by simp
  then have "\<not> bit a n" "\<not> bit b n" for n by (auto simp: bit_or_iff)
  then show "a = 0 \<and> b = 0" by (auto intro: bit_word_eqI)
qed simp

lemma xor_word_eq_0_iff: "(a :: 'a::len word) XOR b = 0 \<longleftrightarrow> a = b"
proof
  assume eq: "a XOR b = 0"
  show "a = b"
  proof (rule bit_word_eqI)
    fix n
    have "\<not> bit (a XOR b) n" by (simp add: eq)
    then show "bit a n \<longleftrightarrow> bit b n" by (auto simp: bit_xor_iff dest: bit_imp_le_length)
  qed
qed simp

lemma mismatched_fold:
  "fold (\<lambda>byte acc. acc OR (byte XOR p)) bs (acc :: u8) = 0 \<longleftrightarrow> acc = 0 \<and> (\<forall>b \<in> set bs. b = p)"
  by (induction bs arbitrary: acc) (auto simp: or_word_eq_0_iff xor_word_eq_0_iff)

lemma mismatched_eq_0_iff: "mismatched p bs = 0 \<longleftrightarrow> bs = replicate (length bs) p"
  unfolding mismatched_def mismatched_fold
  by (metis in_set_replicate replicate_eqI)

lemma pkcs7_unpad_Some_iff:
  "pkcs7_unpad buf = Some d \<longleftrightarrow>
     (\<exists>n. 1 \<le> n \<and> n \<le> 16 \<and> buf = d @ replicate n (word_of_nat n))"
proof
  assume un: "pkcs7_unpad buf = Some d"
  let ?p = "last buf"
  let ?n = "unat ?p"
  from un have ok: "0 < ?p" "?p \<le> 16" "?n \<le> length buf" "d = take (length buf - ?n) buf"
    "mismatched ?p (drop (length buf - ?n) buf) = 0"
    by (auto simp: pkcs7_unpad_def Let_def split: if_splits)
  then have "drop (length buf - ?n) buf = replicate ?n ?p"
    by (simp add: mismatched_eq_0_iff)
  moreover have "buf = take (length buf - ?n) buf @ drop (length buf - ?n) buf" by simp
  ultimately have "buf = d @ replicate ?n (word_of_nat ?n)"
    using ok(4) by simp
  moreover have "1 \<le> ?n" "?n \<le> 16"
    using ok(1,2) by (auto simp: word_less_nat_alt word_le_nat_alt)
  ultimately show "\<exists>n. 1 \<le> n \<and> n \<le> 16 \<and> buf = d @ replicate n (word_of_nat n)"
    by blast
next
  assume "\<exists>n. 1 \<le> n \<and> n \<le> 16 \<and> buf = d @ replicate n (word_of_nat n)"
  then obtain n where n: "1 \<le> n" "n \<le> 16" "buf = d @ replicate n (word_of_nat n)" by blast
  let ?p = "word_of_nat n :: u8"
  have p: "unat ?p = n" using n(2) by (simp add: unat_of_nat)
  then have "0 < ?p" "?p \<le> 16"
    using n(1,2) by (auto simp: word_less_nat_alt word_le_nat_alt)
  moreover have "last buf = ?p" "buf \<noteq> []" using n(1,3) by auto
  moreover have "mismatched ?p (replicate n ?p) = 0" by (simp add: mismatched_eq_0_iff)
  ultimately show "pkcs7_unpad buf = Some d"
    using n(3) p by (simp add: pkcs7_unpad_def)
qed

lemma pkcs7_pad_eq:
  "\<exists>n. 1 \<le> n \<and> n \<le> 16 \<and> pkcs7_pad buf = buf @ replicate n (word_of_nat n) \<and>
    length buf + n = 16 * (length buf div 16 + 1)"
proof (intro exI conjI)
  let ?n = "16 - length buf mod 16"
  have "length buf mod 16 < 16" by simp
  then show "1 \<le> ?n" "?n \<le> 16" by linarith+
  show "pkcs7_pad buf = buf @ replicate ?n (word_of_nat ?n)"
    by (simp add: pkcs7_pad_def)
  have "length buf = 16 * (length buf div 16) + length buf mod 16" by simp
  then show "length buf + ?n = 16 * (length buf div 16 + 1)"
    using \<open>length buf mod 16 < 16\<close> by arith
qed

lemma pkcs7_unpad_pad: "pkcs7_unpad (pkcs7_pad buf) = Some buf"
  using pkcs7_pad_eq [of buf] by (auto simp: pkcs7_unpad_Some_iff)

lemma length_pkcs7_pad [len_simps]: "length (pkcs7_pad buf) = 16 * (length buf div 16 + 1)"
  using pkcs7_pad_eq [of buf] by auto

section \<open>Blocks\<close>

lemma chunks_multiple:
  assumes "length xs = m * n" and "0 < n" shows "\<forall>c \<in> set (chunks n xs). length c = n"
  using assms
proof (induction m arbitrary: xs)
  case 0
  then show ?case by simp
next
  case (Suc m)
  then have "xs \<noteq> []" by auto
  moreover have "\<forall>c \<in> set (chunks n (drop n xs)). length c = n"
    using Suc by (intro Suc.IH) auto
  ultimately show ?case using Suc.prems by (simp add: chunks.simps [of n xs])
qed

lemma chunks_concat:
  "0 < n \<Longrightarrow> \<forall>c \<in> set cs. length c = n \<Longrightarrow> chunks n (concat cs) = cs"
proof (induction cs)
  case Nil
  then show ?case by simp
next
  case (Cons c cs)
  then have "c \<noteq> []" by auto
  with Cons show ?case by (simp add: chunks.simps [of n "c @ concat cs"])
qed

lemma length_concat_const: "\<forall>c \<in> set cs. length c = n \<Longrightarrow> length (concat cs) = n * length cs"
  by (induction cs) auto

lemma encrypt_blocks_props:
  assumes "aes_ok D" and "length buf = m * 16"
  shows "length (encrypt_blocks D buf) = length buf \<and> decrypt_blocks D (encrypt_blocks D buf) = buf"
proof -
  let ?k = "ENCRYPTION_KEY D"
  let ?cs = "map (aes_encrypt_block D ?k) (chunks 16 buf)"
  have blk: "\<forall>c \<in> set (chunks 16 buf). length c = 16"
    using assms(2) by (rule chunks_multiple) simp
  with assms(1) have enc: "\<forall>c \<in> set ?cs. length c = 16" by (auto simp: aes_ok_def)
  have "length (encrypt_blocks D buf) = length (concat (chunks 16 buf))"
    using length_concat_const [OF enc] length_concat_const [OF blk]
    by (simp add: encrypt_blocks_def del: concat_chunks)
  moreover have "chunks 16 (encrypt_blocks D buf) = ?cs"
    unfolding encrypt_blocks_def using enc by (intro chunks_concat) auto
  moreover have "map (aes_decrypt_block D ?k) ?cs = chunks 16 buf"
    using blk assms(1) by (auto simp: aes_ok_def intro: map_idI)
  ultimately show ?thesis by (simp add: decrypt_blocks_def)
qed

lemma length_encrypt [len_simps]:
  "aes_ok D \<Longrightarrow> encrypt D buf = Inr c \<Longrightarrow> length c = 16 * (length buf div 16 + 1)"
  using encrypt_blocks_props [of D "pkcs7_pad buf" "length buf div 16 + 1"]
  by (auto simp: encrypt_def length_pkcs7_pad)

lemma decrypt_encrypt [codec_simps]:
  "aes_ok D \<Longrightarrow> encrypt D buf = Inr c \<Longrightarrow> decrypt D c = Inr buf"
proof -
  assume aes: "aes_ok D" and c: "encrypt D buf = Inr c"
  have len: "length c = 16 * (length buf div 16 + 1)"
    using aes c by (rule length_encrypt)
  then have "c \<noteq> []" "length c mod 16 = 0" by auto
  moreover have "decrypt_blocks D c = pkcs7_pad buf"
    using encrypt_blocks_props [OF aes, of "pkcs7_pad buf" "length buf div 16 + 1"] c
    by (auto simp: encrypt_def length_pkcs7_pad)
  ultimately show ?thesis by (simp add: decrypt_def pkcs7_unpad_pad)
qed

section \<open>The laws can hold\<close>

text \<open>
  A concrete instance for the witnesses: the identity as the block cipher, a tag that repeats
  the sum of the bytes, and the real hexadecimal encoding.
\<close>

definition hex_digit :: "u8 \<Rightarrow> u8" where
  "hex_digit n = (if n < 10 then 48 + n else 87 + n)"

definition unhex_digit :: "u8 \<Rightarrow> u8 option" where
  "unhex_digit c =
     (if 48 \<le> c \<and> c \<le> 57 then Some (c - 48)
      else if 97 \<le> c \<and> c \<le> 102 then Some (c - 87)
      else if 65 \<le> c \<and> c \<le> 70 then Some (c - 55)
      else None)"

fun hex_text :: "bytes \<Rightarrow> bytes" where
  "hex_text [] = []"
| "hex_text (b # bs) = hex_digit (b div 16) # hex_digit (b mod 16) # hex_text bs"

fun unhex_text :: "bytes \<Rightarrow> string + bytes" where
  "unhex_text [] = Inr []"
| "unhex_text [c] = Inl ''Odd number of digits''"
| "unhex_text (c # d # r) =
     (case (unhex_digit c, unhex_digit d) of
        (Some x, Some y) \<Rightarrow> and_then (unhex_text r) (\<lambda>bs. Inr ((16 * x + y) # bs))
      | _ \<Rightarrow> Inl ''Invalid character'')"

definition demo_crates :: crates where
  "demo_crates =
     \<lparr>sha256 = (\<lambda>m. replicate 32 7),
      aes_encrypt_block = (\<lambda>k b. b), aes_decrypt_block = (\<lambda>k b. b),
      hmac_sha256 = (\<lambda>k m. replicate 32 (sum_list m)),
      hmac_verify_slice = (\<lambda>k m t. t = replicate 32 (sum_list m)),
      hex_encode_to_slice = (\<lambda>d n. if n = 2 * length d then Inr (hex_text d) else Inl ''Invalid string length''),
      hex_decode = unhex_text\<rparr>"

lemma unhex_digit_hex_digit: "n < 16 \<Longrightarrow> unhex_digit (hex_digit n) = Some n"
proof -
  assume "n < 16"
  then have "unat n \<in> set [0..<16]" by (simp add: word_less_nat_alt)
  moreover have "\<forall>k \<in> set [0..<16]. unhex_digit (hex_digit (word_of_nat k)) = Some (word_of_nat k)"
    by code_simp
  ultimately have "unhex_digit (hex_digit (word_of_nat (unat n))) = Some (word_of_nat (unat n))"
    by blast
  then show ?thesis by simp
qed

lemma nibbles: "(b :: u8) div 16 < 16" "b mod 16 < 16" "16 * (b div 16) + b mod 16 = b"
proof -
  have "unat b div 16 < 16" using byte_bound [of b] by linarith
  then show "b div 16 < 16" by (simp add: word_less_nat_alt unat_div)
  show "b mod 16 < 16" by (simp add: word_less_nat_alt unat_mod)
  have "unat b div 16 < 256" "16 * (unat b div 16) < 256"
    using byte_bound [of b] by linarith+
  then show "16 * (b div 16) + b mod 16 = b"
    by (simp add: word_unat_eq_iff unat_word_ariths unat_div unat_mod)
qed

lemma unhex_text_append: "unhex_text r = Inr x \<Longrightarrow> unhex_text (hex_text d @ r) = Inr (d @ x)"
  by (induction d) (simp_all add: unhex_digit_hex_digit nibbles)

lemma length_hex_text [simp]: "length (hex_text d) = 2 * length d"
  by (induction d) auto

lemma demo_crates_ok: "crates_ok demo_crates"
  by (auto simp: crates_ok_def aes_ok_def hmac_ok_def hex_ok_def demo_crates_def unhex_text_append)

section \<open>Properties\<close>

text \<open>C28: The constant-time padding check removes exactly PKCS#7 padding: it accepts a buffer if
  and only if it ends in 1 to 16 bytes that all hold their number, and returns what precedes
  them.\<close>

theorem padding_check_exact:
  "(pkcs7_unpad buf = Some d) = (\<exists>n. 1 \<le> n \<and> n \<le> 16 \<and> buf = d @ replicate n (word_of_nat n))"
  by (rule pkcs7_unpad_Some_iff)

text \<open>Decryption inverts encryption on every input, and the ciphertext is the input padded up
  to the next multiple of 16 (a whole block more when it already is one).\<close>

theorem decrypt_inverts_encrypt:
  assumes "aes_ok D"
  shows "and_then (encrypt D buf) (decrypt D) = Inr buf \<and>
    map_sum id length (encrypt D buf) = Inr (16 * (length buf div 16 + 1))"
  using decrypt_encrypt [OF assms] length_encrypt [OF assms] by (simp add: encrypt_def)

theorem decrypt_inverts_encrypt_witness:
  "and_then (encrypt demo_crates [1, 2, 3]) (decrypt demo_crates) = Inr [1, 2, 3] \<and>
   map_sum id length (encrypt demo_crates [1, 2, 3]) =
     (Inr (16 * (length [1, 2, 3 :: u8] div 16 + 1)) :: nethernet_error + nat)"
  using decrypt_inverts_encrypt [of demo_crates "[1, 2, 3]"] demo_crates_ok
  by (simp add: crates_ok_def)

end
