(* ===== verification/Packets.thy ===== *)
theory Packets
  imports Crypto
begin

text \<open>
  The three discovery packets (src/src/protocol/packet/discovery/request.rs, response.rs,
  message.rs) behind the trait \<open>Packet\<close>, and the packet header (packet.rs). A boxed packet is
  the datatype \<open>packet\<close>; \<open>packet_write\<close> and \<open>packet_read\<close> dispatch as the trait object does. A
  response carries its data as hexadecimal text, written in pieces of 512 bytes. The lemmas:
  what each packet writes, and that reading inverts writing, as interpretations of the codec
  locales.
\<close>

section \<open>Packets\<close>

datatype packet =
    RequestPacket
  | ResponsePacket bytes
  | MessagePacket u64 string

fun packet_id :: "packet \<Rightarrow> u16" where
  "packet_id RequestPacket = ID_REQUEST_PACKET"
| "packet_id (ResponsePacket _) = ID_RESPONSE_PACKET"
| "packet_id (MessagePacket _ _) = ID_MESSAGE_PACKET"

subsection \<open>RequestPacket\<close>

definition request_read :: "bytes \<Rightarrow> (packet \<times> bytes) res" where
  "request_read r = Inr (RequestPacket, r)"

definition request_write :: "bytes \<Rightarrow> bytes res" where
  "request_write w = Inr w"

subsection \<open>ResponsePacket\<close>

definition response_new :: "bytes \<Rightarrow> packet" where
  "response_new application_data = ResponsePacket application_data"

definition response_read :: "crates \<Rightarrow> bytes \<Rightarrow> (packet \<times> bytes) res" where
  "response_read D r =
     and_then (lift_io (read_bytes_u32 r)) (\<lambda>(hex_data, r).
     and_then (map_err (\<lambda>e. Other (''hex decode error: '' @ e)) (hex_decode D hex_data))
       (\<lambda>application_data. Inr (ResponsePacket application_data, r)))"

text \<open>The loop over the chunks of 512 bytes, each encoded into the buffer and written.\<close>

fun response_write_chunks :: "crates \<Rightarrow> bytes list \<Rightarrow> bytes \<Rightarrow> bytes res" where
  "response_write_chunks D [] w = Inr w"
| "response_write_chunks D (chunk # cs) w =
     and_then (map_err (\<lambda>e. Other (''hex encode error: '' @ e))
         (hex_encode_to_slice D chunk (length chunk * 2)))
       (\<lambda>buf. and_then (lift_io (write_all w buf)) (response_write_chunks D cs))"

definition response_write :: "crates \<Rightarrow> bytes \<Rightarrow> bytes \<Rightarrow> bytes res" where
  "response_write D application_data w =
     (let hex_len = length application_data * 2 in
      and_then (lift_io (u32le_write w (word_of_nat hex_len)))
        (response_write_chunks D (chunks 512 application_data)))"

subsection \<open>MessagePacket\<close>

definition message_packet_new :: "u64 \<Rightarrow> string \<Rightarrow> packet" where
  "message_packet_new recipient_id data = MessagePacket recipient_id data"

definition message_packet_read :: "bytes \<Rightarrow> (packet \<times> bytes) res" where
  "message_packet_read r =
     and_then (lift_io (u64le_read r)) (\<lambda>(recipient_id, r).
     and_then (lift_io (read_bytes_u32 r)) (\<lambda>(data_bytes, r).
     and_then (map_err (\<lambda>e. Other (''invalid UTF-8: '' @ show_utf8_error e)) (from_utf8 data_bytes))
       (\<lambda>data. Inr (MessagePacket recipient_id data, r))))"

definition message_packet_write :: "u64 \<Rightarrow> string \<Rightarrow> bytes \<Rightarrow> bytes res" where
  "message_packet_write recipient_id data w =
     and_then (lift_io (u64le_write w recipient_id)) (\<lambda>w.
     and_then (lift_io (write_bytes_u32 w (as_bytes data))) (\<lambda>w. Inr w))"

subsection \<open>The trait object\<close>

fun packet_write :: "crates \<Rightarrow> packet \<Rightarrow> bytes \<Rightarrow> bytes res" where
  "packet_write D RequestPacket w = request_write w"
| "packet_write D (ResponsePacket d) w = response_write D d w"
| "packet_write D (MessagePacket rid data) w = message_packet_write rid data w"

text \<open>Reading into the default packet of an id; an unknown id is an error.\<close>

definition packet_read :: "crates \<Rightarrow> u16 \<Rightarrow> bytes \<Rightarrow> (packet \<times> bytes) res" where
  "packet_read D pid r =
     (if pid = ID_REQUEST_PACKET then request_read r
      else if pid = ID_RESPONSE_PACKET then response_read D r
      else if pid = ID_MESSAGE_PACKET then message_packet_read r
      else Inl (Other (''unknown packet ID: '' @ show_nat (unat pid))))"

section \<open>The header\<close>

record header =
  header_packet_id :: u16
  header_sender_id :: u64

definition header_read :: "bytes \<Rightarrow> (header \<times> bytes) res" where
  "header_read r =
     and_then (lift_io (u16le_read r)) (\<lambda>(pid, r).
     and_then (lift_io (u64le_read r)) (\<lambda>(sid, r).
     and_then (lift_io (read_exact 8 r)) (\<lambda>(padding, r).
       Inr (\<lparr>header_packet_id = pid, header_sender_id = sid\<rparr>, r))))"

definition header_write :: "header \<Rightarrow> bytes \<Rightarrow> bytes res" where
  "header_write h w =
     and_then (lift_io (u16le_write w (header_packet_id h))) (\<lambda>w.
     and_then (lift_io (u64le_write w (header_sender_id h))) (\<lambda>w.
     and_then (lift_io (write_all w (replicate 8 0))) (\<lambda>w. Inr w)))"

definition header_enc :: "header \<Rightarrow> bytes" where
  "header_enc h = to_le 2 (header_packet_id h) @ to_le 8 (header_sender_id h) @ replicate 8 0"

lemma length_header_enc [simp, len_simps]: "length (header_enc h) = HEADER_SIZE"
  by (simp add: header_enc_def HEADER_SIZE_def)

lemma header_read_Inr_iff:
  "header_read bs = Inr (h, r) \<longleftrightarrow>
     (\<exists>padding. length padding = 8 \<and>
        bs = to_le 2 (header_packet_id h) @ to_le 8 (header_sender_id h) @ padding @ r)"
  by (cases h)
    (auto simp: header_read_def and_then_Inr_iff read_iff_primitives read_exact_Inr_iff)

interpretation header: codec header_enc "\<lambda>_. True" "\<lambda>w h. header_write h w" header_read
proof unfold_locales
  fix h :: header and w r bs
  show "header_write h w = Inr (w @ header_enc h)"
    by (simp add: header_write_def write_all_def header_enc_def)
  show "header_read (header_enc h @ r) = Inr (h, r)"
    by (simp add: header_read_Inr_iff header_enc_def)
  show "\<exists>p. bs = p @ r" if "header_read bs = Inr (h, r)"
    using that by (auto simp: header_read_Inr_iff)
qed simp

section \<open>What the packets write\<close>

text \<open>The hexadecimal text that the \<open>hex\<close> crate gives for some bytes.\<close>

definition hex_of :: "crates \<Rightarrow> bytes \<Rightarrow> bytes" where
  "hex_of D d = (case hex_encode_to_slice D d (length d * 2) of Inr h \<Rightarrow> h | Inl e \<Rightarrow> [])"

definition response_text :: "crates \<Rightarrow> bytes \<Rightarrow> bytes" where
  "response_text D d = concat (map (hex_of D) (chunks 512 d))"

fun packet_enc :: "crates \<Rightarrow> packet \<Rightarrow> bytes" where
  "packet_enc D RequestPacket = []"
| "packet_enc D (ResponsePacket d) =
     to_le 4 (word_of_nat (2 * length d) :: u32) @ response_text D d"
| "packet_enc D (MessagePacket rid data) = to_le 8 rid @ enc_bytes_u32 (as_bytes data)"

text \<open>The packets that can be read back: text in UTF-8, and not above the length limit.\<close>

fun packet_ok :: "packet \<Rightarrow> bool" where
  "packet_ok RequestPacket \<longleftrightarrow> True"
| "packet_ok (ResponsePacket d) \<longleftrightarrow> 2 * length d \<le> MAX_BYTES"
| "packet_ok (MessagePacket _ data) \<longleftrightarrow> valid_str data \<and> length data \<le> MAX_BYTES"

fun packet_size :: "packet \<Rightarrow> nat" where
  "packet_size RequestPacket = 0"
| "packet_size (ResponsePacket d) = 4 + 2 * length d"
| "packet_size (MessagePacket _ data) = 12 + length data"

lemma hex_ok_encode:
  assumes "hex_ok D"
  shows "hex_encode_to_slice D d (length d * 2) = Inr (hex_of D d)"
    and "length (hex_of D d) = 2 * length d"
    and "hex_decode D r = Inr x \<Longrightarrow> hex_decode D (hex_of D d @ r) = Inr (d @ x)"
proof -
  from assms obtain h where h: "hex_encode_to_slice D d (2 * length d) = Inr h" "length h = 2 * length d"
    "\<forall>r x. hex_decode D r = Inr x \<longrightarrow> hex_decode D (h @ r) = Inr (d @ x)"
    unfolding hex_ok_def by blast
  then have "hex_of D d = h" by (simp add: hex_of_def mult.commute)
  with h show "hex_encode_to_slice D d (length d * 2) = Inr (hex_of D d)"
    "length (hex_of D d) = 2 * length d"
    "hex_decode D r = Inr x \<Longrightarrow> hex_decode D (hex_of D d @ r) = Inr (d @ x)"
    by (simp_all add: mult.commute)
qed

lemma response_write_chunks_eq:
  "hex_ok D \<Longrightarrow> response_write_chunks D cs w = Inr (w @ concat (map (hex_of D) cs))"
  by (induction cs arbitrary: w) (simp_all add: hex_ok_encode(1) write_all_def)

lemma length_hex_concat:
  "hex_ok D \<Longrightarrow> length (concat (map (hex_of D) cs)) = 2 * length (concat cs)"
  by (induction cs) (simp_all add: hex_ok_encode(2))

lemma length_response_text [len_simps]: "hex_ok D \<Longrightarrow> length (response_text D d) = 2 * length d"
  by (simp add: response_text_def length_hex_concat)

lemma hex_decode_concat:
  "hex_ok D \<Longrightarrow> hex_decode D (concat (map (hex_of D) cs)) = Inr (concat cs)"
proof (induction cs)
  case Nil
  then show ?case by (simp add: hex_ok_def)
next
  case (Cons c cs)
  then show ?case by (simp add: hex_ok_encode(3))
qed

lemma hex_decode_response_text: "hex_ok D \<Longrightarrow> hex_decode D (response_text D d) = Inr d"
  by (simp add: response_text_def hex_decode_concat)

lemma length_packet_enc [len_simps]: "hex_ok D \<Longrightarrow> length (packet_enc D p) = packet_size p"
  by (cases p) (simp_all add: length_response_text)

text \<open>Only a message above the limit cannot be written.\<close>

lemma packet_write_eq:
  assumes "hex_ok D"
  shows "packet_write D p w =
    (case p of
       MessagePacket _ data \<Rightarrow>
         if length data > MAX_BYTES then lift_io (write_bytes_u32 [] (as_bytes data))
         else Inr (w @ packet_enc D p)
     | _ \<Rightarrow> Inr (w @ packet_enc D p))"
  using assms
  by (cases p)
    (simp_all add: request_write_def response_write_def message_packet_write_def
      response_write_chunks_eq response_text_def write_bytes_u32_eq mult.commute)

lemma read_response_enc:
  assumes "hex_ok D" and "2 * length d \<le> MAX_BYTES"
  shows "response_read D (packet_enc D (ResponsePacket d) @ r) = Inr (ResponsePacket d, r)"
proof -
  have "packet_enc D (ResponsePacket d) = enc_bytes_u32 (response_text D d)"
    using assms by (simp add: enc_bytes_u32_def length_response_text)
  with assms show ?thesis
    by (simp add: response_read_def bytes32.read_enc length_response_text hex_decode_response_text
        del: packet_enc.simps)
qed

interpretation packets: roundtrip_codec "packet_enc D"
  "\<lambda>p. hex_ok D \<and> packet_ok p \<and> packet_id p = pid" "\<lambda>w p. packet_write D p w" "packet_read D pid"
proof unfold_locales
  fix p w r
  assume p: "hex_ok D \<and> packet_ok p \<and> packet_id p = pid"
  then show "packet_write D p w = Inr (w @ packet_enc D p)"
    using packet_write_eq [of D p w] by (cases p) (auto simp del: packet_write.simps)
  show "packet_read D pid (packet_enc D p @ r) = Inr (p, r)"
  proof (cases p)
    case RequestPacket
    with p show ?thesis by (auto simp: packet_read_def request_read_def)
  next
    case (ResponsePacket d)
    with p show ?thesis
      by (auto simp: packet_read_def packet_ids read_response_enc simp del: packet_enc.simps)
  next
    case (MessagePacket rid data)
    with p show ?thesis
      by (auto simp: packet_read_def packet_ids message_packet_read_def bytes32.read_enc
          from_utf8_as_bytes)
  qed
qed

text \<open>What a message packet that was read looks like.\<close>

lemma message_packet_read_Inr_iff:
  "message_packet_read bs = Inr (p, r) \<longleftrightarrow>
     (\<exists>rid data. p = MessagePacket rid data \<and> valid_str data \<and> length data \<le> MAX_BYTES \<and>
        bs = to_le 8 rid @ enc_bytes_u32 (as_bytes data) @ r)"
proof
  assume "message_packet_read bs = Inr (p, r)"
  then obtain rid db where "p = MessagePacket rid (str_of_bytes db)" "utf8_valid db"
    "length db \<le> MAX_BYTES" "bs = to_le 8 rid @ enc_bytes_u32 db @ r"
    by (auto simp: message_packet_read_def and_then_Inr_iff read_iff_primitives bytes32.read_Inr_iff)
  then show "\<exists>rid data. p = MessagePacket rid data \<and> valid_str data \<and> length data \<le> MAX_BYTES \<and>
      bs = to_le 8 rid @ enc_bytes_u32 (as_bytes data) @ r"
    by (intro exI [of _ rid] exI [of _ "str_of_bytes db"]) simp
next
  assume "\<exists>rid data. p = MessagePacket rid data \<and> valid_str data \<and> length data \<le> MAX_BYTES \<and>
      bs = to_le 8 rid @ enc_bytes_u32 (as_bytes data) @ r"
  then show "message_packet_read bs = Inr (p, r)"
    by (auto simp: message_packet_read_def bytes32.read_enc from_utf8_as_bytes)
qed

lemma packet_read_id: "packet_read D pid bs = Inr (p, r) \<Longrightarrow> packet_id p = pid"
  by (auto simp: packet_read_def request_read_def response_read_def message_packet_read_Inr_iff
      and_then_Inr_iff split: if_splits)

lemma packet_read_known: "packet_read D pid bs = Inr (p, r) \<Longrightarrow> pid \<in> {0, 1, 2}"
  by (auto simp: packet_read_def packet_ids split: if_splits)

end
