(* ===== verification/Discovery.thy ===== *)
theory Discovery
  imports Packets
begin

text \<open>
  Marshalling of discovery packets (src/src/protocol/packet/discovery/packet.rs): \<open>marshal\<close>
  writes length, header and body, computes the checksum and encrypts; \<open>unmarshal\<close> decrypts,
  verifies and parses. The lemmas: the exact result of \<open>marshal\<close> on every packet, what an
  accepted datagram looks like, the round trip, the sizes, and authenticity.
\<close>

section \<open>Marshalling\<close>

definition discovery_marshal :: "crates \<Rightarrow> packet \<Rightarrow> u64 \<Rightarrow> bytes res" where
  "discovery_marshal D packet sender_id =
     (let buf = replicate 32 0 @ replicate 2 0;
          header = \<lparr>header_packet_id = packet_id packet, header_sender_id = sender_id\<rparr>
      in
      and_then (header_write header buf) (\<lambda>buf.
      and_then (packet_write D packet buf) (\<lambda>buf.
        let total_len = length buf in
        if total_len - 32 > 65535 then Inl (MessageTooLarge (total_len - 32))
        else
          let data_len = (word_of_nat (total_len - 32 - 2) :: u16);
              buf = take 32 buf @ to_le 2 data_len @ drop 34 buf;
              checksum = compute_checksum D (drop 32 buf);
              buf = checksum @ drop 32 buf;
              payload = drop 32 buf;
              buf = take 32 buf
          in and_then (encrypt D payload) (\<lambda>payload. Inr (buf @ payload)))))"

section \<open>Unmarshalling\<close>

definition trailing_error :: "nat \<Rightarrow> nat \<Rightarrow> nethernet_error" where
  "trailing_error remaining payload_len =
     Other (''trailing data in packet: '' @ show_nat remaining @ '' remaining bytes out of '' @
       show_nat payload_len @ '' total payload bytes'')"

definition discovery_unmarshal :: "crates \<Rightarrow> bytes \<Rightarrow> (packet \<times> u64) res" where
  "discovery_unmarshal D data =
     (if length data < 32 then Inl (Other ''packet too short'')
      else
        let checksum = take 32 data in
        and_then (decrypt D (drop 32 data)) (\<lambda>payload.
          if \<not> verify_checksum D payload checksum then Inl (Other ''checksum mismatch'')
          else
            and_then (lift_io (u16le_read payload)) (\<lambda>(len, r).
            and_then (header_read r) (\<lambda>(header, r).
            and_then (packet_read D (header_packet_id header) r) (\<lambda>(packet, r).
              if length r > 0 then Inl (trailing_error (length r) (length payload))
              else Inr (packet, header_sender_id header))))))"

section \<open>What marshalling gives\<close>

definition packet_header :: "packet \<Rightarrow> u64 \<Rightarrow> header" where
  "packet_header p sid = \<lparr>header_packet_id = packet_id p, header_sender_id = sid\<rparr>"

definition plaintext :: "crates \<Rightarrow> packet \<Rightarrow> u64 \<Rightarrow> bytes" where
  "plaintext D p sid =
     to_le 2 (word_of_nat (18 + packet_size p) :: u16) @ header_enc (packet_header p sid) @ packet_enc D p"

definition ciphertext :: "crates \<Rightarrow> bytes \<Rightarrow> bytes" where
  "ciphertext D m = encrypt_blocks D (pkcs7_pad m)"

lemma length_plaintext [len_simps]: "hex_ok D \<Longrightarrow> length (plaintext D p sid) = 20 + packet_size p"
  by (simp add: plaintext_def length_packet_enc HEADER_SIZE_def)

lemma length_ciphertext [len_simps]: "aes_ok D \<Longrightarrow> length (ciphertext D m) = 16 * (length m div 16 + 1)"
  by (rule length_encrypt [where D = D]) (simp_all add: encrypt_def ciphertext_def)

lemma decrypt_ciphertext: "aes_ok D \<Longrightarrow> decrypt D (ciphertext D m) = Inr m"
  by (rule decrypt_encrypt) (simp_all add: encrypt_def ciphertext_def)

definition within_limit :: "packet \<Rightarrow> bool" where
  "within_limit p = (case p of MessagePacket _ data \<Rightarrow> length data \<le> MAX_BYTES | _ \<Rightarrow> True)"

lemma packet_write_within_limit:
  "hex_ok D \<Longrightarrow> within_limit p \<Longrightarrow> packet_write D p w = Inr (w @ packet_enc D p)"
  using packet_write_eq [of D p w] by (cases p) (auto simp: within_limit_def simp del: packet_write.simps)

lemma marshal_eq:
  assumes "hex_ok D" and "hmac_ok D" and "within_limit p"
  shows "discovery_marshal D p sid =
    (if 20 + packet_size p > 65535 then Inl (MessageTooLarge (20 + packet_size p))
     else Inr (compute_checksum D (plaintext D p sid) @ ciphertext D (plaintext D p sid)))"
proof -
  let ?zero = "replicate 32 (0 :: u8) @ replicate 2 0"
  have head: "header_write (packet_header p sid) ?zero = Inr (?zero @ header_enc (packet_header p sid))"
    by (rule header.write_ok) simp
  have body: "packet_write D p (?zero @ header_enc (packet_header p sid)) =
      Inr (?zero @ header_enc (packet_header p sid) @ packet_enc D p)"
    using packet_write_within_limit [OF assms(1,3)] by simp
  show ?thesis
    using assms head body length_checksum [OF assms(2), of "plaintext D p sid"]
    by (simp add: discovery_marshal_def packet_header_def [symmetric] plaintext_def encrypt_def
        ciphertext_def length_packet_enc HEADER_SIZE_def Let_def)
qed

lemma marshal_message_over_limit:
  "hex_ok D \<Longrightarrow> \<not> within_limit p \<Longrightarrow> \<exists>e. discovery_marshal D p sid = Inl (Io e)"
  by (cases p)
    (auto simp: within_limit_def discovery_marshal_def header.write_ok message_packet_write_def
      write_bytes_u32_eq)

lemma marshal_InrD:
  assumes "hex_ok D" and "hmac_ok D" and "discovery_marshal D p sid = Inr bs"
  shows "within_limit p \<and> 20 + packet_size p \<le> 65535 \<and>
    bs = compute_checksum D (plaintext D p sid) @ ciphertext D (plaintext D p sid)"
proof -
  have lim: "within_limit p"
    using assms marshal_message_over_limit [OF assms(1), of p sid] by auto
  with assms(3) marshal_eq [OF assms(1,2) lim, of sid] show ?thesis
    by (auto split: if_splits)
qed

section \<open>What unmarshalling accepts\<close>

text \<open>The text of a packet is a Rust string.\<close>

fun packet_text_ok :: "packet \<Rightarrow> bool" where
  "packet_text_ok (MessagePacket _ data) \<longleftrightarrow> valid_str data"
| "packet_text_ok _ \<longleftrightarrow> True"

lemma packet_ok_small: "packet_text_ok p \<Longrightarrow> 20 + packet_size p \<le> 65535 \<Longrightarrow> packet_ok p"
  by (cases p) (simp_all add: MAX_BYTES_eq)

text \<open>Parsing of a decrypted payload.\<close>

definition parse_payload :: "crates \<Rightarrow> bytes \<Rightarrow> (packet \<times> u64) res" where
  "parse_payload D payload =
     and_then (lift_io (u16le_read payload)) (\<lambda>(len, r).
     and_then (header_read r) (\<lambda>(header, r).
     and_then (packet_read D (header_packet_id header) r) (\<lambda>(packet, r).
       if length r > 0 then Inl (trailing_error (length r) (length payload))
       else Inr (packet, header_sender_id header))))"

lemma unmarshal_parse:
  "discovery_unmarshal D data =
     (if length data < 32 then Inl (Other ''packet too short'')
      else
        and_then (decrypt D (drop 32 data)) (\<lambda>payload.
          if \<not> verify_checksum D payload (take 32 data) then Inl (Other ''checksum mismatch'')
          else parse_payload D payload))"
  by (simp only: discovery_unmarshal_def parse_payload_def Let_def)

lemma unmarshal_append:
  "length c = 32 \<Longrightarrow>
   discovery_unmarshal D (c @ body) =
     and_then (decrypt D body) (\<lambda>payload.
       if \<not> verify_checksum D payload c then Inl (Other ''checksum mismatch'')
       else parse_payload D payload)"
  by (simp add: unmarshal_parse)

lemma parse_payload_Inr_iff:
  "parse_payload D payload = Inr (p, sid) \<longleftrightarrow>
     (\<exists>len padding body. length padding = 8 \<and>
        payload = to_le 2 (len :: u16) @ to_le 2 (packet_id p) @ to_le 8 sid @ padding @ body \<and>
        packet_read D (packet_id p) body = Inr (p, []))"
proof
  assume "parse_payload D payload = Inr (p, sid)"
  then obtain len r h r' where *: "payload = to_le 2 (len :: u16) @ r" "header_read r = Inr (h, r')"
    "packet_read D (header_packet_id h) r' = Inr (p, [])" "header_sender_id h = sid"
    by (auto simp: parse_payload_def and_then_Inr_iff u16c.read_Inr_iff split: if_splits)
  moreover have "packet_id p = header_packet_id h"
    using *(3) by (rule packet_read_id)
  ultimately show "\<exists>len padding body. length padding = 8 \<and>
      payload = to_le 2 (len :: u16) @ to_le 2 (packet_id p) @ to_le 8 sid @ padding @ body \<and>
      packet_read D (packet_id p) body = Inr (p, [])"
    by (auto simp: header_read_Inr_iff)
next
  assume "\<exists>len padding body. length padding = 8 \<and>
      payload = to_le 2 (len :: u16) @ to_le 2 (packet_id p) @ to_le 8 sid @ padding @ body \<and>
      packet_read D (packet_id p) body = Inr (p, [])"
  then obtain len padding body where *: "length padding = 8"
    "payload = to_le 2 (len :: u16) @ to_le 2 (packet_id p) @ to_le 8 sid @ padding @ body"
    "packet_read D (packet_id p) body = Inr (p, [])" by blast
  then have "header_read (to_le 2 (packet_id p) @ to_le 8 sid @ padding @ body) =
      Inr (packet_header p sid, body)"
    by (simp add: header_read_Inr_iff packet_header_def)
  with * show "parse_payload D payload = Inr (p, sid)"
    by (simp add: parse_payload_def packet_header_def)
qed

lemma parse_plaintext:
  assumes "hex_ok D" and "packet_ok p"
  shows "parse_payload D (plaintext D p sid) = Inr (p, sid)"
  unfolding parse_payload_Inr_iff plaintext_def header_enc_def packet_header_def
  using packets.read_enc [of D p "packet_id p" "[]"] assms
  by (intro exI [of _ "word_of_nat (18 + packet_size p)"] exI [of _ "replicate 8 0"]
      exI [of _ "packet_enc D p"]) simp

lemma unmarshal_marshal [codec_simps]:
  assumes "crates_ok D" and "packet_text_ok p" and "discovery_marshal D p sid = Inr bs"
  shows "discovery_unmarshal D bs = Inr (p, sid)"
proof -
  from assms(1) have D: "hex_ok D" "hmac_ok D" "aes_ok D" by (simp_all add: crates_ok_def)
  from marshal_InrD [OF D(1,2) assms(3)] have size: "20 + packet_size p \<le> 65535"
    and bs: "bs = compute_checksum D (plaintext D p sid) @ ciphertext D (plaintext D p sid)"
    by simp_all
  have "parse_payload D (plaintext D p sid) = Inr (p, sid)"
    using D(1) packet_ok_small [OF assms(2) size] by (rule parse_plaintext)
  then show ?thesis
    by (simp add: bs unmarshal_append length_checksum [OF D(2)] decrypt_ciphertext [OF D(3)]
        verify_checksum_iff [OF D(2)])
qed

section \<open>Properties\<close>

text \<open>C16: A packet that was marshalled is unmarshalled to the same packet and sender, for every
  packet and sender, whatever the cryptographic primitives are as long as they keep their laws.\<close>

theorem discovery_roundtrip:
  assumes "crates_ok D" and "packet_text_ok p" and "discovery_marshal D p sid = Inr bs"
  shows "discovery_unmarshal D bs = Inr (p, sid)"
  using assms by (rule unmarshal_marshal)

theorem discovery_roundtrip_witness:
  "\<exists>bs. discovery_marshal demo_crates (MessagePacket 5 ''Ping'') 9 = Inr bs \<and>
     discovery_unmarshal demo_crates bs = Inr (MessagePacket 5 ''Ping'', 9)"
proof -
  have "hex_ok demo_crates" "hmac_ok demo_crates"
    using demo_crates_ok by (simp_all add: crates_ok_def)
  then obtain bs where bs: "discovery_marshal demo_crates (MessagePacket 5 ''Ping'') 9 = Inr bs"
    by (simp add: marshal_eq within_limit_def MAX_BYTES_eq)
  have "packet_text_ok (MessagePacket 5 ''Ping'')" by code_simp
  from discovery_roundtrip [OF demo_crates_ok this bs] bs show ?thesis by blast
qed



text \<open>The documented limit of 65535 bytes is not that of the encoded packet: a message packet
  whose text has 65503 bytes is encoded, into 65568 bytes.\<close>

theorem marshal_exceeds_documented_limit:
  assumes "crates_ok D" and "length data = 65503"
  shows "\<exists>bs. discovery_marshal D (MessagePacket rid data) sid = Inr bs \<and> length bs = 65568"
proof -
  from assms(1) have D: "hex_ok D" "hmac_ok D" "aes_ok D" by (simp_all add: crates_ok_def)
  have "within_limit (MessagePacket rid data)"
    using assms(2) by (simp add: within_limit_def MAX_BYTES_eq)
  from marshal_eq [OF D(1,2) this, of sid] D assms(2) show ?thesis
    by (simp add: length_checksum length_ciphertext length_plaintext)
qed

theorem marshal_exceeds_documented_limit_witness:
  "\<exists>bs. discovery_marshal demo_crates (MessagePacket 1 (replicate 65503 CHR ''x'')) 2 = Inr bs \<and>
     length bs = 65568"
  by (rule marshal_exceeds_documented_limit [OF demo_crates_ok]) (rule length_replicate)

text \<open>C17: Only authentic datagrams are accepted: the first 32 bytes are the checksum of the
  decrypted payload, which is a length word, a header with a known packet id and the sender, 8
  ignored bytes and a body that is read to its last byte. With any other 32 bytes in front the
  same datagram is refused.\<close>

theorem unmarshal_authentic:
  assumes "hmac_ok D" and "discovery_unmarshal D bs = Inr (p, sid)"
  shows "(\<exists>payload len padding body.
      decrypt D (drop 32 bs) = Inr payload \<and> take 32 bs = compute_checksum D payload \<and>
      payload = to_le 2 (len :: u16) @ to_le 2 (packet_id p) @ to_le 8 sid @ padding @ body \<and>
      length padding = 8 \<and> packet_read D (packet_id p) body = Inr (p, [])) \<and>
    (length c = 32 \<and> c \<noteq> take 32 bs \<longrightarrow>
      discovery_unmarshal D (c @ drop 32 bs) = Inl (Other ''checksum mismatch''))"
proof -
  from assms(2) obtain payload where *: "decrypt D (drop 32 bs) = Inr payload"
    "verify_checksum D payload (take 32 bs)" "parse_payload D payload = Inr (p, sid)"
    by (auto simp: unmarshal_parse and_then_Inr_iff split: if_splits)
  then have sum: "take 32 bs = compute_checksum D payload"
    using assms(1) by (simp add: verify_checksum_iff)
  with * assms(1) show ?thesis
    unfolding parse_payload_Inr_iff by (auto simp: unmarshal_append verify_checksum_iff)
qed

theorem unmarshal_authentic_witness:
  "\<exists>bs c. discovery_marshal demo_crates RequestPacket 9 = Inr bs \<and>
     c = map (\<lambda>b. b + 1) (take 32 bs) \<and>
     discovery_unmarshal demo_crates (c @ drop 32 bs) = Inl (Other ''checksum mismatch'')"
proof -
  have D: "hex_ok demo_crates" "hmac_ok demo_crates"
    using demo_crates_ok by (simp_all add: crates_ok_def)
  then obtain bs where bs: "discovery_marshal demo_crates RequestPacket 9 = Inr bs"
    by (simp add: marshal_eq within_limit_def)
  then have ok: "discovery_unmarshal demo_crates bs = Inr (RequestPacket, 9)"
    by (intro unmarshal_marshal [OF demo_crates_ok]) simp_all
  then have "32 \<le> length bs"
    by (auto simp: unmarshal_parse split: if_splits)
  then have "map (\<lambda>b. b + 1) (take 32 bs) \<noteq> take 32 bs" by (cases bs) auto
  with unmarshal_authentic [OF D(2) ok, of "map (\<lambda>b. b + 1) (take 32 bs)"] bs \<open>32 \<le> length bs\<close>
  show ?thesis by simp
qed

end
