(* ===== verification/Effects.thy ===== *)
theory Effects
  imports Errors
begin

text \<open>
  What the stateful components ask of code outside the repository: the WebRTC objects (data
  channels, peer connection, sleeping) and the bounded channel of tokio. Both are parameters,
  records of the operations the code calls. An operation of the WebRTC side takes and returns
  the world \<open>'w\<close> it acts on; an operation of a channel takes and returns the channel.
  The documented laws the theorems rest on are \<open>mpsc_ok\<close> and \<open>wire_ok\<close>; the demonstration
  instances at the end keep them.
\<close>

section \<open>Polling\<close>

text \<open>\<open>std::task::Poll\<close>: an awaited operation is ready with a value or has to wait.\<close>

datatype 'a poll = Pending | Ready 'a

definition poll_map :: "('a \<Rightarrow> 'b) \<Rightarrow> 'a poll \<Rightarrow> 'b poll" where
  "poll_map f p = (case p of Pending \<Rightarrow> Pending | Ready x \<Rightarrow> Ready (f x))"

lemma poll_map_simps [simp]:
  "poll_map f Pending = Pending"
  "poll_map f (Ready x) = Ready (f x)"
  by (simp_all add: poll_map_def)

lemma poll_map_eq_iff [simp]:
  "poll_map f p = Pending \<longleftrightarrow> p = Pending"
  "poll_map f p = Ready y \<longleftrightarrow> (\<exists>x. p = Ready x \<and> y = f x)"
  by (cases p; auto)+

section \<open>WebRTC\<close>

text \<open>The states of \<open>RTCIceConnectionState\<close> the code names, and the others.\<close>

datatype ice_state = IceConnected | IceCompleted | IceFailed | IceDisconnected | IceClosed | IceOther

record ('w, 'ch, 'pc) rtc =
  dc_send :: "'ch \<Rightarrow> bytes \<Rightarrow> 'w \<Rightarrow> (string + unit) \<times> 'w"
  dc_close :: "'ch \<Rightarrow> 'w \<Rightarrow> (string + unit) \<times> 'w"
  pc_close :: "'pc \<Rightarrow> 'w \<Rightarrow> (string + unit) \<times> 'w"
  ice_connection_state :: "'pc \<Rightarrow> 'w \<Rightarrow> ice_state"
  sleep_ms :: "nat \<Rightarrow> 'w \<Rightarrow> 'w"

text \<open>
  The documented behaviour of a data channel that is reliable and ordered: \<open>wire ch w\<close> is what
  was sent over \<open>ch\<close>, and a send that succeeds adds its message at the end.
\<close>

definition wire_ok :: "('w, 'ch, 'pc) rtc \<Rightarrow> ('ch \<Rightarrow> 'w \<Rightarrow> bytes list) \<Rightarrow> bool" where
  "wire_ok R wire \<longleftrightarrow>
     (\<forall>ch b w w'. dc_send R ch b w = (Inr (), w') \<longrightarrow> wire ch w' = wire ch w @ [b])"

lemma wire_okD: "wire_ok R wire \<Longrightarrow> dc_send R ch b w = (Inr (), w') \<Longrightarrow> wire ch w' = wire ch w @ [b]"
  unfolding wire_ok_def by blast

text \<open>Also when a send fails its message is there whole or not at all.\<close>

definition wire_whole :: "('w, 'ch, 'pc) rtc \<Rightarrow> ('ch \<Rightarrow> 'w \<Rightarrow> bytes list) \<Rightarrow> bool" where
  "wire_whole R wire \<longleftrightarrow> wire_ok R wire \<and>
     (\<forall>ch b w e w'. dc_send R ch b w = (Inl e, w') \<longrightarrow> wire ch w' \<in> {wire ch w, wire ch w @ [b]})"

lemma wire_wholeD:
  assumes "wire_whole R wire"
  shows "wire_ok R wire"
    and "dc_send R ch b w = (Inl e, w') \<Longrightarrow> wire ch w' = wire ch w \<or> wire ch w' = wire ch w @ [b]"
  using assms unfolding wire_whole_def by blast+

text \<open>
  The same operations as futures that are polled: \<open>Pending\<close> means to call again. \<open>polled_wire_ok\<close>
  is the behaviour of the reliable and ordered channel for them: a message is on the wire when
  its send completes, and not before.
\<close>

record ('w, 'ch, 'pc) polled_rtc =
  poll_dc_send :: "'ch \<Rightarrow> bytes \<Rightarrow> 'w \<Rightarrow> (string + unit) poll \<times> 'w"
  poll_dc_close :: "'ch \<Rightarrow> 'w \<Rightarrow> (string + unit) poll \<times> 'w"
  poll_pc_close :: "'pc \<Rightarrow> 'w \<Rightarrow> (string + unit) poll \<times> 'w"

definition polled_wire_ok :: "('w, 'ch, 'pc) polled_rtc \<Rightarrow> ('ch \<Rightarrow> 'w \<Rightarrow> bytes list) \<Rightarrow> bool" where
  "polled_wire_ok P wire \<longleftrightarrow>
     (\<forall>ch b w w'. poll_dc_send P ch b w = (Ready (Inr ()), w') \<longrightarrow> wire ch w' = wire ch w @ [b]) \<and>
     (\<forall>ch b w w'. poll_dc_send P ch b w = (Pending, w') \<longrightarrow> wire ch w' = wire ch w) \<and>
     (\<forall>c ch w. wire c (snd (poll_dc_close P ch w)) = wire c w) \<and>
     (\<forall>c pc w. wire c (snd (poll_pc_close P pc w)) = wire c w)"

lemma polled_wire_okD:
  assumes "polled_wire_ok P wire"
  shows "poll_dc_send P ch b w = (Ready (Inr ()), w') \<Longrightarrow> wire ch w' = wire ch w @ [b]"
    and "poll_dc_send P ch b w = (Pending, w') \<Longrightarrow> wire ch w' = wire ch w"
    and "poll_dc_close P ch w = (r, w') \<Longrightarrow> wire c w' = wire c w"
    and "poll_pc_close P pc w = (r, w') \<Longrightarrow> wire c w' = wire c w"
  using assms unfolding polled_wire_ok_def by (metis snd_conv)+

definition polled_wire_whole :: "('w, 'ch, 'pc) polled_rtc \<Rightarrow> ('ch \<Rightarrow> 'w \<Rightarrow> bytes list) \<Rightarrow> bool" where
  "polled_wire_whole P wire \<longleftrightarrow> polled_wire_ok P wire \<and>
     (\<forall>ch b w e w'. poll_dc_send P ch b w = (Ready (Inl e), w') \<longrightarrow>
        wire ch w' \<in> {wire ch w, wire ch w @ [b]})"

lemma polled_wire_wholeD:
  assumes "polled_wire_whole P wire"
  shows "polled_wire_ok P wire"
    and "poll_dc_send P ch b w = (Ready (Inl e), w') \<Longrightarrow> wire ch w' = wire ch w \<or> wire ch w' = wire ch w @ [b]"
  using assms unfolding polled_wire_whole_def by blast+

section \<open>The bounded channel\<close>

text \<open>
  \<open>tokio::sync::mpsc\<close>: \<open>mpsc_send\<close> waits for room and fails only when the receiver is gone;
  \<open>mpsc_recv\<close> waits for a message while a sender is alive.
\<close>

record ('q, 'a) mpsc =
  mpsc_channel :: "usize \<Rightarrow> 'q run"
  mpsc_send :: "'q \<Rightarrow> 'a \<Rightarrow> (('a + unit) \<times> 'q) poll"
  mpsc_recv :: "'q \<Rightarrow> ('a option \<times> 'q) poll"

text \<open>
  Its documented behaviour while both ends are alive: a queue with at most \<open>cap\<close> messages,
  where a capacity of 0 panics, and one above \<open>Semaphore::MAX_PERMITS\<close> (\<open>usize::MAX >> 3\<close>).
\<close>

definition MAX_PERMITS :: usize where
  "MAX_PERMITS = 2 ^ 61 - 1"

definition mpsc_ok :: "('q, 'a) mpsc \<Rightarrow> ('q \<Rightarrow> 'a list) \<Rightarrow> ('q \<Rightarrow> nat) \<Rightarrow> bool" where
  "mpsc_ok M queued cap \<longleftrightarrow>
     (\<forall>n. if n = 0 \<or> MAX_PERMITS < n then mpsc_channel M n = Panic
        else \<exists>q. mpsc_channel M n = Ran q \<and> queued q = [] \<and> cap q = n) \<and>
     (\<forall>q x. if length (queued q) < cap q
        then \<exists>q'. mpsc_send M q x = Ready (Inr (), q') \<and> queued q' = queued q @ [x] \<and> cap q' = cap q
        else mpsc_send M q x = Pending) \<and>
     (\<forall>q. queued q = [] \<longrightarrow> mpsc_recv M q = Pending) \<and>
     (\<forall>q x xs. queued q = x # xs \<longrightarrow>
        (\<exists>q'. mpsc_recv M q = Ready (Some x, q') \<and> queued q' = xs \<and> cap q' = cap q))"

lemma mpsc_channel_Ran:
  assumes "mpsc_ok M queued cap" and "mpsc_channel M n = Ran q"
  shows "queued q = []" and "cap q = n" and "0 < n"
  using assms unfolding mpsc_ok_def by (metis run.distinct(1) run.inject neq0_conv)+

lemma mpsc_channel_pos:
  assumes "mpsc_ok M queued cap" and "0 < n" and "n \<le> MAX_PERMITS"
  obtains q where "mpsc_channel M n = Ran q" and "queued q = []" and "cap q = n"
  using assms unfolding mpsc_ok_def by (metis not_less not_less_zero)

lemma mpsc_send_room:
  assumes "mpsc_ok M queued cap" and "length (queued q) < cap q"
  obtains q' where "mpsc_send M q x = Ready (Inr (), q')" and "queued q' = queued q @ [x]" and "cap q' = cap q"
  using assms unfolding mpsc_ok_def by meson

lemma mpsc_send_full:
  "mpsc_ok M queued cap \<Longrightarrow> cap q \<le> length (queued q) \<Longrightarrow> mpsc_send M q x = Pending"
  unfolding mpsc_ok_def by (meson not_less)

lemma mpsc_recv_empty: "mpsc_ok M queued cap \<Longrightarrow> queued q = [] \<Longrightarrow> mpsc_recv M q = Pending"
  by (simp add: mpsc_ok_def)

lemma mpsc_recv_some:
  assumes "mpsc_ok M queued cap" and "queued q = x # xs"
  obtains q' where "mpsc_recv M q = Ready (Some x, q')" and "queued q' = xs" and "cap q' = cap q"
  using assms unfolding mpsc_ok_def by blast

section \<open>Instances\<close>

text \<open>A channel as a list with its capacity.\<close>

definition list_mpsc :: "('a list \<times> nat, 'a) mpsc" where
  "list_mpsc = \<lparr>
     mpsc_channel = (\<lambda>n. if n = 0 \<or> MAX_PERMITS < n then Panic else Ran ([], n)),
     mpsc_send = (\<lambda>(xs, n) x. if length xs < n then Ready (Inr (), (xs @ [x], n)) else Pending),
     mpsc_recv = (\<lambda>(xs, n). case xs of [] \<Rightarrow> Pending | x # xs \<Rightarrow> Ready (Some x, (xs, n)))\<rparr>"

lemma list_mpsc_ok: "mpsc_ok list_mpsc fst snd"
  by (auto simp: mpsc_ok_def list_mpsc_def split: list.split)

text \<open>
  A world that logs what is sent over each of two channels, where closing succeeds and the
  connection is established after a number of sleeps.
\<close>

record demo_world =
  sent_frames :: "(bool \<times> bytes) list"
  closed_objects :: "bool option list"
  waits_left :: nat

definition demo_rtc :: "(demo_world, bool, unit) rtc" where
  "demo_rtc = \<lparr>
     dc_send = (\<lambda>ch b w. (Inr (), w\<lparr>sent_frames := sent_frames w @ [(ch, b)]\<rparr>)),
     dc_close = (\<lambda>ch w. (Inr (), w\<lparr>closed_objects := closed_objects w @ [Some ch]\<rparr>)),
     pc_close = (\<lambda>_ w. (Inr (), w\<lparr>closed_objects := closed_objects w @ [None]\<rparr>)),
     ice_connection_state = (\<lambda>_ w. if waits_left w = 0 then IceConnected else IceOther),
     sleep_ms = (\<lambda>_ w. w\<lparr>waits_left := waits_left w - 1\<rparr>)\<rparr>"

definition demo_wire :: "bool \<Rightarrow> demo_world \<Rightarrow> bytes list" where
  "demo_wire ch w = map snd (filter (\<lambda>(c, _). c = ch) (sent_frames w))"

definition demo_world :: "nat \<Rightarrow> demo_world" where
  "demo_world n = \<lparr>sent_frames = [], closed_objects = [], waits_left = n\<rparr>"

lemma demo_wire_ok: "wire_ok demo_rtc demo_wire"
  by (auto simp: wire_ok_def demo_rtc_def demo_wire_def)

lemma demo_wire_whole: "wire_whole demo_rtc demo_wire"
  by (simp add: wire_whole_def demo_wire_ok) (simp add: demo_rtc_def)

text \<open>A polled channel that is busy on every other poll.\<close>

record lazy_world =
  busy :: bool
  lazy_frames :: "bytes list"

definition lazy_rtc :: "(lazy_world, bool, unit) polled_rtc" where
  "lazy_rtc = \<lparr>
     poll_dc_send = (\<lambda>ch b w. if busy w then (Pending, w\<lparr>busy := False\<rparr>)
       else (Ready (Inr ()), w\<lparr>busy := True, lazy_frames := lazy_frames w @ [b]\<rparr>)),
     poll_dc_close = (\<lambda>ch w. if busy w then (Pending, w\<lparr>busy := False\<rparr>) else (Ready (Inr ()), w)),
     poll_pc_close = (\<lambda>_ w. (Ready (Inr ()), w))\<rparr>"

lemma lazy_rtc_ok: "polled_wire_ok lazy_rtc (\<lambda>_. lazy_frames)"
  by (auto simp: polled_wire_ok_def lazy_rtc_def split: if_splits)

lemma lazy_rtc_whole: "polled_wire_whole lazy_rtc (\<lambda>_. lazy_frames)"
  by (simp add: polled_wire_whole_def lazy_rtc_ok) (simp add: lazy_rtc_def)

end
