(* ===== verification/Session.thy ===== *)
theory Session
  imports Segments Effects
begin

text \<open>
  A WebRTC session (src/src/session/mod.rs): the record of its state, one function for each
  method, and the step relation of a running session, in which the handler of incoming frames,
  the callers of \<open>recv\<close> and a caller of \<open>close\<close> interleave. The mutexes are not modelled here: each
  protects one field for the length of one expression. The one of the receiver is held while
  \<open>recv\<close> waits, so that of several callers only the first can take a message; theory Recv_Lock has
  that lock. Here any caller that waits may be the one. Logging is left out.
\<close>

section \<open>State\<close>

text \<open>Both ends of the packet channel are in the session, so the channel never closes.\<close>

record ('ch, 'pc, 'q) session =
  peer_connection :: 'pc
  reliable_channel :: "'ch option"
  unreliable_channel :: "'ch option"
  message_buffer :: message
  packet_channel :: 'q
  closed :: bool

definition session_with_capacity ::
    "('q, bytes) mpsc \<Rightarrow> 'pc \<Rightarrow> usize \<Rightarrow> ('ch, 'pc, 'q) session run" where
  "session_with_capacity M pc capacity =
     run_bind (mpsc_channel M capacity) (\<lambda>q.
       Ran \<lparr>peer_connection = pc, reliable_channel = None, unreliable_channel = None,
         message_buffer = message_new, packet_channel = q, closed = False\<rparr>)"

definition session_new :: "('q, bytes) mpsc \<Rightarrow> 'pc \<Rightarrow> ('ch, 'pc, 'q) session run" where
  "session_new M pc = session_with_capacity M pc DEFAULT_PACKET_CHANNEL_CAPACITY"

definition set_reliable_channel :: "('ch, 'pc, 'q) session \<Rightarrow> 'ch \<Rightarrow> ('ch, 'pc, 'q) session" where
  "set_reliable_channel s ch = s\<lparr>reliable_channel := Some ch\<rparr>"

definition set_unreliable_channel :: "('ch, 'pc, 'q) session \<Rightarrow> 'ch \<Rightarrow> ('ch, 'pc, 'q) session" where
  "set_unreliable_channel s ch = s\<lparr>unreliable_channel := Some ch\<rparr>"

definition is_fully_connected :: "('ch, 'pc, 'q) session \<Rightarrow> bool" where
  "is_fully_connected s =
     (if reliable_channel s = None then False else unreliable_channel s \<noteq> None)"

section \<open>Incoming frames\<close>

text \<open>
  The handler of the reliable channel. The first function is everything up to the send on the
  packet channel, and returns the message to be sent; the second is the awaited send.
\<close>

definition session_on_message ::
    "bool \<Rightarrow> ('ch, 'pc, 'q) session \<Rightarrow> bytes \<Rightarrow> (bytes option \<times> ('ch, 'pc, 'q) session) run" where
  "session_on_message dbg s data =
     (case segment_decode data of
        Inr segment \<Rightarrow>
          run_bind (add_segment dbg (message_buffer s) segment) (\<lambda>(result, buf).
            let s = s\<lparr>message_buffer := buf\<rparr> in
            case result of
              Inr (Some complete_msg) \<Rightarrow> Ran (Some complete_msg, s)
            | Inr None \<Rightarrow> Ran (None, s)
            | Inl e \<Rightarrow> Ran (None, s))
      | Inl e \<Rightarrow> Ran (None, s))"

definition session_forward ::
    "('q, bytes) mpsc \<Rightarrow> ('ch, 'pc, 'q) session \<Rightarrow> bytes \<Rightarrow> ('ch, 'pc, 'q) session poll" where
  "session_forward M s msg =
     poll_map (\<lambda>(_, q). s\<lparr>packet_channel := q\<rparr>) (mpsc_send M (packet_channel s) msg)"

section \<open>Sending\<close>

text \<open>
  \<open>send\<close> up to its loop: the check, the channel, and the segments. What is left is the sending of the
  segments, here as calls that are awaited; theory Stream polls it.
\<close>

definition send_prepare ::
    "bool \<Rightarrow> ('ch, 'pc, 'q) session \<Rightarrow> bytes \<Rightarrow> ('ch \<times> message_segment list) res run" where
  "send_prepare dbg s data =
     (if closed s then Ran (Inl ConnectionClosed)
      else
        case ok_or (DataChannel ''Reliable channel not set'') (reliable_channel s) of
          Inl e \<Rightarrow> Ran (Inl e)
        | Inr channel \<Rightarrow>
            run_bind (split_into_segments dbg data) (\<lambda>r.
              Ran (case r of Inl e \<Rightarrow> Inl e | Inr segments \<Rightarrow> Inr (channel, segments))))"

primrec send_segments ::
    "('w, 'ch, 'pc) rtc \<Rightarrow> 'ch \<Rightarrow> message_segment list \<Rightarrow> 'w \<Rightarrow> unit res \<times> 'w" where
  "send_segments R ch [] w = (Inr (), w)"
| "send_segments R ch (segment # segments) w =
     (case dc_send R ch (segment_encode segment) w of
        (Inl e, w) \<Rightarrow> (Inl (DataChannel e), w)
      | (Inr _, w) \<Rightarrow> send_segments R ch segments w)"

definition session_send ::
    "bool \<Rightarrow> ('w, 'ch, 'pc) rtc \<Rightarrow> ('ch, 'pc, 'q) session \<Rightarrow> bytes \<Rightarrow> 'w \<Rightarrow> (unit res \<times> 'w) run" where
  "session_send dbg R s data w =
     run_bind (send_prepare dbg s data) (\<lambda>r.
       case r of
         Inl e \<Rightarrow> Ran (Inl e, w)
       | Inr (channel, segments) \<Rightarrow> Ran (send_segments R channel segments w))"

section \<open>Receiving\<close>

text \<open>
  \<open>recv\<close> looks at the closed flag once, on entry; what follows waits on the packet channel.
\<close>

definition session_recv_wait ::
    "('q, bytes) mpsc \<Rightarrow> ('ch, 'pc, 'q) session \<Rightarrow> (bytes option res \<times> ('ch, 'pc, 'q) session) poll" where
  "session_recv_wait M s =
     poll_map (\<lambda>(x, q). (Inr x, s\<lparr>packet_channel := q\<rparr>)) (mpsc_recv M (packet_channel s))"

definition session_recv ::
    "('q, bytes) mpsc \<Rightarrow> ('ch, 'pc, 'q) session \<Rightarrow> (bytes option res \<times> ('ch, 'pc, 'q) session) poll" where
  "session_recv M s = (if closed s then Ready (Inr None, s) else session_recv_wait M s)"

section \<open>Closing\<close>

text \<open>The result of closing a data channel is ignored.\<close>

definition close_channel :: "('w, 'ch, 'pc) rtc \<Rightarrow> 'ch option \<Rightarrow> 'w \<Rightarrow> 'w" where
  "close_channel R ch w = (case ch of None \<Rightarrow> w | Some channel \<Rightarrow> snd (dc_close R channel w))"

definition session_close ::
    "('w, 'ch, 'pc) rtc \<Rightarrow> ('ch, 'pc, 'q) session \<Rightarrow> 'w \<Rightarrow> unit res \<times> ('ch, 'pc, 'q) session \<times> 'w" where
  "session_close R s w =
     (if closed s then (Inr (), s, w)
      else
        let s = s\<lparr>closed := True\<rparr>;
            w = close_channel R (reliable_channel s) w;
            w = close_channel R (unreliable_channel s) w;
            (r, w) = pc_close R (peer_connection s) w
        in (map_err WebRtc r, s, w))"

section \<open>Waiting for the connection\<close>

definition connection_state :: "('w, 'ch, 'pc) rtc \<Rightarrow> ('ch, 'pc, 'q) session \<Rightarrow> 'w \<Rightarrow> ice_state" where
  "connection_state R s w = ice_connection_state R (peer_connection s) w"

primrec wait_attempts ::
    "('w, 'ch, 'pc) rtc \<Rightarrow> ('ch, 'pc, 'q) session \<Rightarrow> nat \<Rightarrow> 'w \<Rightarrow> unit res \<times> 'w" where
  "wait_attempts R s 0 w = (Inl Timeout, w)"
| "wait_attempts R s (Suc n) w =
     (case connection_state R s w of
        IceConnected \<Rightarrow> (Inr (), w)
      | IceCompleted \<Rightarrow> (Inr (), w)
      | IceFailed \<Rightarrow> (Inl ConnectionClosed, w)
      | IceDisconnected \<Rightarrow> (Inl ConnectionClosed, w)
      | IceClosed \<Rightarrow> (Inl ConnectionClosed, w)
      | IceOther \<Rightarrow> wait_attempts R s n (sleep_ms R 100 w))"

definition max_attempts :: "u64 option \<Rightarrow> u64" where
  "max_attempts timeout_ms =
     (let timeout = (case timeout_ms of None \<Rightarrow> 5000 | Some t \<Rightarrow> t) in max (timeout div 100) 1)"

definition wait_for_connection ::
    "('w, 'ch, 'pc) rtc \<Rightarrow> ('ch, 'pc, 'q) session \<Rightarrow> u64 option \<Rightarrow> 'w \<Rightarrow> unit res \<times> 'w" where
  "wait_for_connection R s timeout_ms w = wait_attempts R s (unat (max_attempts timeout_ms)) w"

section \<open>What a frame does to the receiver\<close>

text \<open>The frames of a message, and the receiver as a function on the accumulator alone.\<close>

definition session_frames :: "bool \<Rightarrow> bytes \<Rightarrow> bytes list option" where
  "session_frames dbg d =
     (if d = [] then None else map_option (map segment_encode) (cut_segments dbg d))"

definition frame_step :: "bool \<Rightarrow> message run \<Rightarrow> bytes \<Rightarrow> bytes list \<times> message run" where
  "frame_step dbg m frame =
     (case segment_decode frame of Inl _ \<Rightarrow> ([], m) | Inr segment \<Rightarrow> assemble_step dbg m segment)"

lemma frame_step_Panic [simp]: "frame_step dbg Panic f = ([], Panic)"
  by (simp add: frame_step_def split: sum.split)

lemma run_frame_step:
  "\<forall>s \<in> set segs. seg_data s \<noteq> [] \<Longrightarrow>
   run_steps (frame_step dbg) m (map segment_encode segs) = run_steps (assemble_step dbg) m segs"
  by (induction segs arbitrary: m) (simp_all add: frame_step_def segment_decode_encode)

lemma spec_segments_nonempty: "d \<noteq> [] \<Longrightarrow> s \<in> set (spec_segments d) \<Longrightarrow> seg_data s \<noteq> []"
  using spec_segments_data [of s d] by simp

interpretation frames: framing "session_frames dbg" "frame_step dbg'" "\<lambda>m. m = Ran message_new"
  by unfold_locales
    (auto simp: session_frames_def cut_segments_eq run_frame_step spec_segments_nonempty
      assemble_spec_segments split: if_splits)

text \<open>The handler is one step of the receiver.\<close>

lemma session_on_message_eq:
  "session_on_message dbg s data =
     (case frame_step dbg (Ran (message_buffer s)) data of
        (out, Panic) \<Rightarrow> Panic
      | (out, Ran m) \<Rightarrow> Ran (if out = [] then None else Some (hd out), s\<lparr>message_buffer := m\<rparr>))"
  by (auto simp: session_on_message_def frame_step_def Let_def run_bind_def
      split: sum.split run.split option.split prod.split)

lemma frame_step_short: "\<exists>x m'. frame_step dbg m f = ([], m') \<or> frame_step dbg m f = ([x], m')"
  by (cases m) (auto simp: frame_step_def split: sum.split run.split option.split prod.split)

section \<open>A running session\<close>

text \<open>
  The handler processes one frame after the other and may wait for room in the packet channel;
  a panic in it ends the processing of frames. The frames are those of one channel: a channel that
  is set later replaces it for sending, and the handler stays. \<open>waiting\<close> counts the calls of \<open>recv\<close> that have
  passed the check of the closed flag. The last two fields are history: the frames that came in
  and the messages handed to callers of \<open>recv\<close>.
\<close>

datatype handler = Idle | Sending bytes | Crashed

primrec in_handler :: "handler \<Rightarrow> bytes list" where
  "in_handler Idle = []"
| "in_handler (Sending d) = [d]"
| "in_handler Crashed = []"

record ('ch, 'pc, 'q) running =
  sess :: "('ch, 'pc, 'q) session"
  handler :: handler
  waiting :: nat
  frames_in :: "bytes list"
  received :: "bytes list"

definition running_start :: "('ch, 'pc, 'q) session \<Rightarrow> ('ch, 'pc, 'q) running" where
  "running_start s = \<lparr>sess = s, handler = Idle, waiting = 0, frames_in = [], received = []\<rparr>"

definition handler_after :: "bytes option \<Rightarrow> handler" where
  "handler_after out = (case out of None \<Rightarrow> Idle | Some d \<Rightarrow> Sending d)"

inductive session_step ::
    "bool \<Rightarrow> ('w, 'ch, 'pc) rtc \<Rightarrow> ('q, bytes) mpsc \<Rightarrow>
     ('ch, 'pc, 'q) running \<Rightarrow> ('ch, 'pc, 'q) running \<Rightarrow> bool"
  for dbg R M where
  Frame: "handler x = Idle \<Longrightarrow> session_on_message dbg (sess x) data = Ran (out, s) \<Longrightarrow>
    session_step dbg R M x
      (x\<lparr>sess := s, handler := handler_after out, frames_in := frames_in x @ [data]\<rparr>)"
| Frame_Panic: "handler x = Idle \<Longrightarrow> session_on_message dbg (sess x) data = Panic \<Longrightarrow>
    session_step dbg R M x (x\<lparr>handler := Crashed, frames_in := frames_in x @ [data]\<rparr>)"
| Forward: "handler x = Sending d \<Longrightarrow> session_forward M (sess x) d = Ready s \<Longrightarrow>
    session_step dbg R M x (x\<lparr>sess := s, handler := Idle\<rparr>)"
| Recv_Enter: "\<not> closed (sess x) \<Longrightarrow> session_step dbg R M x (x\<lparr>waiting := Suc (waiting x)\<rparr>)"
| Recv_Take: "waiting x = Suc k \<Longrightarrow> session_recv_wait M (sess x) = Ready (Inr (Some d), s) \<Longrightarrow>
    session_step dbg R M x
      (x\<lparr>sess := s, waiting := k, received := received x @ [d]\<rparr>)"
| Recv_Cancel: "waiting x = Suc k \<Longrightarrow> session_step dbg R M x (x\<lparr>waiting := k\<rparr>)"
| Set_Reliable: "session_step dbg R M x (x\<lparr>sess := set_reliable_channel (sess x) ch\<rparr>)"
| Set_Unreliable: "session_step dbg R M x (x\<lparr>sess := set_unreliable_channel (sess x) ch\<rparr>)"
| Close: "session_close R (sess x) w = (r, s, w') \<Longrightarrow> session_step dbg R M x (x\<lparr>sess := s\<rparr>)"

text \<open>What closing leaves alone.\<close>

lemma session_close_keeps:
  assumes "session_close R s w = (r, s', w')"
  shows "s' = s\<lparr>closed := True\<rparr>"
  using assms by (cases s) (auto simp: session_close_def Let_def split: if_splits prod.splits)

text \<open>What the handler and the calls of \<open>recv\<close> leave alone.\<close>

lemma session_ops_channel:
  "session_on_message dbg s data = Ran (out, s') \<Longrightarrow> reliable_channel s' = reliable_channel s"
  "session_forward M s d = Ready s' \<Longrightarrow> reliable_channel s' = reliable_channel s"
  "session_recv M s = Ready (r, s') \<Longrightarrow> reliable_channel s' = reliable_channel s"
  by (auto simp: session_on_message_eq session_forward_def session_recv_def session_recv_wait_def
      split: prod.splits run.splits if_splits)

lemma session_ops_closed:
  "session_on_message dbg s data = Ran (out, s') \<Longrightarrow> closed s' = closed s"
  "session_forward M s d = Ready s' \<Longrightarrow> closed s' = closed s"
  by (auto simp: session_on_message_eq session_forward_def split: prod.splits run.splits)

text \<open>
  The invariant: what the receiver makes of the frames, in order, is what callers got, then what
  is queued, then what the handler still has to send; and the queue keeps its capacity.
\<close>

definition accumulator :: "('ch, 'pc, 'q) running \<Rightarrow> message run" where
  "accumulator x = (if handler x = Crashed then Panic else Ran (message_buffer (sess x)))"

definition session_inv ::
    "bool \<Rightarrow> ('q \<Rightarrow> bytes list) \<Rightarrow> ('q \<Rightarrow> nat) \<Rightarrow> nat \<Rightarrow> ('ch, 'pc, 'q) running \<Rightarrow> bool" where
  "session_inv dbg queued cap n x \<longleftrightarrow>
     run_steps (frame_step dbg) (Ran message_new) (frames_in x) =
       (received x @ queued (packet_channel (sess x)) @ in_handler (handler x), accumulator x) \<and>
     length (queued (packet_channel (sess x))) \<le> n \<and> cap (packet_channel (sess x)) = n"

lemma session_inv_start:
  assumes "mpsc_ok M queued cap" and "session_with_capacity M pc n = Ran s"
  shows "session_inv dbg queued cap n (running_start s)"
  using assms mpsc_channel_Ran [OF assms(1)]
  by (auto simp: session_with_capacity_def run_bind_Ran_iff session_inv_def running_start_def accumulator_def)

lemma frame_inv:
  assumes "session_inv dbg queued cap n x" and "handler x = Idle"
    and "session_on_message dbg (sess x) data = Ran (out, s)"
  shows "session_inv dbg queued cap n
    (x\<lparr>sess := s, handler := handler_after out, frames_in := frames_in x @ [data]\<rparr>)"
proof -
  from assms(3) obtain outs m where fs: "frame_step dbg (Ran (message_buffer (sess x))) data = (outs, Ran m)"
    and out: "out = (if outs = [] then None else Some (hd outs))" and s: "s = sess x\<lparr>message_buffer := m\<rparr>"
    by (auto simp: session_on_message_eq split: prod.splits run.splits)
  have "in_handler (handler_after out) = outs"
    using frame_step_short [of dbg "Ran (message_buffer (sess x))" data] fs out
    by (auto simp: handler_after_def)
  moreover have "handler_after out \<noteq> Crashed"
    by (simp add: handler_after_def split: option.split)
  ultimately show ?thesis
    using assms(1,2) fs s by (simp add: session_inv_def run_steps_append accumulator_def)
qed

lemma frame_panic_inv:
  assumes "session_inv dbg queued cap n x" and "handler x = Idle"
    and "session_on_message dbg (sess x) data = Panic"
  shows "session_inv dbg queued cap n (x\<lparr>handler := Crashed, frames_in := frames_in x @ [data]\<rparr>)"
proof -
  from assms(3) have "frame_step dbg (Ran (message_buffer (sess x))) data = ([], Panic)"
    using frame_step_short [of dbg "Ran (message_buffer (sess x))" data]
    by (auto simp: session_on_message_eq frame_step_def split: prod.splits run.splits sum.splits option.splits)
  with assms(1,2) show ?thesis by (simp add: session_inv_def run_steps_append accumulator_def)
qed

lemma forward_inv:
  assumes "mpsc_ok M queued cap" and "session_inv dbg queued cap n x" and "handler x = Sending d"
    and "session_forward M (sess x) d = Ready s"
  shows "session_inv dbg queued cap n (x\<lparr>sess := s, handler := Idle\<rparr>)"
proof -
  let ?q = "packet_channel (sess x)"
  from assms(4) have "mpsc_send M ?q d \<noteq> Pending" by (auto simp: session_forward_def)
  with assms(1) have room: "length (queued ?q) < cap ?q"
    using mpsc_send_full [OF assms(1), of ?q d] by fastforce
  then obtain q' where "mpsc_send M ?q d = Ready (Inr (), q')" "queued q' = queued ?q @ [d]" "cap q' = cap ?q"
    using assms(1) by (blast elim: mpsc_send_room)
  with assms(2,3,4) room show ?thesis
    by (auto simp: session_inv_def session_forward_def accumulator_def)
qed

lemma take_inv:
  assumes "mpsc_ok M queued cap" and "session_inv dbg queued cap n x"
    and "session_recv_wait M (sess x) = Ready (Inr (Some d), s)"
  shows "session_inv dbg queued cap n
    (x\<lparr>sess := s, waiting := k, received := received x @ [d]\<rparr>)"
proof -
  let ?q = "packet_channel (sess x)"
  from assms(3) have "mpsc_recv M ?q \<noteq> Pending" by (auto simp: session_recv_wait_def)
  with assms(1) obtain e xs where "queued ?q = e # xs"
    using mpsc_recv_empty [OF assms(1), of ?q] by (cases "queued ?q") auto
  moreover from this assms(1) obtain q' where "mpsc_recv M ?q = Ready (Some e, q')" "queued q' = xs" "cap q' = cap ?q"
    by (blast elim: mpsc_recv_some)
  ultimately show ?thesis
    using assms(2,3) by (auto simp: session_inv_def session_recv_wait_def accumulator_def)
qed

lemma session_step_inv:
  assumes "mpsc_ok M queued cap" and "session_step dbg R M x y" and "session_inv dbg queued cap n x"
  shows "session_inv dbg queued cap n y"
  using assms(2,3)
proof cases
  case (Close w r s w')
  then show ?thesis using assms(3) by (auto simp: session_inv_def accumulator_def dest: session_close_keeps)
next
  case Frame
  then show ?thesis using assms(3) by (auto intro: frame_inv)
next
  case Frame_Panic
  then show ?thesis using assms(3) by (auto intro: frame_panic_inv)
next
  case Forward
  then show ?thesis using assms(3) by (auto intro: forward_inv [OF assms(1)])
next
  case Recv_Take
  then show ?thesis using assms(3) by (auto intro: take_inv [OF assms(1)])
qed (auto simp: session_inv_def accumulator_def set_reliable_channel_def set_unreliable_channel_def)

lemma session_reach_inv:
  assumes "mpsc_ok M queued cap" and "session_with_capacity M pc n = Ran s"
    and "(session_step dbg R M)\<^sup>*\<^sup>* (running_start s) x"
  shows "session_inv dbg queued cap n x"
  using assms(3)
  by induction (auto intro: session_inv_start [OF assms(1,2)] session_step_inv [OF assms(1)])

section \<open>Nothing gets stuck\<close>

text \<open>Entering \<open>recv\<close>, and taking a message there.\<close>

lemma take_steps:
  assumes "session_recv_wait M (sess x) = Ready (Inr (Some d), s)" and "\<not> closed (sess x)"
  shows "(session_step dbg R M)\<^sup>*\<^sup>* x (x\<lparr>sess := s, received := received x @ [d]\<rparr>)"
proof -
  let ?y = "x\<lparr>waiting := Suc (waiting x)\<rparr>"
  have "session_step dbg R M x ?y" using assms(2) by (rule Recv_Enter)
  moreover have "session_step dbg R M ?y (?y\<lparr>sess := s, waiting := waiting x, received := received ?y @ [d]\<rparr>)"
    using assms(1) by (intro Recv_Take) simp_all
  ultimately show ?thesis by (auto intro: converse_rtranclp_into_rtranclp)
qed

lemma drain_queue:
  assumes M: "mpsc_ok M queued cap" and "\<not> closed (sess x)"
  shows "\<exists>y. (session_step dbg R M)\<^sup>*\<^sup>* x y \<and> frames_in y = frames_in x \<and> handler y = handler x \<and>
    queued (packet_channel (sess y)) = [] \<and> \<not> closed (sess y)"
  using assms(2)
proof (induction "queued (packet_channel (sess x))" arbitrary: x)
  case Nil
  then show ?case by (intro exI [of _ x]) simp
next
  case (Cons d ds)
  from M Cons.hyps(2) [symmetric] obtain q where
    q: "mpsc_recv M (packet_channel (sess x)) = Ready (Some d, q)" "queued q = ds" by (rule mpsc_recv_some)
  let ?y = "x\<lparr>sess := sess x\<lparr>packet_channel := q\<rparr>, received := received x @ [d]\<rparr>"
  have "(session_step dbg R M)\<^sup>*\<^sup>* x ?y"
    using q(1) Cons.prems by (intro take_steps) (simp_all add: session_recv_wait_def)
  moreover from Cons.hyps(1) [of ?y] q(2) Cons.prems obtain z where
    "(session_step dbg R M)\<^sup>*\<^sup>* ?y z" "frames_in z = frames_in x" "handler z = handler x"
    "queued (packet_channel (sess z)) = []" "\<not> closed (sess z)" by auto
  ultimately show ?case by (intro exI [of _ z]) simp
qed

lemma session_steps_inv:
  assumes "mpsc_ok M queued cap" and "session_inv dbg queued cap n x" and "(session_step dbg R M)\<^sup>*\<^sup>* x y"
  shows "session_inv dbg queued cap n y"
  using assms(3,2) by induction (auto intro: session_step_inv [OF assms(1)])

lemma drain:
  assumes M: "mpsc_ok M queued cap" and inv: "session_inv dbg queued cap n x" and "0 < n"
    and "\<not> closed (sess x)" and "handler x \<noteq> Crashed"
  shows "\<exists>y. (session_step dbg R M)\<^sup>*\<^sup>* x y \<and> frames_in y = frames_in x \<and> handler y = Idle \<and>
    queued (packet_channel (sess y)) = [] \<and> \<not> closed (sess y)"
proof -
  from drain_queue [OF M assms(4)] obtain y where y: "(session_step dbg R M)\<^sup>*\<^sup>* x y"
    "frames_in y = frames_in x" "handler y = handler x" "queued (packet_channel (sess y)) = []"
    "\<not> closed (sess y)" by blast
  show ?thesis
  proof (cases "handler x")
    case (Sending d)
    have "cap (packet_channel (sess y)) = n"
      using session_steps_inv [OF M inv y(1)] by (simp add: session_inv_def)
    with y(4) \<open>0 < n\<close> have "length (queued (packet_channel (sess y))) < cap (packet_channel (sess y))" by simp
    with M obtain q where q: "mpsc_send M (packet_channel (sess y)) d = Ready (Inr (), q)" by (rule mpsc_send_room)
    let ?z = "y\<lparr>sess := sess y\<lparr>packet_channel := q\<rparr>, handler := Idle\<rparr>"
    have "session_step dbg R M y ?z"
      using q Sending y(3) by (intro Forward) (auto simp: session_forward_def)
    moreover from drain_queue [OF M, of ?z] y(5) obtain v where "(session_step dbg R M)\<^sup>*\<^sup>* ?z v"
      "frames_in v = frames_in y" "handler v = Idle" "queued (packet_channel (sess v)) = []" "\<not> closed (sess v)"
      by auto
    ultimately show ?thesis using y(2) rtranclp_trans [OF y(1) converse_rtranclp_into_rtranclp, of ?z v]
      by (intro exI [of _ v]) simp
  qed (use y assms(5) in auto)
qed

text \<open>A panic stays one, and a release build has none.\<close>

lemma run_frame_Panic: "run_steps (frame_step dbg) Panic fs = ([], Panic)"
  by (induction fs) simp_all

lemma frames_release: "snd (run_steps (frame_step False) (Ran m) fs) \<noteq> Panic"
proof (induction fs arbitrary: m)
  case (Cons f fs)
  have "\<exists>out m'. frame_step False (Ran m) f = (out, Ran m')"
    by (auto simp: frame_step_def add_segment_eq accept_segment_def split: sum.split)
  then obtain out m' where "frame_step False (Ran m) f = (out, Ran m')" by blast
  with Cons.IH [of m'] show ?case by (cases "run_steps (frame_step False) (Ran m') fs") simp
qed simp

lemma feed:
  assumes M: "mpsc_ok M queued cap" and "session_inv dbg queued cap n x" and "\<not> closed (sess x)" and "0 < n"
    and "snd (run_steps (frame_step dbg) (Ran message_new) (frames_in x @ fs)) \<noteq> Panic"
  shows "\<exists>y. (session_step dbg R M)\<^sup>*\<^sup>* x y \<and> frames_in y = frames_in x @ fs \<and> handler y = Idle \<and>
    queued (packet_channel (sess y)) = []"
  using assms(2,3,5)
proof (induction fs arbitrary: x)
  case Nil
  have "handler x \<noteq> Crashed" using Nil by (auto simp: session_inv_def accumulator_def)
  from drain [OF M Nil(1) \<open>0 < n\<close> Nil(2) this] show ?case by (simp, blast)
next
  case (Cons f fs)
  have "handler x \<noteq> Crashed"
    using Cons.prems by (auto simp: session_inv_def accumulator_def run_steps_append run_frame_Panic split: prod.splits)
  from drain [OF M Cons.prems(1) \<open>0 < n\<close> Cons.prems(2) this] obtain y where
    y: "(session_step dbg R M)\<^sup>*\<^sup>* x y" "frames_in y = frames_in x" "handler y = Idle" "\<not> closed (sess y)" by blast
  note inv = session_steps_inv [OF M Cons.prems(1) y(1)]
  have "session_on_message dbg (sess y) f \<noteq> Panic"
    using inv Cons.prems(3) y(2,3)
    by (auto simp: session_on_message_eq session_inv_def accumulator_def run_steps_append run_frame_Panic
        split: prod.splits run.splits)
  then obtain out s where f: "session_on_message dbg (sess y) f = Ran (out, s)" by (metis run.exhaust surj_pair)
  let ?z = "y\<lparr>sess := s, handler := handler_after out, frames_in := frames_in y @ [f]\<rparr>"
  from Frame [OF y(3) f] have step: "session_step dbg R M y ?z" .
  have live: "\<not> closed (sess ?z)" using f y(4) by (auto simp: session_on_message_eq split: prod.splits run.splits)
  from Cons.IH [OF session_step_inv [OF M step inv] live] Cons.prems(3) y(2) obtain v where
    "(session_step dbg R M)\<^sup>*\<^sup>* ?z v" "frames_in v = frames_in x @ f # fs" "handler v = Idle"
    "queued (packet_channel (sess v)) = []" by auto
  with rtranclp_trans [OF y(1) converse_rtranclp_into_rtranclp, of ?z v] step show ?case
    by (intro exI [of _ v]) simp
qed

section \<open>What a sender puts on the wire\<close>

text \<open>Several messages sent one after the other, up to the first error.\<close>

primrec session_send_all ::
    "bool \<Rightarrow> ('w, 'ch, 'pc) rtc \<Rightarrow> ('ch, 'pc, 'q) session \<Rightarrow> bytes list \<Rightarrow> 'w \<Rightarrow> (unit res \<times> 'w) run" where
  "session_send_all dbg R s [] w = Ran (Inr (), w)"
| "session_send_all dbg R s (d # ds) w =
     run_bind (session_send dbg R s d w) (\<lambda>(r, w).
       case r of Inl e \<Rightarrow> Ran (Inl e, w) | Inr _ \<Rightarrow> session_send_all dbg R s ds w)"

lemma send_segments_wire:
  assumes "wire_ok R wire" and "send_segments R ch segs w = (Inr (), w')"
  shows "wire ch w' = wire ch w @ map segment_encode segs"
  using assms(2)
  by (induction segs arbitrary: w) (auto split: prod.splits sum.splits dest: wire_okD [OF assms(1)])

lemma session_send_eq:
  "session_send dbg R s data w =
     Ran (if closed s then (Inl ConnectionClosed, w)
      else case reliable_channel s of
          None \<Rightarrow> (Inl (DataChannel ''Reliable channel not set''), w)
        | Some ch \<Rightarrow>
            if MAX_SEGMENTED < length data then (Inl (MessageTooLarge (length data)), w)
            else send_segments R ch (spec_segments data) w)"
  by (auto simp: session_send_def send_prepare_def split_into_segments_eq ok_or_def split: option.split)

lemma session_send_wire:
  assumes "wire_ok R wire" and "session_send dbg R s d w = Ran (Inr (), w')"
    and "reliable_channel s = Some ch"
  shows "length d \<le> MAX_SEGMENTED \<and> wire ch w' = wire ch w @ map segment_encode (spec_segments d)"
  using assms(2,3) send_segments_wire [OF assms(1)] by (auto simp: session_send_eq split: if_splits)

lemma session_send_all_wire:
  assumes "wire_ok R wire" and "session_send_all dbg R s ds w = Ran (Inr (), w')"
    and "reliable_channel s = Some ch" and "[] \<notin> set ds"
  shows "\<exists>fss. list_all2 (\<lambda>d fs. session_frames dbg' d = Some fs) ds fss \<and>
    wire ch w' = wire ch w @ concat fss"
  using assms(2,4)
proof (induction ds arbitrary: w)
  case Nil
  then show ?case by simp
next
  case (Cons d ds)
  from Cons.prems(1) obtain r w1 where "session_send dbg R s d w = Ran (r, w1)"
    and "(case r of Inl e \<Rightarrow> Ran (Inl e, w1) | Inr _ \<Rightarrow> session_send_all dbg R s ds w1) = Ran (Inr (), w')"
    by (auto simp: run_bind_Ran_iff)
  then have "session_send dbg R s d w = Ran (Inr (), w1)"
    and rest: "session_send_all dbg R s ds w1 = Ran (Inr (), w')"
    by (cases r; simp)+
  with session_send_wire [OF assms(1) _ assms(3)] have
    "length d \<le> MAX_SEGMENTED" and "wire ch w1 = wire ch w @ map segment_encode (spec_segments d)" by blast+
  moreover from Cons.IH [OF rest] Cons.prems(2) obtain fss where
    "list_all2 (\<lambda>d fs. session_frames dbg' d = Some fs) ds fss" "wire ch w' = wire ch w1 @ concat fss"
    by auto
  ultimately show ?case
    using Cons.prems(2)
    by (intro exI [of _ "map segment_encode (spec_segments d) # fss"])
      (auto simp: session_frames_def cut_segments_eq)
qed

lemma run_frames_prefix:
  assumes "list_all2 (\<lambda>d fs. session_frames dbg d = Some fs) ds fss" and "concat fss = fs @ rest"
  shows "\<exists>more. fst (run_steps (frame_step dbg) (Ran message_new) fs) @ more = ds"
proof -
  from frames.deliver_all [OF assms(1)] obtain m where
    "run_steps (frame_step dbg) (Ran message_new) (concat fss) = (ds, m)" by blast
  then show ?thesis
    by (auto simp: assms(2) run_steps_append Let_def split: prod.splits)
qed

text \<open>What a session that is fed the frames of \<open>ds\<close> has received, queues and holds.\<close>

lemma receives_prefix:
  assumes "session_inv dbg queued cap n x"
    and fss: "list_all2 (\<lambda>d fs. session_frames dbg d = Some fs) ds fss"
    and split: "concat fss = frames_in x @ rest"
  shows "\<exists>more. received x @ queued (packet_channel (sess x)) @ in_handler (handler x) @ more = ds \<and>
    (rest = [] \<longrightarrow> more = [])"
proof -
  let ?got = "received x @ queued (packet_channel (sess x)) @ in_handler (handler x)"
  have got: "fst (run_steps (frame_step dbg) (Ran message_new) (frames_in x)) = ?got"
    using assms(1) by (simp add: session_inv_def)
  with run_frames_prefix [OF fss split] obtain more where more: "?got @ more = ds" by auto
  moreover have "more = []" if "rest = []"
    using that split got more frames.deliver_all [OF fss, of "Ran message_new" dbg] by auto
  ultimately show ?thesis by (intro exI [of _ more]) simp
qed

lemma frames_of_sendable:
  assumes "list_all (\<lambda>d. length d \<le> MAX_SEGMENTED) ds" and "[] \<notin> set ds"
  shows "list_all2 (\<lambda>d fs. session_frames dbg d = Some fs) ds
    (map (\<lambda>d. map segment_encode (spec_segments d)) ds)"
  using assms by (induction ds) (auto simp: session_frames_def cut_segments_eq)

section \<open>Waiting for the connection, at one glance\<close>

lemma wait_attempts_eq:
  "wait_attempts R s n w =
     (let states = map (\<lambda>i. connection_state R s ((sleep_ms R 100 ^^ i) w)) [0..<n];
          k = length (takeWhile (\<lambda>x. x = IceOther) states)
      in (if k = n then Inl Timeout
          else if states ! k \<in> {IceConnected, IceCompleted} then Inr () else Inl ConnectionClosed,
          (sleep_ms R 100 ^^ k) w))"
proof (induction n arbitrary: w)
  case 0
  then show ?case by simp
next
  case (Suc n)
  have states: "map (\<lambda>i. connection_state R s ((sleep_ms R 100 ^^ i) w)) [0..<Suc n] =
      connection_state R s w #
      map (\<lambda>i. connection_state R s ((sleep_ms R 100 ^^ i) (sleep_ms R 100 w))) [0..<n]"
    by (subst map_upt_Suc) (simp add: funpow_swap1)
  show ?case
  proof (cases "connection_state R s w = IceOther")
    case True
    then show ?thesis
      unfolding states by (simp add: Suc.IH Let_def funpow_swap1)
  next
    case False
    then show ?thesis
      unfolding states by (cases "connection_state R s w") simp_all
  qed
qed

section \<open>Properties\<close>

text \<open>End to end: when a session has sent the non-empty messages \<open>ds\<close> over its reliable
  channel and another session has processed some of the frames on the wire, in order, then what
  its callers received, what is queued and what its handler holds is, in this order, a prefix of
  \<open>ds\<close>, in every reachable state of that session; after the last frame it is all of \<open>ds\<close>.\<close>

theorem session_end_to_end:
  assumes "wire_ok R wire" and "mpsc_ok M queued cap"
    and "reliable_channel s = Some ch" and "[] \<notin> set ds"
    and "wire ch w = []" and "session_send_all dbg R s ds w = Ran (Inr (), w')"
    and "session_with_capacity M pc n = Ran t"
    and "(session_step dbg' R' M)\<^sup>*\<^sup>* (running_start t) x" and "wire ch w' = frames_in x @ rest"
  shows "\<exists>more. received x @ queued (packet_channel (sess x)) @ in_handler (handler x) @ more = ds \<and>
    (rest = [] \<longrightarrow> more = [])"
proof -
  from session_send_all_wire [OF assms(1,6,3,4), of dbg'] assms(5) obtain fss where
    fss: "list_all2 (\<lambda>d fs. session_frames dbg' d = Some fs) ds fss" and "wire ch w' = concat fss"
    by auto
  with assms(9) have split: "concat fss = frames_in x @ rest" by simp
  from receives_prefix [OF session_reach_inv [OF assms(2,7,8)] fss split] show ?thesis .
qed

definition demo_session :: "(bool, unit, bytes list \<times> nat) session" where
  "demo_session = \<lparr>peer_connection = (), reliable_channel = Some True, unreliable_channel = None,
     message_buffer = message_new, packet_channel = ([], 4), closed = False\<rparr>"

definition demo_receiver :: "(bool, unit, bytes list \<times> nat) running" where
  "demo_receiver = running_start (demo_session\<lparr>reliable_channel := None\<rparr>)"

lemma demo_with_capacity:
  "session_with_capacity list_mpsc () 4 = Ran (demo_session\<lparr>reliable_channel := None\<rparr>)"
  by (simp add: session_with_capacity_def list_mpsc_def demo_session_def MAX_PERMITS_def)

text \<open>One frame with the message 1, 2 is processed and a caller of \<open>recv\<close> takes the message.\<close>

lemma demo_run:
  "(session_step True demo_rtc list_mpsc)\<^sup>*\<^sup>* demo_receiver
     (demo_receiver\<lparr>frames_in := [[0, 1, 2]], received := [[1, 2]]\<rparr>)"
proof -
  let ?s = "demo_session\<lparr>reliable_channel := None\<rparr>"
  let ?q = "?s\<lparr>packet_channel := ([[1, 2]], 4)\<rparr>"
  let ?x = "\<lambda>s h k fs r. \<lparr>sess = s, handler = h, waiting = k, frames_in = fs, received = r\<rparr>"
  let ?step = "session_step True demo_rtc list_mpsc"
  have "session_on_message True ?s [0, 1, 2] = Ran (Some [1, 2], ?s)"
    by (simp add: session_on_message_eq frame_step_def segment_decode_def add_segment_eq
        accept_segment_def demo_session_def message_new_def)
  from Frame [of "?x ?s Idle 0 [] []" True, simplified, OF this, of demo_rtc list_mpsc]
  have 1: "?step (?x ?s Idle 0 [] []) (?x ?s (Sending [1, 2]) 0 [[0, 1, 2]] [])"
    by (simp add: handler_after_def)
  have 2: "?step (?x ?s (Sending [1, 2]) 0 [[0, 1, 2]] []) (?x ?q Idle 0 [[0, 1, 2]] [])"
    using Forward [of "?x ?s (Sending [1, 2]) 0 [[0, 1, 2]] []" "[1, 2]" list_mpsc ?q]
    by (simp add: session_forward_def list_mpsc_def demo_session_def)
  have 3: "?step (?x ?q Idle 0 [[0, 1, 2]] []) (?x ?q Idle 1 [[0, 1, 2]] [])"
    using Recv_Enter [of "?x ?q Idle 0 [[0, 1, 2]] []"] by (simp add: demo_session_def)
  have 4: "?step (?x ?q Idle 1 [[0, 1, 2]] []) (?x ?s Idle 0 [[0, 1, 2]] [[1, 2]])"
    using Recv_Take [of "?x ?q Idle 1 [[0, 1, 2]] []" 0 list_mpsc "[1, 2]" ?s]
    by (simp add: session_recv_wait_def list_mpsc_def demo_session_def)
  from 1 2 3 4 show ?thesis
    by (simp add: demo_receiver_def running_start_def)
qed

theorem session_end_to_end_witness:
  "\<exists>more. [[1, 2]] @ more = [[1, 2], [3 :: u8]] \<and>
     session_send_all True demo_rtc demo_session [[1, 2], [3]] (demo_world 0) =
       Ran (Inr (), (demo_world 0)\<lparr>sent_frames := [(True, [0, 1, 2]), (True, [0, 3])]\<rparr>)"
proof -
  have sent: "session_send_all True demo_rtc demo_session [[1, 2], [3]] (demo_world 0) =
      Ran (Inr (), (demo_world 0)\<lparr>sent_frames := [(True, [0, 1, 2]), (True, [0, 3])]\<rparr>)"
    by (simp add: session_send_def send_prepare_def demo_session_def ok_or_def split_into_segments_def
        MAX_MESSAGE_SIZE_def segment_encode_def segment_new_def demo_rtc_def demo_world_def)
  from session_end_to_end [OF demo_wire_ok list_mpsc_ok _ _ _ sent demo_with_capacity
      demo_run [unfolded demo_receiver_def], of True "[[0, 3]]"]
  have "\<exists>more. [[1, 2]] @ more = [[1 :: u8, 2], [3]]"
    by (auto simp: demo_session_def demo_wire_def demo_world_def running_start_def)
  with sent show ?thesis by blast
qed

text \<open>C14: In every reachable state of a running session the messages that were received, are
  queued or are held by the handler are exactly what reassembly makes of the frames that came in,
  in order, nothing lost and nothing doubled; the queue never exceeds its capacity; and without a
  panic the buffer is the accumulator of the reassembly.\<close>

theorem session_receives_exactly:
  assumes "mpsc_ok M queued cap" and "session_with_capacity M pc n = Ran s"
    and "(session_step dbg R M)\<^sup>*\<^sup>* (running_start s) x"
  shows "run_steps (frame_step dbg) (Ran message_new) (frames_in x) =
      (received x @ queued (packet_channel (sess x)) @ in_handler (handler x),
       if handler x = Crashed then Panic else Ran (message_buffer (sess x))) \<and>
    length (queued (packet_channel (sess x))) \<le> n"
  using session_reach_inv [OF assms] by (simp add: session_inv_def accumulator_def)

theorem session_receives_exactly_witness:
  "run_steps (frame_step True) (Ran message_new) [[0, 1, 2]] = ([[1, 2]], Ran message_new) \<and>
     length (fst ([] :: bytes list, 4 :: nat)) \<le> 4"
  using session_receives_exactly [OF list_mpsc_ok demo_with_capacity demo_run [unfolded demo_receiver_def]]
  by (simp add: running_start_def demo_session_def)

text \<open>C23: Nothing gets stuck: from every reachable state of a session that is not closed, further
  frames on which reassembly does not panic can be taken in and all messages handed out, by
  steps of the handler and calls of \<open>recv\<close> alone: afterwards the handler is idle, the queue is
  empty, and the callers have received everything reassembly makes of the frames. In particular
  (no further frames) what is queued or held by a handler that waits for room can always be drained,
  and in a release build there is no panic at all.\<close>

theorem session_drains:
  assumes "mpsc_ok M queued cap" and "session_with_capacity M pc n = Ran s"
    and "(session_step dbg R M)\<^sup>*\<^sup>* (running_start s) x" and "\<not> closed (sess x)"
    and "dbg \<longrightarrow> snd (run_steps (frame_step dbg) (Ran message_new) (frames_in x @ fs)) \<noteq> Panic"
  shows "\<exists>y. (session_step dbg R M)\<^sup>*\<^sup>* x y \<and> frames_in y = frames_in x @ fs \<and>
    handler y = Idle \<and> queued (packet_channel (sess y)) = [] \<and>
    received y = fst (run_steps (frame_step dbg) (Ran message_new) (frames_in x @ fs))"
proof -
  have inv: "session_inv dbg queued cap n x" by (rule session_reach_inv [OF assms(1-3)])
  have "0 < n" using assms(2) mpsc_channel_Ran(3) [OF assms(1)]
    by (auto simp: session_with_capacity_def run_bind_Ran_iff)
  have calm: "snd (run_steps (frame_step dbg) (Ran message_new) (frames_in x @ fs)) \<noteq> Panic"
    using assms(5) frames_release [of message_new "frames_in x @ fs"] by (cases dbg) auto
  from feed [OF assms(1) inv assms(4) \<open>0 < n\<close> calm] obtain y where
    y: "(session_step dbg R M)\<^sup>*\<^sup>* x y" "frames_in y = frames_in x @ fs" "handler y = Idle"
    "queued (packet_channel (sess y)) = []" by blast
  have "session_inv dbg queued cap n y"
    using inv y(1) by (rule session_steps_inv [OF assms(1)])
  with y show ?thesis by (intro exI [of _ y]) (simp add: session_inv_def)
qed

text \<open>The handler holds a message, and one more frame comes.\<close>

theorem session_drains_witness:
  "\<exists>x y. handler x = Sending [1, 2] \<and> (session_step True demo_rtc list_mpsc)\<^sup>*\<^sup>* x y \<and>
     handler y = Idle \<and> received y = [[1, 2], [3]]"
proof -
  let ?s = "demo_session\<lparr>reliable_channel := None\<rparr>"
  let ?x = "(running_start ?s)\<lparr>handler := Sending [1, 2], frames_in := [[0, 1, 2]]\<rparr>"
  have "session_on_message True ?s [0, 1, 2] = Ran (Some [1, 2], ?s)"
    by (simp add: session_on_message_eq frame_step_def segment_decode_def add_segment_eq
        accept_segment_def demo_session_def message_new_def)
  from Frame [of "running_start ?s" True, unfolded running_start_def, simplified, OF this, of demo_rtc list_mpsc]
  have "session_step True demo_rtc list_mpsc (running_start ?s) ?x"
    by (simp add: running_start_def handler_after_def)
  note reach = r_into_rtranclp [of "session_step True demo_rtc list_mpsc", OF this]
  have run: "run_steps (frame_step True) (Ran message_new) (frames_in ?x @ [[0, 3]]) = ([[1, 2], [3]], Ran message_new)"
    by (simp add: frame_step_def segment_decode_def add_segment_eq accept_segment_def message_new_def)
  have "\<not> closed (sess ?x)" by (simp add: running_start_def demo_session_def)
  from session_drains [OF list_mpsc_ok demo_with_capacity reach this, of "[[0, 3]]", unfolded run]
  obtain y where "(session_step True demo_rtc list_mpsc)\<^sup>*\<^sup>* ?x y" "handler y = Idle" "received y = [[1, 2], [3]]"
    by auto
  then show ?thesis by (intro exI [of _ ?x] exI [of _ y]) simp
qed

text \<open>What \<open>send\<close> does on every branch: a closed session and a session without reliable
  channel refuse without touching the channel, and so does a message above 2550000 bytes; any
  other message is written to the channel as its encoded segments, one after the other, up to
  the first failure, whose text is returned. It never panics.\<close>

theorem session_send_branches:
  "session_send dbg R s data w =
     Ran (if closed s then (Inl ConnectionClosed, w)
      else case reliable_channel s of
          None \<Rightarrow> (Inl (DataChannel ''Reliable channel not set''), w)
        | Some ch \<Rightarrow>
            if 2550000 < length data then (Inl (MessageTooLarge (length data)), w)
            else fold (\<lambda>frame (r, w). case r of Inl e \<Rightarrow> (Inl e, w)
              | Inr _ \<Rightarrow> (let (r, w) = dc_send R ch frame w in (map_err DataChannel r, w)))
              (map segment_encode (spec_segments data)) (Inr (), w))"
proof -
  let ?f = "\<lambda>ch frame (r, w). case r of Inl e \<Rightarrow> (Inl e, w)
    | Inr _ \<Rightarrow> (let (r, w) = dc_send R ch frame w in (map_err DataChannel r, w))"
  have stop: "fold (?f ch) fs (Inl e, w) = (Inl e, w)" for ch fs e w
    by (induction fs) simp_all
  have eq: "send_segments R ch segs w = fold (?f ch) (map segment_encode segs) (Inr (), w)" for ch segs w
    by (induction segs arbitrary: w) (auto simp: stop Let_def map_err_def split: prod.splits sum.splits)
  show ?thesis
    unfolding session_send_eq MAX_SEGMENTED_eq eq by (rule refl)
qed

text \<open>Closing marks the session for good, also when closing the peer connection fails: a
  later \<open>close\<close> does nothing, \<open>send\<close> refuses, and \<open>recv\<close> returns no message, even when complete
  messages are still queued. A \<open>recv\<close> that was already waiting is not woken by it: with an empty
  queue it goes on waiting.\<close>

theorem session_close_final:
  assumes "mpsc_ok M queued cap" and "session_close R s w = (r, s', w')"
  shows "session_close R s' v = (Inr (), s', v) \<and>
    session_send dbg R s' data v = Ran (Inl ConnectionClosed, v) \<and>
    session_recv M s' = Ready (Inr None, s') \<and>
    packet_channel s' = packet_channel s \<and> message_buffer s' = message_buffer s \<and>
    (queued (packet_channel s) = [] \<longrightarrow> session_recv_wait M s' = Pending)"
  using session_close_keeps [OF assms(2)] mpsc_recv_empty [OF assms(1)]
  by (simp add: session_close_def session_send_def send_prepare_def session_recv_def session_recv_wait_def)

theorem session_close_final_witness:
  "session_recv list_mpsc (demo_session\<lparr>closed := True, packet_channel := ([[5]], 4)\<rparr>) =
     Ready (Inr None, demo_session\<lparr>closed := True, packet_channel := ([[5]], 4)\<rparr>) \<and>
   session_recv_wait list_mpsc (demo_session\<lparr>closed := True\<rparr>) = Pending"
proof -
  have close: "session_close demo_rtc (demo_session\<lparr>packet_channel := q\<rparr>) (demo_world 0) =
      (Inr (), demo_session\<lparr>closed := True, packet_channel := q\<rparr>,
       (demo_world 0)\<lparr>closed_objects := [Some True, None]\<rparr>)" for q
    by (simp add: session_close_def demo_session_def demo_rtc_def demo_world_def close_channel_def map_err_def)
  then have "session_recv list_mpsc (demo_session\<lparr>closed := True, packet_channel := ([[5]], 4)\<rparr>) =
      Ready (Inr None, demo_session\<lparr>closed := True, packet_channel := ([[5]], 4)\<rparr>)"
    by (intro session_close_final [OF list_mpsc_ok, THEN conjunct2, THEN conjunct2, THEN conjunct1])
  moreover from this have "session_recv_wait list_mpsc (demo_session\<lparr>closed := True, packet_channel := ([], 4)\<rparr>) = Pending"
    using session_close_final [OF list_mpsc_ok close [of "([], 4)"]] by simp
  ultimately show ?thesis by (simp add: demo_session_def)
qed

text \<open>C35: \<open>wait_for_connection\<close> looks at the state of the connection every 100 ms, at least once
  and at most as often as 100 ms fit into the timeout (5 s by default), and the first state that
  is decisive settles the result: connected or completed is success, failed, disconnected or
  closed is \<open>ConnectionClosed\<close>; no decisive state is \<open>Timeout\<close>.\<close>

theorem wait_for_connection_exact:
  "wait_for_connection R s timeout_ms w =
     (let t = (case timeout_ms of None \<Rightarrow> 5000 | Some t \<Rightarrow> unat t);
          n = max 1 (t div 100);
          states = map (\<lambda>i. connection_state R s ((sleep_ms R 100 ^^ i) w)) [0..<n];
          k = length (takeWhile (\<lambda>x. x = IceOther) states)
      in (if k = n then Inl Timeout
          else if states ! k \<in> {IceConnected, IceCompleted} then Inr () else Inl ConnectionClosed,
          (sleep_ms R 100 ^^ k) w))"
proof -
  have "unat (max (t div 100) 1) = max 1 (unat t div 100)" for t :: u64
    by (simp add: max_def word_le_nat_alt unat_div)
  then have "unat (max_attempts timeout_ms) = max 1 ((case timeout_ms of None \<Rightarrow> 5000 | Some t \<Rightarrow> unat t) div 100)"
    by (simp add: max_attempts_def Let_def split: option.split)
  then show ?thesis
    unfolding wait_for_connection_def wait_attempts_eq by (simp only: Let_def)
qed

end
