(* ===== verification/Signaling.thy ===== *)
theory Signaling
  imports Signals
begin

text \<open>
  The interface between the transport and the way signals travel (the trait \<open>Signaling\<close> of
  src/src/signaling/mod.rs) as a locale: an endpoint posts a signal, which gives a datagram, and
  another endpoint takes the datagram in and hands out the signals it carried. The law: a signal
  that fits and names a reachable endpoint arrives there unchanged but for its network id, which
  names the sender, and the receiver can answer. In it: any negotiation of alternating signals
  gets through.
\<close>

text \<open>Two endpoints that send alternately; \<open>None\<close> when a signal cannot be posted. The result has
  what was handed out on both sides, in order.\<close>

fun converse_by ::
    "('s \<Rightarrow> signal \<Rightarrow> 'd option) \<Rightarrow> ('s \<Rightarrow> 'd \<Rightarrow> 's \<times> signal list) \<Rightarrow> 's \<Rightarrow> 's \<Rightarrow> signal list \<Rightarrow>
     signal list option" where
  "converse_by post take_in a b [] = Some []"
| "converse_by post take_in a b (x # xs) =
     (case post a x of
        None \<Rightarrow> None
      | Some d \<Rightarrow>
          let (b', got) = take_in b d
          in map_option (\<lambda>more. got @ more) (converse_by post take_in b' a xs))"

text \<open>The signals of a conversation between two ids, each addressed to the other side.\<close>

fun addressed :: "string \<Rightarrow> string \<Rightarrow> signal list \<Rightarrow> bool" where
  "addressed from_id to_id [] \<longleftrightarrow> True"
| "addressed from_id to_id (x # xs) \<longleftrightarrow> network_id x = to_id \<and> addressed to_id from_id xs"

text \<open>What the two sides should be handed: the same signals, named after their senders.\<close>

fun as_received :: "string \<Rightarrow> string \<Rightarrow> signal list \<Rightarrow> signal list" where
  "as_received from_id to_id [] = []"
| "as_received from_id to_id (x # xs) = x\<lparr>network_id := from_id\<rparr> # as_received to_id from_id xs"

locale signaling =
  fixes own_id :: "'s \<Rightarrow> string"
    and post :: "'s \<Rightarrow> signal \<Rightarrow> 'd option"
    and take_in :: "'s \<Rightarrow> 'd \<Rightarrow> 's \<times> signal list"
    and reachable :: "'s \<Rightarrow> 's \<Rightarrow> bool"
    and fits :: "signal \<Rightarrow> bool"
  assumes delivered: "reachable a b \<Longrightarrow> fits sig \<Longrightarrow> network_id sig = own_id b \<Longrightarrow>
      \<exists>d b'. post a sig = Some d \<and> take_in b d = (b', [sig\<lparr>network_id := own_id a\<rparr>]) \<and>
        own_id b' = own_id b \<and> reachable b' a"
begin

lemma conversation:
  assumes "reachable a b" and "list_all fits xs" and "addressed (own_id a) (own_id b) xs"
  shows "converse_by post take_in a b xs = Some (as_received (own_id a) (own_id b) xs)"
  using assms
proof (induction xs arbitrary: a b)
  case Nil
  then show ?case by simp
next
  case (Cons x xs)
  from Cons.prems delivered [of a b x] obtain d b' where
    "post a x = Some d" "take_in b d = (b', [x\<lparr>network_id := own_id a\<rparr>])"
    "own_id b' = own_id b" "reachable b' a" by auto
  with Cons.IH [of b' a] Cons.prems show ?case by simp
qed

text \<open>An answer sent to the id an offer came from gets back to where the offer was sent from.\<close>

lemma answered:
  assumes "reachable a b" and "fits offer" and "network_id offer = own_id b"
    and "fits answer" and "network_id answer = own_id a"
  shows "converse_by post take_in a b [offer, answer] =
    Some [offer\<lparr>network_id := own_id a\<rparr>, answer\<lparr>network_id := own_id b\<rparr>]"
  using conversation [of a b "[offer, answer]"] assms by simp

end

end
