(* ===== verification/Lan.thy ===== *)
theory Lan
  imports Discovery Signaling Server_Data
begin

text \<open>
  LAN signaling (src/src/signaling/lan.rs): the tables of known addresses and discovered
  servers, the handling of a datagram, the sending of a signal, the stream of incoming signals,
  and the background task as a step relation. What a datagram makes the code do outside the
  tables (datagrams sent, signals published to the subscribers) is a list of actions; the code
  ignores the results of these. An \<open>Instant\<close> is a number of nanoseconds. Logging is left out.
\<close>

section \<open>State\<close>

datatype ip_addr = V4 u32 | V6 "128 word"

record socket_addr =
  ip :: ip_addr
  port :: u16

definition IPV4_BROADCAST :: ip_addr where "IPV4_BROADCAST = V4 0xFFFFFFFF"

definition BROADCAST_INTERVAL :: nat where "BROADCAST_INTERVAL = 2 * 10 ^ 9"
definition ADDRESS_TIMEOUT :: nat where "ADDRESS_TIMEOUT = 15 * 10 ^ 9"

definition PING_TOKEN :: string where "PING_TOKEN = ''Ping''"

record address_entry =
  entry_addr :: socket_addr
  last_seen :: nat

record lan =
  own_network_id :: u64
  addresses :: "u64 \<rightharpoonup> address_entry"
  pong_data :: "server_data option"
  discovered_servers :: "u64 \<rightharpoonup> server_data"

datatype lan_action = Send_To bytes socket_addr | Publish signal

definition get_address :: "lan \<Rightarrow> u64 \<Rightarrow> socket_addr option" where
  "get_address l nid = map_option entry_addr (addresses l nid)"

definition lan_network_id :: "lan \<Rightarrow> string" where
  "lan_network_id l = u64_to_string (own_network_id l)"

definition set_pong_data :: "lan \<Rightarrow> bytes \<Rightarrow> lan" where
  "set_pong_data l data = l\<lparr>pong_data := result_ok (server_data_unmarshal data)\<rparr>"

section \<open>Handling a datagram\<close>

text \<open>One function for each kind of packet; the last argument is the state after the address
  of the sender was noted.\<close>

definition handle_request :: "crates \<Rightarrow> socket_addr \<Rightarrow> lan \<Rightarrow> unit res \<times> lan \<times> lan_action list" where
  "handle_request D addr l =
     (case pong_data l of
        Some data \<Rightarrow>
          (case and_then (server_data_marshal data)
              (\<lambda>app_data. discovery_marshal D (response_new app_data) (own_network_id l)) of
             Inl e \<Rightarrow> (Inl e, l, [])
           | Inr response_data \<Rightarrow> (Inr (), l, [Send_To response_data addr]))
      | None \<Rightarrow> (Inr (), l, []))"

definition handle_response :: "u64 \<Rightarrow> packet \<Rightarrow> lan \<Rightarrow> unit res \<times> lan \<times> lan_action list" where
  "handle_response sender_id packet l =
     (case packet of
        ResponsePacket application_data \<Rightarrow>
          (case server_data_unmarshal application_data of
             Inr server_info \<Rightarrow>
               (Inr (), l\<lparr>discovered_servers := (discovered_servers l)(sender_id \<mapsto> server_info)\<rparr>, [])
           | Inl e \<Rightarrow> (Inr (), l, []))
      | _ \<Rightarrow> (Inl (Other ''failed to downcast ResponsePacket''), l, []))"

definition handle_message :: "u64 \<Rightarrow> packet \<Rightarrow> lan \<Rightarrow> unit res \<times> lan \<times> lan_action list" where
  "handle_message sender_id packet l =
     (case packet of
        MessagePacket recipient_id data \<Rightarrow>
          if data = PING_TOKEN then (Inr (), l, [])
          else if recipient_id = own_network_id l then
            (case signal_from_string data (u64_to_string sender_id) of
               Inr signal \<Rightarrow> (Inr (), l, [Publish signal])
             | Inl e \<Rightarrow> (Inr (), l, []))
          else (Inr (), l, [])
      | _ \<Rightarrow> (Inl (Other ''failed to downcast MessagePacket''), l, []))"

definition handle_packet ::
    "crates \<Rightarrow> bytes \<Rightarrow> socket_addr \<Rightarrow> nat \<Rightarrow> lan \<Rightarrow> unit res \<times> lan \<times> lan_action list" where
  "handle_packet D data addr now l =
     (case discovery_unmarshal D data of
        Inl e \<Rightarrow> (Inr (), l, [])
      | Inr (packet, sender_id) \<Rightarrow>
          if sender_id = own_network_id l then (Inr (), l, [])
          else
            let l = l\<lparr>addresses := (addresses l)(sender_id \<mapsto> \<lparr>entry_addr = addr, last_seen = now\<rparr>)\<rparr> in
            if packet_id packet = ID_REQUEST_PACKET then handle_request D addr l
            else if packet_id packet = ID_RESPONSE_PACKET then handle_response sender_id packet l
            else if packet_id packet = ID_MESSAGE_PACKET then handle_message sender_id packet l
            else (Inr (), l, []))"

section \<open>Sending\<close>

definition send_request_data :: "crates \<Rightarrow> u64 \<Rightarrow> bytes res" where
  "send_request_data D nid = discovery_marshal D RequestPacket nid"

text \<open>The datagram of a signal and where it goes, then the sending, whose failure is returned.\<close>

definition lan_signal_datagram :: "crates \<Rightarrow> lan \<Rightarrow> signal \<Rightarrow> (bytes \<times> socket_addr) res" where
  "lan_signal_datagram D l sig =
     and_then (map_err (\<lambda>e. Other (''Invalid network ID: '' @ show_int_error e)) (parse_u64 (network_id sig)))
       (\<lambda>nid.
     and_then (ok_or (Other (''Address not found for network '' @ u64_to_string nid)) (get_address l nid))
       (\<lambda>addr.
     and_then (discovery_marshal D (message_packet_new nid (signal_fmt sig)) (own_network_id l))
       (\<lambda>data. Inr (data, addr))))"

definition lan_signal ::
    "(bytes \<Rightarrow> socket_addr \<Rightarrow> 'w \<Rightarrow> usize io_res \<times> 'w) \<Rightarrow> crates \<Rightarrow> lan \<Rightarrow> signal \<Rightarrow> 'w \<Rightarrow> unit res \<times> 'w" where
  "lan_signal send_to D l sig w =
     (case lan_signal_datagram D l sig of
        Inl e \<Rightarrow> (Inl e, w)
      | Inr (data, addr) \<Rightarrow>
          (let (r, w) = send_to data addr w in (and_then (lift_io r) (\<lambda>_. Inr ()), w)))"

section \<open>The stream of incoming signals\<close>

text \<open>What a subscriber of the broadcast channel is told, and what the stream makes of it: its
  items, and whether it has ended.\<close>

datatype recv_result = Received signal | Lagged u64 | Closed_Channel

fun signals_stream :: "recv_result list \<Rightarrow> signal list \<times> bool" where
  "signals_stream [] = ([], False)"
| "signals_stream (Received signal # rs) = (let (items, ended) = signals_stream rs in (signal # items, ended))"
| "signals_stream (Lagged n # rs) = signals_stream rs"
| "signals_stream (Closed_Channel # rs) = ([], True)"

section \<open>The background task\<close>

definition cleanup_addresses :: "nat \<Rightarrow> lan \<Rightarrow> lan" where
  "cleanup_addresses now l =
     l\<lparr>addresses := (\<lambda>k. case addresses l k of
         None \<Rightarrow> None
       | Some entry \<Rightarrow> if now - last_seen entry < ADDRESS_TIMEOUT then Some entry else None)\<rparr>"

text \<open>\<open>cancelled\<close> is the token, \<open>stopped\<close> tells that the loop has seen it. The actions are history.\<close>

record lan_task =
  lan :: lan
  broadcast_addr :: "socket_addr option"
  cancelled :: bool
  stopped :: bool
  clock :: nat
  actions :: "lan_action list"

definition lan_new :: "unit io_res \<Rightarrow> unit io_res \<Rightarrow> u64 \<Rightarrow> socket_addr \<Rightarrow> nat \<Rightarrow> lan_task res" where
  "lan_new bind set_broadcast nid bind_addr now =
     and_then (lift_io bind) (\<lambda>_.
     and_then (lift_io set_broadcast) (\<lambda>_.
       let baddr = (if port bind_addr \<noteq> LAN_DISCOVERY_PORT
             then Some \<lparr>ip = IPV4_BROADCAST, port = LAN_DISCOVERY_PORT\<rparr> else None)
       in Inr \<lparr>lan = \<lparr>own_network_id = nid, addresses = Map.empty, pong_data = None,
                 discovered_servers = Map.empty\<rparr>,
               broadcast_addr = baddr, cancelled = False, stopped = False, clock = now, actions = []\<rparr>))"

definition RECV_BUFFER :: nat where "RECV_BUFFER = 4096"

definition lan_receive :: "crates \<Rightarrow> bytes \<Rightarrow> socket_addr \<Rightarrow> lan_task \<Rightarrow> lan_task" where
  "lan_receive D datagram addr t =
     (let buf = take RECV_BUFFER datagram;
          (_, l, acts) = handle_packet D buf addr (clock t) (lan t)
      in t\<lparr>lan := l, actions := actions t @ acts\<rparr>)"

definition lan_tick :: "crates \<Rightarrow> lan_task \<Rightarrow> lan_task" where
  "lan_tick D t =
     (let t = t\<lparr>lan := cleanup_addresses (clock t) (lan t)\<rparr> in
      case broadcast_addr t of
        None \<Rightarrow> t
      | Some addr \<Rightarrow>
          (case send_request_data D (own_network_id (lan t)) of
             Inl e \<Rightarrow> t
           | Inr data \<Rightarrow> t\<lparr>actions := actions t @ [Send_To data addr]\<rparr>))"

text \<open>
  A step of the task or of what runs beside it. When the token is cancelled and a datagram is
  there at the same time, \<open>select!\<close> may still pick the datagram.
\<close>

inductive lan_step :: "crates \<Rightarrow> lan_task \<Rightarrow> lan_task \<Rightarrow> bool" for D where
  Receive: "\<not> stopped t \<Longrightarrow> lan_step D t (lan_receive D datagram addr t)"
| Tick: "\<not> stopped t \<Longrightarrow> lan_step D t (lan_tick D t)"
| Stop: "cancelled t \<Longrightarrow> lan_step D t (t\<lparr>stopped := True\<rparr>)"
| Cancel: "lan_step D t (t\<lparr>cancelled := True\<rparr>)"
| Set_Pong: "lan_step D t (t\<lparr>lan := set_pong_data (lan t) data\<rparr>)"
| Time: "clock t \<le> now \<Longrightarrow> lan_step D t (t\<lparr>clock := now\<rparr>)"

text \<open>\<open>shutdown\<close> cancels and waits for the task, which may handle what is there until it sees the
  token; dropping the instance cancels and aborts the task where it waits.\<close>

definition lan_cancel :: "lan_task \<Rightarrow> lan_task" where
  "lan_cancel t = t\<lparr>cancelled := True\<rparr>"

inductive lan_shutdown :: "crates \<Rightarrow> lan_task \<Rightarrow> lan_task \<Rightarrow> bool" for D where
  Shutdown: "(lan_step D)\<^sup>*\<^sup>* (lan_cancel t) u \<Longrightarrow> stopped u \<Longrightarrow> lan_shutdown D t u"

definition lan_drop :: "lan_task \<Rightarrow> lan_task" where
  "lan_drop t = (lan_cancel t)\<lparr>stopped := True\<rparr>"

lemma lan_drop_shutdown: "lan_shutdown D t (lan_drop t)"
proof
  have "lan_step D (lan_cancel t) (lan_drop t)"
    unfolding lan_drop_def by (rule Stop) (simp add: lan_cancel_def)
  then show "(lan_step D)\<^sup>*\<^sup>* (lan_cancel t) (lan_drop t)" by (rule r_into_rtranclp)
qed (simp add: lan_drop_def)

section \<open>Datagrams\<close>

lemma handle_packet_eq:
  "handle_packet D data addr now l =
     (case discovery_unmarshal D data of
        Inl e \<Rightarrow> (Inr (), l, [])
      | Inr (p, sid) \<Rightarrow>
          if sid = own_network_id l then (Inr (), l, [])
          else
            let l = l\<lparr>addresses := (addresses l)(sid \<mapsto> \<lparr>entry_addr = addr, last_seen = now\<rparr>)\<rparr> in
            case p of
              RequestPacket \<Rightarrow> handle_request D addr l
            | ResponsePacket _ \<Rightarrow> handle_response sid p l
            | MessagePacket _ _ \<Rightarrow> handle_message sid p l)"
  by (auto simp: handle_packet_def Let_def ID_REQUEST_PACKET_def ID_RESPONSE_PACKET_def
      ID_MESSAGE_PACKET_def split: sum.split packet.split)

lemma marshal_small:
  assumes "crates_ok D" and "within_limit p" and "20 + packet_size p \<le> 65535" and "packet_text_ok p"
  obtains bs where "discovery_marshal D p sid = Inr bs" and "discovery_unmarshal D bs = Inr (p, sid)"
    and "length bs = 32 + 16 * ((20 + packet_size p) div 16 + 1)"
proof -
  from assms(1) have D: "hex_ok D" "hmac_ok D" "aes_ok D" by (simp_all add: crates_ok_def)
  let ?bs = "compute_checksum D (plaintext D p sid) @ ciphertext D (plaintext D p sid)"
  have "discovery_marshal D p sid = Inr ?bs"
    using marshal_eq [OF D(1,2) assms(2)] assms(3) by simp
  moreover from unmarshal_marshal [OF assms(1,4) this]
  have "discovery_unmarshal D ?bs = Inr (p, sid)" .
  moreover have "length ?bs = 32 + 16 * ((20 + packet_size p) div 16 + 1)"
    using D by (simp add: length_checksum length_ciphertext length_plaintext)
  ultimately show ?thesis by (rule that)
qed

lemma parse_payload_text: "parse_payload D bs = Inr (p, sid) \<Longrightarrow> packet_text_ok p"
  unfolding parse_payload_Inr_iff
  by (cases p) (auto simp: packet_read_def message_packet_read_def and_then_Inr_iff
      request_read_def response_read_def response_new_def split: if_splits)

lemma unmarshal_text: "discovery_unmarshal D bs = Inr (p, sid) \<Longrightarrow> packet_text_ok p"
  by (auto simp: unmarshal_parse and_then_Inr_iff split: if_splits dest: parse_payload_text)

lemma length_server_data: "server_data_marshal d = Inr bs \<Longrightarrow> length bs \<le> 526"
  by (auto simp: marshal_Inr_iff server_data_enc_def length_layout encodable_def)

lemma signal_fmt_not_ping: "signal_fmt s \<noteq> PING_TOKEN"
  by (cases "signal_type s") (simp_all add: signal_fmt_def PING_TOKEN_def)

section \<open>The invariant of the task\<close>

text \<open>
  The own id is in no table, no address was seen in the future, server data is what the decoder
  accepts, and every published signal has well-formed text and names another node as its sender.
\<close>

definition good_server_data :: "server_data \<Rightarrow> bool" where
  "good_server_data d \<longleftrightarrow> encodable d \<and> valid_server_data d"

definition tables_inv :: "nat \<Rightarrow> lan \<Rightarrow> bool" where
  "tables_inv now l \<longleftrightarrow>
     addresses l (own_network_id l) = None \<and> discovered_servers l (own_network_id l) = None \<and>
     (\<forall>k e. addresses l k = Some e \<longrightarrow> last_seen e \<le> now) \<and>
     (\<forall>k d. discovered_servers l k = Some d \<longrightarrow> good_server_data d) \<and>
     (\<forall>d. pong_data l = Some d \<longrightarrow> good_server_data d)"

definition published_ok :: "u64 \<Rightarrow> lan_action \<Rightarrow> bool" where
  "published_ok own a \<longleftrightarrow>
     (case a of Publish sig \<Rightarrow> valid_signal sig \<and> (\<exists>k. k \<noteq> own \<and> network_id sig = u64_to_string k)
      | Send_To _ _ \<Rightarrow> True)"

definition lan_inv :: "lan_task \<Rightarrow> bool" where
  "lan_inv t \<longleftrightarrow> tables_inv (clock t) (lan t) \<and>
     list_all (published_ok (own_network_id (lan t))) (actions t)"

lemma good_unmarshal: "server_data_unmarshal bs = Inr d \<Longrightarrow> good_server_data d"
  using unmarshal_encodable by (simp add: good_server_data_def)

lemma handle_request_inv:
  assumes "handle_request D addr l = (r, l', acts)"
  shows "l' = l \<and> list_all (published_ok own) acts"
  using assms by (auto simp: handle_request_def published_ok_def split: option.splits sum.splits)

lemma handle_response_inv:
  assumes "tables_inv now l" and "sid \<noteq> own_network_id l"
    and "handle_response sid (ResponsePacket d) l = (r, l', acts)"
  shows "own_network_id l' = own_network_id l \<and> tables_inv now l' \<and> acts = []"
  using assms
  by (auto simp: handle_response_def tables_inv_def split: sum.splits if_splits dest: good_unmarshal)

lemma handle_message_inv:
  assumes "valid_str d" and "sid \<noteq> own_network_id l"
    and "handle_message sid (MessagePacket rid d) l = (r, l', acts)"
  shows "l' = l \<and> list_all (published_ok (own_network_id l)) acts"
proof -
  have "published_ok (own_network_id l) (Publish sig)"
    if "signal_from_string d (u64_to_string sid) = Inr sig" for sig
  proof -
    from that have "network_id sig = u64_to_string sid" by (auto simp: signal_from_string_Inr_iff)
    with assms(2) signal_from_string_valid [OF that assms(1)] show ?thesis
      by (auto simp: published_ok_def)
  qed
  with assms(3) show ?thesis by (auto simp: handle_message_def split: if_splits sum.splits)
qed

lemma note_address_inv:
  "tables_inv now l \<Longrightarrow> sid \<noteq> own_network_id l \<Longrightarrow>
   tables_inv now (l\<lparr>addresses := (addresses l)(sid \<mapsto> \<lparr>entry_addr = addr, last_seen = now\<rparr>)\<rparr>)"
  by (simp add: tables_inv_def)

lemma handle_packet_inv:
  assumes inv: "tables_inv now l" and step: "handle_packet D data addr now l = (r, l', acts)"
  shows "own_network_id l' = own_network_id l \<and> tables_inv now l' \<and>
    list_all (published_ok (own_network_id l)) acts"
proof (cases "discovery_unmarshal D data")
  case (Inl e)
  with assms show ?thesis by (auto simp: handle_packet_eq)
next
  case (Inr ps)
  obtain p sid where ps: "discovery_unmarshal D data = Inr (p, sid)" using Inr by (cases ps) auto
  show ?thesis
  proof (cases "sid = own_network_id l")
    case True
    with ps assms show ?thesis by (auto simp: handle_packet_eq)
  next
    case False
    let ?l = "l\<lparr>addresses := (addresses l)(sid \<mapsto> \<lparr>entry_addr = addr, last_seen = now\<rparr>)\<rparr>"
    have inv': "tables_inv now ?l" using inv False by (rule note_address_inv)
    have ne: "sid \<noteq> own_network_id ?l" using False by simp
    show ?thesis
    proof (cases p)
      case RequestPacket
      with ps False step inv' show ?thesis
        by (auto simp: handle_packet_eq dest!: handle_request_inv)
    next
      case (ResponsePacket d)
      with ps False step have "handle_response sid (ResponsePacket d) ?l = (r, l', acts)"
        by (simp add: handle_packet_eq)
      from handle_response_inv [OF inv' ne this] show ?thesis by simp
    next
      case (MessagePacket rid d)
      with ps False step have "handle_message sid (MessagePacket rid d) ?l = (r, l', acts)"
        by (simp add: handle_packet_eq)
      moreover have "valid_str d" using unmarshal_text [OF ps] MessagePacket by simp
      ultimately show ?thesis using handle_message_inv [OF _ ne] inv' by fastforce
    qed
  qed
qed

lemma lan_receive_inv: "lan_inv t \<Longrightarrow> lan_inv (lan_receive D datagram addr t)"
  using handle_packet_inv [of "clock t" "lan t"]
  by (auto simp: lan_inv_def lan_receive_def Let_def split: prod.split)

lemma cleanup_inv: "tables_inv now l \<Longrightarrow> tables_inv now (cleanup_addresses now l)"
  by (auto simp: tables_inv_def cleanup_addresses_def split: option.splits if_splits)

lemma cleanup_own [simp]: "own_network_id (cleanup_addresses now l) = own_network_id l"
  by (simp add: cleanup_addresses_def)

lemma lan_tick_inv: "lan_inv t \<Longrightarrow> lan_inv (lan_tick D t)"
  by (auto simp: lan_inv_def lan_tick_def Let_def cleanup_inv published_ok_def split: option.split sum.split)

lemma set_pong_inv: "tables_inv now l \<Longrightarrow> tables_inv now (set_pong_data l data)"
  by (auto simp: tables_inv_def set_pong_data_def result_ok_def split: sum.splits dest: good_unmarshal)

lemma set_pong_own [simp]: "own_network_id (set_pong_data l data) = own_network_id l"
  by (simp add: set_pong_data_def)

lemma lan_step_inv: "lan_step D t u \<Longrightarrow> lan_inv t \<Longrightarrow> lan_inv u"
proof (induction rule: lan_step.induct)
  case (Receive t datagram addr)
  then show ?case by (simp add: lan_receive_inv)
next
  case (Tick t)
  then show ?case by (simp add: lan_tick_inv)
next
  case (Set_Pong t data)
  then show ?case by (simp add: lan_inv_def set_pong_inv)
next
  case (Time t now)
  then show ?case by (auto simp: lan_inv_def tables_inv_def) (meson le_trans)
qed (simp_all add: lan_inv_def)

lemma lan_new_inv: "lan_new b sb nid baddr now = Inr t \<Longrightarrow> lan_inv t"
  by (auto simp: lan_new_def and_then_Inr_iff lan_inv_def tables_inv_def)

lemma lan_reach_inv:
  assumes "lan_new b sb nid baddr now = Inr t0" and "(lan_step D)\<^sup>*\<^sup>* t0 t"
  shows "lan_inv t"
  using assms(2) by induction (auto intro: lan_new_inv [OF assms(1)] lan_step_inv)

section \<open>LAN signaling as signaling\<close>

text \<open>
  An endpoint is a task with the crates and its own socket address; a posted signal is a datagram
  with its two addresses. The text of a signal fits when the datagram fits into the buffer the
  receiver reads into.
\<close>

definition MAX_SIGNAL_TEXT :: nat where "MAX_SIGNAL_TEXT = 4031"

type_synonym endpoint = "crates \<times> socket_addr \<times> lan_task"

fun endpoint_id :: "endpoint \<Rightarrow> string" where
  "endpoint_id (D, here, t) = lan_network_id (lan t)"

fun endpoint_post :: "endpoint \<Rightarrow> signal \<Rightarrow> (bytes \<times> socket_addr) option" where
  "endpoint_post (D, here, t) sig =
     map_option (\<lambda>(data, _). (data, here)) (result_ok (lan_signal_datagram D (lan t) sig))"

definition published :: "lan_action list \<Rightarrow> signal list" where
  "published acts = List.map_filter (\<lambda>a. case a of Publish sig \<Rightarrow> Some sig | _ \<Rightarrow> None) acts"

lemma published_simps [simp]:
  "published [] = []"
  "published (Publish sig # acts) = sig # published acts"
  "published (Send_To d a # acts) = published acts"
  by (simp_all add: published_def map_filter_simps)

fun endpoint_take_in :: "endpoint \<Rightarrow> bytes \<times> socket_addr \<Rightarrow> endpoint \<times> signal list" where
  "endpoint_take_in (D, here, t) (data, addr) =
     (let t' = lan_receive D data addr t
      in ((D, here, t'), published (drop (length (actions t)) (actions t'))))"

fun endpoint_reachable :: "endpoint \<Rightarrow> endpoint \<Rightarrow> bool" where
  "endpoint_reachable (D, here, t) (D', there, u) \<longleftrightarrow>
     D' = D \<and> crates_ok D \<and> own_network_id (lan t) \<noteq> own_network_id (lan u) \<and>
     get_address (lan t) (own_network_id (lan u)) = Some there"

definition signal_fits :: "signal \<Rightarrow> bool" where
  "signal_fits sig \<longleftrightarrow> valid_signal sig \<and> length (signal_fmt sig) \<le> MAX_SIGNAL_TEXT"

lemma MAX_BYTES_65503: "n \<le> 65503 \<Longrightarrow> n \<le> MAX_BYTES"
  by (simp add: MAX_BYTES_eq)

lemma signal_datagram:
  assumes "crates_ok D" and "valid_signal sig" and "parse_u64 (network_id sig) = Inr nid"
    and "get_address l nid = Some addr" and "length (signal_fmt sig) \<le> 65503"
  obtains data where "lan_signal_datagram D l sig = Inr (data, addr)"
    and "length data = 32 + 16 * ((32 + length (signal_fmt sig)) div 16 + 1)"
    and "discovery_unmarshal D data = Inr (MessagePacket nid (signal_fmt sig), own_network_id l)"
proof -
  let ?p = "MessagePacket nid (signal_fmt sig)"
  have "within_limit ?p"
    using assms(5) by (simp add: within_limit_def MAX_BYTES_65503)
  moreover have "20 + packet_size ?p \<le> 65535" using assms(5) by simp
  moreover have "packet_text_ok ?p" using assms(2) by (simp add: valid_signal_fmt)
  ultimately obtain data where "discovery_marshal D ?p (own_network_id l) = Inr data"
    "discovery_unmarshal D data = Inr (?p, own_network_id l)"
    "length data = 32 + 16 * ((20 + packet_size ?p) div 16 + 1)"
    using marshal_small [OF assms(1), of ?p "own_network_id l"] by blast
  with assms(3,4) show ?thesis
    by (intro that [of data])
      (simp_all add: lan_signal_datagram_def message_packet_new_def ok_or_def map_err_def add_ac)
qed

lemma datagram_fits_iff:
  "32 + 16 * ((32 + n) div 16 + 1) \<le> RECV_BUFFER \<longleftrightarrow> n \<le> MAX_SIGNAL_TEXT"
  unfolding RECV_BUFFER_def MAX_SIGNAL_TEXT_def by presburger

lemma receive_signal:
  assumes "length data \<le> RECV_BUFFER" and "own_network_id l \<noteq> own_network_id (lan u)"
    and "discovery_unmarshal D data =
      Inr (MessagePacket (own_network_id (lan u)) (signal_fmt sig), own_network_id l)"
  shows "lan_receive D data from_addr u = u\<lparr>
      lan := (lan u)\<lparr>addresses := (addresses (lan u))
        (own_network_id l \<mapsto> \<lparr>entry_addr = from_addr, last_seen = clock u\<rparr>)\<rparr>,
      actions := actions u @ [Publish (sig\<lparr>network_id := lan_network_id l\<rparr>)]\<rparr>"
  using assms
  by (simp add: lan_receive_def handle_packet_eq handle_message_def signal_fmt_not_ping
      signal_from_string_fmt lan_network_id_def)

interpretation lan: signaling endpoint_id endpoint_post endpoint_take_in endpoint_reachable signal_fits
proof unfold_locales
  fix a b :: endpoint and sig
  assume reach: "endpoint_reachable a b" and fits: "signal_fits sig" and nid: "network_id sig = endpoint_id b"
  obtain D here t there u where ab: "a = (D, here, t)" "b = (D, there, u)"
    using reach by (cases a; cases b) auto
  from reach ab have ok: "crates_ok D" and ne: "own_network_id (lan t) \<noteq> own_network_id (lan u)"
    and addr: "get_address (lan t) (own_network_id (lan u)) = Some there" by auto
  have id: "parse_u64 (network_id sig) = Inr (own_network_id (lan u))"
    using nid ab by (simp add: lan_network_id_def parse_u64_to_string)
  from fits have valid: "valid_signal sig" and short: "length (signal_fmt sig) \<le> MAX_SIGNAL_TEXT"
    by (simp_all add: signal_fits_def)
  then have "length (signal_fmt sig) \<le> 65503" by (simp add: MAX_SIGNAL_TEXT_def)
  from signal_datagram [OF ok valid id addr this] obtain data where
    data: "lan_signal_datagram D (lan t) sig = Inr (data, there)"
    "discovery_unmarshal D data =
      Inr (MessagePacket (own_network_id (lan u)) (signal_fmt sig), own_network_id (lan t))"
    and "length data = 32 + 16 * ((32 + length (signal_fmt sig)) div 16 + 1)" by blast
  with short have "length data \<le> RECV_BUFFER" by (simp only: datagram_fits_iff)
  note got = receive_signal [OF this ne data(2), of here]
  from got data(1) ok ne ab
  show "\<exists>d b'. endpoint_post a sig = Some d \<and>
      endpoint_take_in b d = (b', [sig\<lparr>network_id := endpoint_id a\<rparr>]) \<and>
      endpoint_id b' = endpoint_id b \<and> endpoint_reachable b' a"
    by (auto simp: result_ok_def get_address_def lan_network_id_def Let_def)
qed

section \<open>Answering a discovery request\<close>

lemma request_answered:
  assumes "crates_ok D" and "pong_data l = Some d" and "good_server_data d"
  obtains app resp where "server_data_marshal d = Inr app"
    and "handle_request D addr l = (Inr (), l, [Send_To resp addr])"
    and "discovery_unmarshal D resp = Inr (ResponsePacket app, own_network_id l)"
    and "length resp \<le> RECV_BUFFER"
proof -
  from assms(3) obtain app where app: "server_data_marshal d = Inr app"
    by (auto simp: good_server_data_def marshal_ok)
  then have small: "length app \<le> 526" by (rule length_server_data)
  let ?p = "ResponsePacket app"
  have "within_limit ?p" "packet_text_ok ?p" by (simp_all add: within_limit_def)
  moreover have "20 + packet_size ?p \<le> 65535" using small by simp
  ultimately obtain resp where resp: "discovery_marshal D ?p (own_network_id l) = Inr resp"
    "discovery_unmarshal D resp = Inr (?p, own_network_id l)"
    "length resp = 32 + 16 * ((20 + packet_size ?p) div 16 + 1)"
    using marshal_small [OF assms(1), of ?p "own_network_id l"] by blast
  have "length resp \<le> RECV_BUFFER"
    using resp(3) small unfolding RECV_BUFFER_def by simp
  with app resp(1,2) assms(2) that show ?thesis
    by (simp add: handle_request_def response_new_def)
qed

lemma handle_packet_Ok:
  assumes "crates_ok D" and "tables_inv now l"
  shows "fst (handle_packet D data addr now l) = Inr ()"
proof -
  have "fst (handle_request D addr (l\<lparr>addresses := m\<rparr>)) = Inr ()" for m
  proof (cases "pong_data l")
    case None
    then show ?thesis by (simp add: handle_request_def)
  next
    case (Some d)
    with assms(2) have "pong_data (l\<lparr>addresses := m\<rparr>) = Some d" "good_server_data d"
      by (simp_all add: tables_inv_def)
    from request_answered [OF assms(1) this, of addr] show ?thesis by force
  qed
  then show ?thesis
    by (auto simp: handle_packet_eq Let_def handle_response_def handle_message_def
        split: sum.split packet.split)
qed

lemma request_datagram:
  assumes "crates_ok D"
  obtains req where "send_request_data D nid = Inr req"
    and "discovery_unmarshal D req = Inr (RequestPacket, nid)" and "length req \<le> RECV_BUFFER"
proof -
  obtain req where "discovery_marshal D RequestPacket nid = Inr req"
    "discovery_unmarshal D req = Inr (RequestPacket, nid)"
    "length req = 32 + 16 * ((20 + packet_size RequestPacket) div 16 + 1)"
    using marshal_small [OF assms, of RequestPacket nid] by (auto simp: within_limit_def)
  with that show ?thesis by (simp add: send_request_data_def RECV_BUFFER_def)
qed

section \<open>Properties\<close>

text \<open>C25: A signal reaches the node it is addressed to: when the sender knows the address of the
  node and the text has at most 65503 bytes, \<open>signal\<close> sends one datagram to that address; if the
  datagram fits into the receive buffer of 4096 bytes, which is so exactly for texts of at most
  4031 bytes, the receiving task publishes exactly this signal, naming the sender as its network
  id, and notes the address it came from.\<close>

theorem lan_signal_delivery:
  assumes "crates_ok D" and "valid_signal sig"
    and "parse_u64 (network_id sig) = Inr (own_network_id (lan u))"
    and "get_address l (own_network_id (lan u)) = Some addr"
    and "own_network_id l \<noteq> own_network_id (lan u)" and "length (signal_fmt sig) \<le> 65503"
  shows "\<exists>data. lan_signal_datagram D l sig = Inr (data, addr) \<and>
    (length data \<le> 4096 \<longleftrightarrow> length (signal_fmt sig) \<le> 4031) \<and>
    (length data \<le> 4096 \<longrightarrow>
       lan_receive D data from_addr u = u\<lparr>
         lan := (lan u)\<lparr>addresses := (addresses (lan u))
           (own_network_id l \<mapsto> \<lparr>entry_addr = from_addr, last_seen = clock u\<rparr>)\<rparr>,
         actions := actions u @ [Publish (sig\<lparr>network_id := lan_network_id l\<rparr>)]\<rparr>)"
proof -
  from signal_datagram [OF assms(1,2,3,4,6)] obtain data where
    data: "lan_signal_datagram D l sig = Inr (data, addr)"
      "length data = 32 + 16 * ((32 + length (signal_fmt sig)) div 16 + 1)"
      "discovery_unmarshal D data =
        Inr (MessagePacket (own_network_id (lan u)) (signal_fmt sig), own_network_id l)" by blast
  have "length data \<le> RECV_BUFFER \<longleftrightarrow> length (signal_fmt sig) \<le> MAX_SIGNAL_TEXT"
    unfolding data(2) by (rule datagram_fits_iff)
  with data(1) receive_signal [OF _ assms(5) data(3), of from_addr] show ?thesis
    by (simp add: RECV_BUFFER_def MAX_SIGNAL_TEXT_def)
qed

definition demo_lan :: "u64 \<Rightarrow> lan" where
  "demo_lan nid = \<lparr>own_network_id = nid, addresses = Map.empty, pong_data = None,
     discovered_servers = Map.empty\<rparr>"

definition demo_task :: "u64 \<Rightarrow> lan_task" where
  "demo_task nid = \<lparr>lan = demo_lan nid, broadcast_addr = None, cancelled = False, stopped = False,
     clock = 0, actions = []\<rparr>"

definition demo_addr :: "nat \<Rightarrow> socket_addr" where
  "demo_addr n = \<lparr>ip = V4 0x7F000001, port = word_of_nat n\<rparr>"

definition demo_knows :: "u64 \<Rightarrow> u64 \<Rightarrow> socket_addr \<Rightarrow> lan_task" where
  "demo_knows nid peer addr = (demo_task nid)\<lparr>lan := (demo_lan nid)
     \<lparr>addresses := [peer \<mapsto> \<lparr>entry_addr = addr, last_seen = 0\<rparr>]\<rparr>\<rparr>"

lemma demo_ids: "u64_to_string 1 = ''1''" "u64_to_string 2 = ''2''" "u64_to_string 5 = ''5''"
  by (code_simp, code_simp, code_simp)

lemma demo_offer_valid: "valid_signal (signal_offer 5 ''v=0'' ''2'')"
  by code_simp

theorem lan_signal_delivery_witness:
  "\<exists>data. lan_signal_datagram demo_crates (lan (demo_knows 1 2 (demo_addr 7))) (signal_offer 5 ''v=0'' ''2'') =
       Inr (data, demo_addr 7) \<and>
     actions (lan_receive demo_crates data (demo_addr 9) (demo_task 2)) =
       [Publish (signal_offer 5 ''v=0'' ''1'')]"
proof -
  let ?sig = "signal_offer 5 ''v=0'' ''2''"
  have "\<exists>data. lan_signal_datagram demo_crates (lan (demo_knows 1 2 (demo_addr 7))) ?sig = Inr (data, demo_addr 7) \<and>
    (length data \<le> 4096 \<longleftrightarrow> length (signal_fmt ?sig) \<le> 4031) \<and>
    (length data \<le> 4096 \<longrightarrow>
       lan_receive demo_crates data (demo_addr 9) (demo_task 2) = (demo_task 2)\<lparr>
         lan := (lan (demo_task 2))\<lparr>addresses := (addresses (lan (demo_task 2)))
           (own_network_id (lan (demo_knows 1 2 (demo_addr 7))) \<mapsto>
             \<lparr>entry_addr = demo_addr 9, last_seen = clock (demo_task 2)\<rparr>)\<rparr>,
         actions := actions (demo_task 2) @
           [Publish (?sig\<lparr>network_id := lan_network_id (lan (demo_knows 1 2 (demo_addr 7)))\<rparr>)]\<rparr>)"
  proof (rule lan_signal_delivery [OF demo_crates_ok demo_offer_valid])
    show "parse_u64 (network_id ?sig) = Inr (own_network_id (lan (demo_task 2)))"
      using parse_u64_to_string [of 2]
      by (simp add: demo_ids demo_task_def demo_lan_def signal_offer_def signal_new_def)
    show "get_address (lan (demo_knows 1 2 (demo_addr 7))) (own_network_id (lan (demo_task 2))) = Some (demo_addr 7)"
      by (simp add: demo_knows_def demo_task_def demo_lan_def get_address_def)
    show "own_network_id (lan (demo_knows 1 2 (demo_addr 7))) \<noteq> own_network_id (lan (demo_task 2))"
      by (simp add: demo_knows_def demo_task_def demo_lan_def)
    show "length (signal_fmt ?sig) \<le> 65503"
      by (simp add: signal_fmt_def signal_offer_def signal_new_def demo_ids)
  qed
  moreover have "length (signal_fmt ?sig) \<le> 4031"
    by (simp add: signal_fmt_def signal_offer_def signal_new_def demo_ids)
  moreover have "?sig\<lparr>network_id := lan_network_id (lan (demo_knows 1 2 (demo_addr 7)))\<rparr> =
      signal_offer 5 ''v=0'' ''1''"
    by (simp add: lan_network_id_def demo_knows_def demo_lan_def signal_offer_def signal_new_def demo_ids)
  moreover have "actions (demo_task 2) = []" by (simp add: demo_task_def)
  ultimately show ?thesis by auto
qed

text \<open>C26: Discovery end to end: a node that was given the encoding of some server data answers a
  discovery request with one datagram to where the request came from; the requester that receives
  it lists exactly this server data under the id of the node and knows its address.\<close>

theorem lan_discovery_end_to_end:
  assumes "crates_ok D" and "valid_server_data sd" and "server_data_marshal sd = Inr pd"
    and "own_network_id (lan c) \<noteq> own_network_id (lan s)"
  shows "\<exists>req resp. send_request_data D (own_network_id (lan c)) = Inr req \<and>
    (let s' = lan_receive D req ca (s\<lparr>lan := set_pong_data (lan s) pd\<rparr>);
         c' = lan_receive D resp sa c
     in actions s' = actions s @ [Send_To resp ca] \<and>
        get_address (lan s') (own_network_id (lan c)) = Some ca \<and>
        discovered_servers (lan c') = (discovered_servers (lan c))(own_network_id (lan s) \<mapsto> sd) \<and>
        get_address (lan c') (own_network_id (lan s)) = Some sa)"
proof -
  from assms(2,3) have pong: "result_ok (server_data_unmarshal pd) = Some sd" and good: "good_server_data sd"
    by (auto simp: marshal_Inr_iff unmarshal_enc result_ok_def good_server_data_def)
  obtain req where req: "send_request_data D (own_network_id (lan c)) = Inr req"
    "discovery_unmarshal D req = Inr (RequestPacket, own_network_id (lan c))" "length req \<le> RECV_BUFFER"
    using request_datagram [OF assms(1)] by blast
  let ?l = "(set_pong_data (lan s) pd)\<lparr>addresses := (addresses (lan s))
      (own_network_id (lan c) \<mapsto> \<lparr>entry_addr = ca, last_seen = clock s\<rparr>)\<rparr>"
  have "pong_data ?l = Some sd" using pong by (simp add: set_pong_data_def)
  from request_answered [OF assms(1) this good, of ca] assms(3) obtain resp where
    resp: "handle_request D ca ?l = (Inr (), ?l, [Send_To resp ca])"
      "discovery_unmarshal D resp = Inr (ResponsePacket pd, own_network_id ?l)" "length resp \<le> RECV_BUFFER"
    by auto
  have addrs: "addresses (set_pong_data (lan s) pd) = addresses (lan s)"
    by (simp add: set_pong_data_def)
  have got: "server_data_unmarshal pd = Inr sd"
    using pong by (simp add: result_ok_def split: sum.splits)
  show ?thesis
    by (rule exI [of _ req], rule exI [of _ resp])
      (use req resp assms(4) got in \<open>simp add: lan_receive_def handle_packet_eq Let_def addrs
        get_address_def handle_response_def\<close>)
qed

theorem lan_discovery_end_to_end_witness:
  "\<exists>pd req resp. server_data_marshal (server_data_new ''Steve'' ''World'') = Inr pd \<and>
     send_request_data demo_crates 1 = Inr req \<and>
     actions (lan_receive demo_crates req (demo_addr 9) ((demo_task 2)\<lparr>lan := set_pong_data (demo_lan 2) pd\<rparr>)) =
       [Send_To resp (demo_addr 9)] \<and>
     discovered_servers (lan (lan_receive demo_crates resp (demo_addr 7) (demo_task 1))) =
       [2 \<mapsto> server_data_new ''Steve'' ''World'']"
proof -
  have "encodable (server_data_new ''Steve'' ''World'')" and valid: "valid_server_data (server_data_new ''Steve'' ''World'')"
    by code_simp+
  then obtain pd where pd: "server_data_marshal (server_data_new ''Steve'' ''World'') = Inr pd"
    by (simp add: marshal_ok)
  from lan_discovery_end_to_end [OF demo_crates_ok valid pd, of "demo_task 1" "demo_task 2" "demo_addr 9" "demo_addr 7"]
  obtain req resp where "send_request_data demo_crates 1 = Inr req"
    "actions (lan_receive demo_crates req (demo_addr 9) ((demo_task 2)\<lparr>lan := set_pong_data (demo_lan 2) pd\<rparr>)) =
      [Send_To resp (demo_addr 9)]"
    "discovered_servers (lan (lan_receive demo_crates resp (demo_addr 7) (demo_task 1))) =
      [2 \<mapsto> server_data_new ''Steve'' ''World'']"
    by (auto simp: Let_def demo_task_def demo_lan_def)
  with pd show ?thesis by blast
qed

text \<open>C15: In every state a started task can reach: the own id is in neither table, no address was
  seen in the future, all server data is what the decoder accepts, every published signal has
  well-formed text and names another node as its sender, and handling any datagram succeeds.\<close>

theorem lan_invariant:
  assumes "crates_ok D" and "lan_new b sb nid baddr start = Inr t0" and "(lan_step D)\<^sup>*\<^sup>* t0 t"
  shows "addresses (lan t) (own_network_id (lan t)) = None \<and>
    discovered_servers (lan t) (own_network_id (lan t)) = None \<and>
    (\<forall>k e. addresses (lan t) k = Some e \<longrightarrow> last_seen e \<le> clock t) \<and>
    (\<forall>k d. discovered_servers (lan t) k = Some d \<longrightarrow> encodable d \<and> valid_server_data d) \<and>
    (\<forall>sig. Publish sig \<in> set (actions t) \<longrightarrow>
       valid_signal sig \<and> (\<exists>k. k \<noteq> own_network_id (lan t) \<and> network_id sig = u64_to_string k)) \<and>
    fst (handle_packet D data addr (clock t) (lan t)) = Inr ()"
proof -
  from lan_reach_inv [OF assms(2,3)] have inv: "lan_inv t" .
  then have "published_ok (own_network_id (lan t)) (Publish sig)" if "Publish sig \<in> set (actions t)" for sig
    using that by (auto simp: lan_inv_def list_all_iff)
  with inv handle_packet_Ok [OF assms(1), of "clock t" "lan t" data addr] show ?thesis
    by (simp add: lan_inv_def tables_inv_def good_server_data_def published_ok_def)
qed

theorem lan_invariant_witness:
  "fst (handle_packet demo_crates [1, 2] (demo_addr 9) 0 (lan ((demo_task 3)\<lparr>cancelled := True\<rparr>))) = Inr ()"
proof -
  have new: "lan_new (Inr ()) (Inr ()) 3 \<lparr>ip = V4 0, port = LAN_DISCOVERY_PORT\<rparr> 0 = Inr (demo_task 3)"
    by (simp add: lan_new_def demo_task_def demo_lan_def)
  have "(lan_step demo_crates)\<^sup>*\<^sup>* (demo_task 3) ((demo_task 3)\<lparr>cancelled := True\<rparr>)"
    by (intro r_into_rtranclp Cancel)
  from lan_invariant [OF demo_crates_ok new this, of "[1, 2]" "demo_addr 9"] show ?thesis
    by (simp add: demo_task_def)
qed

text \<open>C36: A tick forgets exactly the addresses that were not seen for 15 seconds and no discovered
  server, and sends one discovery request, to the broadcast address, exactly when there is one.\<close>

theorem lan_tick_exact:
  assumes "crates_ok D"
  shows "(\<forall>k. get_address (lan (lan_tick D t)) k =
      (case addresses (lan t) k of
         None \<Rightarrow> None
       | Some e \<Rightarrow> if clock t < last_seen e + 15 * 10 ^ 9 then Some (entry_addr e) else None)) \<and>
    discovered_servers (lan (lan_tick D t)) = discovered_servers (lan t) \<and>
    (\<exists>req. discovery_unmarshal D req = Inr (RequestPacket, own_network_id (lan t)) \<and>
       actions (lan_tick D t) = actions t @
         (case broadcast_addr t of None \<Rightarrow> [] | Some addr \<Rightarrow> [Send_To req addr]))"
proof -
  obtain req where "send_request_data D (own_network_id (lan t)) = Inr req"
    "discovery_unmarshal D req = Inr (RequestPacket, own_network_id (lan t))"
    using request_datagram [OF assms] by blast
  moreover from this(1) have "lan_tick D t = t\<lparr>lan := cleanup_addresses (clock t) (lan t), actions := actions t @
      (case broadcast_addr t of None \<Rightarrow> [] | Some addr \<Rightarrow> [Send_To req addr])\<rparr>"
    by (simp add: lan_tick_def Let_def split: option.split)
  moreover have "get_address (cleanup_addresses (clock t) (lan t)) k =
      (case addresses (lan t) k of
         None \<Rightarrow> None
       | Some e \<Rightarrow> if clock t < last_seen e + 15 * 10 ^ 9 then Some (entry_addr e) else None)" for k
    by (auto simp: cleanup_addresses_def get_address_def ADDRESS_TIMEOUT_def split: option.split)
  moreover have "discovered_servers (cleanup_addresses (clock t) (lan t)) = discovered_servers (lan t)"
    by (simp add: cleanup_addresses_def)
  ultimately show ?thesis by (intro conjI exI [of _ req]) simp_all
qed

theorem lan_tick_exact_witness:
  "get_address (lan (lan_tick demo_crates ((demo_knows 1 2 (demo_addr 7))\<lparr>clock := 15 * 10 ^ 9\<rparr>))) 2 = None \<and>
   get_address (lan (lan_tick demo_crates ((demo_knows 1 2 (demo_addr 7))\<lparr>clock := 14 * 10 ^ 9\<rparr>))) 2 =
     Some (demo_addr 7)"
  using lan_tick_exact [OF demo_crates_ok, of "(demo_knows 1 2 (demo_addr 7))\<lparr>clock := 15 * 10 ^ 9\<rparr>"]
    lan_tick_exact [OF demo_crates_ok, of "(demo_knows 1 2 (demo_addr 7))\<lparr>clock := 14 * 10 ^ 9\<rparr>"]
  by (simp add: demo_knows_def demo_task_def demo_lan_def)

text \<open>Once the loop has stopped, nothing is processed any more: the tables and the actions stay
  as they are, whatever arrives.\<close>

theorem lan_stopped_final:
  assumes "(lan_step D)\<^sup>*\<^sup>* t u" and "stopped t"
  shows "stopped u \<and> actions u = actions t \<and> addresses (lan u) = addresses (lan t) \<and>
    discovered_servers (lan u) = discovered_servers (lan t)"
  using assms
proof (induction rule: rtranclp_induct)
  case base
  then show ?case by simp
next
  case (step u v)
  then show ?case by (auto elim!: lan_step.cases simp: set_pong_data_def)
qed

theorem lan_stopped_final_witness:
  "actions ((demo_task 3)\<lparr>cancelled := True, stopped := True\<rparr>) = []"
proof -
  let ?t = "(demo_task 3)\<lparr>stopped := True\<rparr>"
  have "(lan_step demo_crates)\<^sup>*\<^sup>* ?t (?t\<lparr>cancelled := True\<rparr>)"
    by (intro r_into_rtranclp Cancel)
  from lan_stopped_final [OF this] show ?thesis by (simp add: demo_task_def)
qed

lemma lan_shutdown_final:
  assumes "lan_shutdown D t u" and "(lan_step D)\<^sup>*\<^sup>* u v"
  shows "actions v = actions u \<and> addresses (lan v) = addresses (lan u) \<and>
    discovered_servers (lan v) = discovered_servers (lan u)"
  using assms lan_stopped_final [of D u v] by (auto elim: lan_shutdown.cases)

text \<open>A subscriber's stream yields exactly the signals it received before the channel closed,
  in order, skipping the reports of lost signals, and ends exactly when the channel closes.\<close>

theorem signals_stream_exact:
  "signals_stream rs =
     (List.map_filter (\<lambda>r. case r of Received sig \<Rightarrow> Some sig | _ \<Rightarrow> None)
        (takeWhile (\<lambda>r. r \<noteq> Closed_Channel) rs),
      Closed_Channel \<in> set rs)"
  by (induction rs rule: signals_stream.induct) (simp_all add: map_filter_simps)

end
