(* ===== verification/Stream.thy ===== *)
theory Stream
  imports Session "HOL-Library.Sublist"
begin

text \<open>
  The byte stream over a session (src/src/transport/stream.rs): the futures of \<open>send\<close> and \<open>close\<close>
  as they are polled, \<open>poll_write\<close>, \<open>poll_flush\<close> and \<open>poll_shutdown\<close> of the writer and
  \<open>poll_next\<close> under the reader. The lemmas: a polled send is the whole send of the session, and
  what was accepted for writing is on the wire, in order, when a flush is done.
\<close>

section \<open>Futures\<close>

text \<open>A poll ends with the result of the future or with the state it waits in.\<close>

datatype ('r, 'f) progress = Done 'r | Waiting 'f

text \<open>The future of \<open>session.send(data)\<close>: not started, or writing the rest of its segments.\<close>

datatype 'ch send_state = Send_Start bytes | Send_Rest 'ch "message_segment list"

primrec poll_segments ::
    "('w, 'ch, 'pc) polled_rtc \<Rightarrow> 'ch \<Rightarrow> message_segment list \<Rightarrow> 'w \<Rightarrow>
     (unit res, 'ch send_state) progress \<times> 'w" where
  "poll_segments P ch [] w = (Done (Inr ()), w)"
| "poll_segments P ch (segment # segments) w =
     (case poll_dc_send P ch (segment_encode segment) w of
        (Pending, w) \<Rightarrow> (Waiting (Send_Rest ch (segment # segments)), w)
      | (Ready (Inl e), w) \<Rightarrow> (Done (Inl (DataChannel e)), w)
      | (Ready (Inr _), w) \<Rightarrow> poll_segments P ch segments w)"

fun poll_send ::
    "bool \<Rightarrow> ('w, 'ch, 'pc) polled_rtc \<Rightarrow> ('ch, 'pc, 'q) session \<Rightarrow> 'ch send_state \<Rightarrow> 'w \<Rightarrow>
     ((unit res, 'ch send_state) progress \<times> 'w) run" where
  "poll_send dbg P s (Send_Start data) w =
     run_bind (send_prepare dbg s data) (\<lambda>r.
       case r of
         Inl e \<Rightarrow> Ran (Done (Inl e), w)
       | Inr (channel, segments) \<Rightarrow> Ran (poll_segments P channel segments w))"
| "poll_send dbg P s (Send_Rest ch segments) w = Ran (poll_segments P ch segments w)"

text \<open>The future of \<open>session.close()\<close>: not started, or waiting for one of the three closings.\<close>

datatype 'ch close_state = Close_Start | Close_Reliable 'ch | Close_Unreliable 'ch | Close_Peer

definition poll_close_peer ::
    "('w, 'ch, 'pc) polled_rtc \<Rightarrow> ('ch, 'pc, 'q) session \<Rightarrow> 'w \<Rightarrow>
     (unit res, 'ch close_state) progress \<times> 'w" where
  "poll_close_peer P s w =
     (case poll_pc_close P (peer_connection s) w of
        (Pending, w) \<Rightarrow> (Waiting Close_Peer, w)
      | (Ready r, w) \<Rightarrow> (Done (map_err WebRtc r), w))"

definition poll_close_unreliable ::
    "('w, 'ch, 'pc) polled_rtc \<Rightarrow> ('ch, 'pc, 'q) session \<Rightarrow> 'ch \<Rightarrow> 'w \<Rightarrow>
     (unit res, 'ch close_state) progress \<times> 'w" where
  "poll_close_unreliable P s ch w =
     (case poll_dc_close P ch w of
        (Pending, w) \<Rightarrow> (Waiting (Close_Unreliable ch), w)
      | (Ready _, w) \<Rightarrow> poll_close_peer P s w)"

definition poll_after_reliable ::
    "('w, 'ch, 'pc) polled_rtc \<Rightarrow> ('ch, 'pc, 'q) session \<Rightarrow> 'w \<Rightarrow>
     (unit res, 'ch close_state) progress \<times> 'w" where
  "poll_after_reliable P s w =
     (case unreliable_channel s of
        None \<Rightarrow> poll_close_peer P s w
      | Some ch \<Rightarrow> poll_close_unreliable P s ch w)"

definition poll_close_reliable ::
    "('w, 'ch, 'pc) polled_rtc \<Rightarrow> ('ch, 'pc, 'q) session \<Rightarrow> 'ch \<Rightarrow> 'w \<Rightarrow>
     (unit res, 'ch close_state) progress \<times> 'w" where
  "poll_close_reliable P s ch w =
     (case poll_dc_close P ch w of
        (Pending, w) \<Rightarrow> (Waiting (Close_Reliable ch), w)
      | (Ready _, w) \<Rightarrow> poll_after_reliable P s w)"

fun poll_close_step ::
    "('w, 'ch, 'pc) polled_rtc \<Rightarrow> ('ch, 'pc, 'q) session \<Rightarrow> 'ch close_state \<Rightarrow> 'w \<Rightarrow>
     (unit res, 'ch close_state) progress \<times> 'w" where
  "poll_close_step P s Close_Start w =
     (case reliable_channel s of
        None \<Rightarrow> poll_after_reliable P s w
      | Some ch \<Rightarrow> poll_close_reliable P s ch w)"
| "poll_close_step P s (Close_Reliable ch) w = poll_close_reliable P s ch w"
| "poll_close_step P s (Close_Unreliable ch) w = poll_close_unreliable P s ch w"
| "poll_close_step P s Close_Peer w = poll_close_peer P s w"

definition poll_close ::
    "('w, 'ch, 'pc) polled_rtc \<Rightarrow> ('ch, 'pc, 'q) session \<Rightarrow> 'ch close_state \<Rightarrow> 'w \<Rightarrow>
     (unit res, 'ch close_state) progress \<times> ('ch, 'pc, 'q) session \<times> 'w" where
  "poll_close P s fut w =
     (if fut = Close_Start then
        if closed s then (Done (Inr ()), s, w)
        else let s = s\<lparr>closed := True\<rparr>; (r, w) = poll_close_step P s Close_Start w in (r, s, w)
      else let (r, w) = poll_close_step P s fut w in (r, s, w))"

section \<open>The writer\<close>

record ('ch, 'pc, 'q) net_stream =
  stream_session :: "('ch, 'pc, 'q) session"
  send_future :: "'ch send_state option"
  shutdown_future :: "'ch close_state option"
  recv_waiting :: bool

definition from_session :: "('ch, 'pc, 'q) session \<Rightarrow> ('ch, 'pc, 'q) net_stream" where
  "from_session s = \<lparr>stream_session = s, send_future = None, shutdown_future = None, recv_waiting = False\<rparr>"

text \<open>The new send of \<open>poll_write\<close>, polled at once.\<close>

definition start_send ::
    "bool \<Rightarrow> ('w, 'ch, 'pc) polled_rtc \<Rightarrow> ('ch, 'pc, 'q) net_stream \<Rightarrow> bytes \<Rightarrow> 'w \<Rightarrow>
     (usize io_res poll \<times> ('ch, 'pc, 'q) net_stream \<times> 'w) run" where
  "start_send dbg P st buf w =
     run_bind (poll_send dbg P (stream_session st) (Send_Start buf) w) (\<lambda>(p, w).
       case p of
         Done (Inr _) \<Rightarrow> Ran (Ready (Inr (length buf)), st, w)
       | Done (Inl e) \<Rightarrow> Ran (Ready (Inl (io_other e)), st, w)
       | Waiting fut \<Rightarrow> Ran (Ready (Inr (length buf)), st\<lparr>send_future := Some fut\<rparr>, w))"

definition poll_write ::
    "bool \<Rightarrow> ('w, 'ch, 'pc) polled_rtc \<Rightarrow> ('ch, 'pc, 'q) net_stream \<Rightarrow> bytes \<Rightarrow> 'w \<Rightarrow>
     (usize io_res poll \<times> ('ch, 'pc, 'q) net_stream \<times> 'w) run" where
  "poll_write dbg P st buf w =
     (case send_future st of
        None \<Rightarrow> start_send dbg P st buf w
      | Some fut \<Rightarrow>
          let st = st\<lparr>send_future := None\<rparr> in
          run_bind (poll_send dbg P (stream_session st) fut w) (\<lambda>(p, w).
            case p of
              Done (Inr _) \<Rightarrow> start_send dbg P st buf w
            | Done (Inl e) \<Rightarrow> Ran (Ready (Inl (io_other e)), st, w)
            | Waiting fut \<Rightarrow> Ran (Pending, st\<lparr>send_future := Some fut\<rparr>, w)))"

definition poll_flush ::
    "bool \<Rightarrow> ('w, 'ch, 'pc) polled_rtc \<Rightarrow> ('ch, 'pc, 'q) net_stream \<Rightarrow> 'w \<Rightarrow>
     (unit io_res poll \<times> ('ch, 'pc, 'q) net_stream \<times> 'w) run" where
  "poll_flush dbg P st w =
     (case send_future st of
        None \<Rightarrow> Ran (Ready (Inr ()), st, w)
      | Some fut \<Rightarrow>
          let st = st\<lparr>send_future := None\<rparr> in
          run_bind (poll_send dbg P (stream_session st) fut w) (\<lambda>(p, w).
            case p of
              Done (Inr _) \<Rightarrow> Ran (Ready (Inr ()), st, w)
            | Done (Inl e) \<Rightarrow> Ran (Ready (Inl (io_other e)), st, w)
            | Waiting fut \<Rightarrow> Ran (Pending, st\<lparr>send_future := Some fut\<rparr>, w)))"

definition poll_shutdown ::
    "bool \<Rightarrow> ('w, 'ch, 'pc) polled_rtc \<Rightarrow> ('ch, 'pc, 'q) net_stream \<Rightarrow> 'w \<Rightarrow>
     (unit io_res poll \<times> ('ch, 'pc, 'q) net_stream \<times> 'w) run" where
  "poll_shutdown dbg P st w =
     run_bind (poll_flush dbg P st w) (\<lambda>(r, st, w).
       case r of
         Ready (Inl e) \<Rightarrow> Ran (Ready (Inl e), st, w)
       | Pending \<Rightarrow> Ran (Pending, st, w)
       | Ready (Inr _) \<Rightarrow>
           let fut = (case shutdown_future st of None \<Rightarrow> Close_Start | Some fut \<Rightarrow> fut);
               (p, s, w) = poll_close P (stream_session st) fut w;
               st = st\<lparr>stream_session := s, shutdown_future := None\<rparr>
           in case p of
                Done (Inr _) \<Rightarrow> Ran (Ready (Inr ()), st, w)
              | Done (Inl e) \<Rightarrow> Ran (Ready (Inl (io_other e)), st, w)
              | Waiting fut \<Rightarrow> Ran (Pending, st\<lparr>shutdown_future := Some fut\<rparr>, w))"

section \<open>The reader\<close>

text \<open>\<open>SessionStream::poll_next\<close>; \<open>recv_waiting\<close> tells that its future is past the closed check.\<close>

definition poll_next ::
    "('q, bytes) mpsc \<Rightarrow> ('ch, 'pc, 'q) net_stream \<Rightarrow> bytes io_res option poll \<times> ('ch, 'pc, 'q) net_stream" where
  "poll_next M st =
     (case (if recv_waiting st then session_recv_wait M (stream_session st)
            else session_recv M (stream_session st)) of
        Pending \<Rightarrow> (Pending, st\<lparr>recv_waiting := True\<rparr>)
      | Ready (result, s) \<Rightarrow>
          (Ready (case result of
              Inr (Some data) \<Rightarrow> Some (Inr data)
            | Inr None \<Rightarrow> None
            | Inl e \<Rightarrow> Some (Inl (io_other e))),
           st\<lparr>stream_session := s, recv_waiting := False\<rparr>))"

section \<open>A polled send is the send of the session\<close>

text \<open>
  The channel as it looks to a caller that waits: \<open>R\<close> runs a send of \<open>P\<close> to its end.
\<close>

definition runs_polls :: "('w, 'ch, 'pc) polled_rtc \<Rightarrow> ('w, 'ch, 'pc) rtc \<Rightarrow> bool" where
  "runs_polls P R \<longleftrightarrow>
     (\<forall>ch b w r w'. poll_dc_send P ch b w = (Ready r, w') \<longrightarrow> dc_send R ch b w = (r, w')) \<and>
     (\<forall>ch b w w'. poll_dc_send P ch b w = (Pending, w') \<longrightarrow> dc_send R ch b w = dc_send R ch b w')"

text \<open>Polling up to \<open>n\<close> times until the future is done.\<close>

primrec drive_send ::
    "nat \<Rightarrow> bool \<Rightarrow> ('w, 'ch, 'pc) polled_rtc \<Rightarrow> ('ch, 'pc, 'q) session \<Rightarrow> 'ch send_state \<Rightarrow> 'w \<Rightarrow>
     (unit res \<times> 'w) option run" where
  "drive_send 0 dbg P s fut w = Ran None"
| "drive_send (Suc n) dbg P s fut w =
     run_bind (poll_send dbg P s fut w) (\<lambda>(p, w).
       case p of Done r \<Rightarrow> Ran (Some (r, w)) | Waiting fut \<Rightarrow> drive_send n dbg P s fut w)"

lemma poll_segments_sound:
  assumes "runs_polls P R"
  shows "poll_segments P ch segs w = (Done r, w') \<Longrightarrow> send_segments R ch segs w = (r, w')"
    and "poll_segments P ch segs w = (Waiting fut, w') \<Longrightarrow>
      \<exists>rest. fut = Send_Rest ch rest \<and> send_segments R ch segs w = send_segments R ch rest w'"
proof -
  have ready: "dc_send R ch b w = (r, w')" if "poll_dc_send P ch b w = (Ready r, w')" for b w r w'
    using assms that by (simp add: runs_polls_def)
  have wait: "dc_send R ch b w = dc_send R ch b w'" if "poll_dc_send P ch b w = (Pending, w')" for b w w'
    using assms that by (simp add: runs_polls_def)
  show "poll_segments P ch segs w = (Done r, w') \<Longrightarrow> send_segments R ch segs w = (r, w')"
    by (induction segs arbitrary: w) (auto split: prod.splits poll.splits sum.splits dest!: ready)
  show "poll_segments P ch segs w = (Waiting fut, w') \<Longrightarrow>
      \<exists>rest. fut = Send_Rest ch rest \<and> send_segments R ch segs w = send_segments R ch rest w'"
  proof (induction segs arbitrary: w)
    case Nil
    then show ?case by simp
  next
    case (Cons seg segs)
    show ?case
    proof (cases "fst (poll_dc_send P ch (segment_encode seg) w)")
      case Pending
      with Cons.prems have "fut = Send_Rest ch (seg # segs)"
        and "poll_dc_send P ch (segment_encode seg) w = (Pending, w')"
        by (auto split: prod.splits poll.splits sum.splits)
      from this(1) wait [OF this(2)] show ?thesis by (intro exI [of _ "seg # segs"]) simp
    next
      case (Ready x)
      with Cons.prems obtain w1 where p: "poll_dc_send P ch (segment_encode seg) w = (Ready (Inr ()), w1)"
        and "poll_segments P ch segs w1 = (Waiting fut, w')"
        by (auto split: prod.splits poll.splits sum.splits)
      from Cons.IH [OF this(2)] ready [OF p] show ?thesis by auto
    qed
  qed
qed

lemma poll_send_start:
  "poll_send dbg P s (Send_Start data) w =
     Ran (if closed s then (Done (Inl ConnectionClosed), w)
      else case reliable_channel s of
          None \<Rightarrow> (Done (Inl (DataChannel ''Reliable channel not set'')), w)
        | Some ch \<Rightarrow>
            if MAX_SEGMENTED < length data then (Done (Inl (MessageTooLarge (length data))), w)
            else poll_segments P ch (spec_segments data) w)"
  by (auto simp: send_prepare_def split_into_segments_eq ok_or_def split: option.split)

lemma drive_rest:
  assumes "runs_polls P R"
  shows "drive_send n dbg P s (Send_Rest ch segs) w = Ran (Some (r, w')) \<Longrightarrow>
    send_segments R ch segs w = (r, w')"
proof (induction n arbitrary: segs w)
  case 0
  then show ?case by simp
next
  case (Suc n)
  obtain p w1 where p: "poll_segments P ch segs w = (p, w1)" by fastforce
  show ?case
  proof (cases p)
    case (Done q)
    with Suc.prems p poll_segments_sound(1) [OF assms] show ?thesis by simp
  next
    case (Waiting fut)
    with p poll_segments_sound(2) [OF assms] obtain rest where
      "fut = Send_Rest ch rest" "send_segments R ch segs w = send_segments R ch rest w1" by blast
    with Suc.prems Suc.IH p Waiting show ?thesis by simp
  qed
qed

lemma drive_send_sound:
  assumes "runs_polls P R" and "drive_send n dbg P s (Send_Start data) w = Ran (Some (r, w'))"
  shows "session_send dbg R s data w = Ran (r, w')"
proof (cases n)
  case 0
  with assms(2) show ?thesis by simp
next
  case (Suc k)
  show ?thesis
  proof (cases "\<not> closed s \<and> length data \<le> MAX_SEGMENTED \<and> reliable_channel s \<noteq> None")
    case False
    with assms(2) Suc show ?thesis
      by (auto simp: poll_send_start session_send_eq simp del: poll_send.simps split: option.splits if_splits)
  next
    case True
    then obtain ch where ch: "reliable_channel s = Some ch" by auto
    have start: "poll_send dbg P s (Send_Start data) w = poll_send dbg P s (Send_Rest ch (spec_segments data)) w"
      using True ch by (simp add: poll_send_start del: poll_send.simps(1))
    have "drive_send n dbg P s (Send_Rest ch (spec_segments data)) w = Ran (Some (r, w'))"
      using assms(2) unfolding Suc drive_send.simps start .
    from drive_rest [OF assms(1) this] True ch show ?thesis by (simp add: session_send_eq)
  qed
qed

text \<open>The channel that is busy on every other poll, for a caller that waits.\<close>

definition eager_rtc :: "(lazy_world, bool, unit) rtc" where
  "eager_rtc = \<lparr>
     dc_send = (\<lambda>ch b w. (Inr (), w\<lparr>busy := True, lazy_frames := lazy_frames w @ [b]\<rparr>)),
     dc_close = (\<lambda>ch w. (Inr (), w)), pc_close = (\<lambda>_ w. (Inr (), w)),
     ice_connection_state = (\<lambda>_ _. IceConnected), sleep_ms = (\<lambda>_ w. w)\<rparr>"

lemma eager_runs_lazy: "runs_polls lazy_rtc eager_rtc"
  by (auto simp: runs_polls_def lazy_rtc_def eager_rtc_def split: if_splits)

section \<open>What the writer has accepted\<close>

text \<open>
  A step is one poll that did not fail; \<open>accepted\<close> are the buffers for which \<open>poll_write\<close> said
  \<open>Ok\<close>. A reading task polls \<open>poll_next\<close> beside it.
\<close>

inductive writer_step ::
    "bool \<Rightarrow> ('w, 'ch, 'pc) polled_rtc \<Rightarrow> ('q, bytes) mpsc \<Rightarrow>
     ('ch, 'pc, 'q) net_stream \<times> 'w \<times> bytes list \<Rightarrow> ('ch, 'pc, 'q) net_stream \<times> 'w \<times> bytes list \<Rightarrow> bool"
  for dbg P M where
  Write: "poll_write dbg P st buf w = Ran (Ready (Inr n), st', w') \<Longrightarrow>
    writer_step dbg P M (st, w, acc) (st', w', acc @ [buf])"
| Write_Pending: "poll_write dbg P st buf w = Ran (Pending, st', w') \<Longrightarrow>
    writer_step dbg P M (st, w, acc) (st', w', acc)"
| Flush: "poll_flush dbg P st w = Ran (r, st', w') \<Longrightarrow> \<forall>e. r \<noteq> Ready (Inl e) \<Longrightarrow>
    writer_step dbg P M (st, w, acc) (st', w', acc)"
| Shutdown: "poll_shutdown dbg P st w = Ran (r, st', w') \<Longrightarrow> \<forall>e. r \<noteq> Ready (Inl e) \<Longrightarrow>
    writer_step dbg P M (st, w, acc) (st', w', acc)"
| Next: "poll_next M st = (r, st') \<Longrightarrow> writer_step dbg P M (st, w, acc) (st', w, acc)"

inductive_simps writer_step_pairs: "writer_step dbg P M (st, w, acc) (st', w', acc')"

definition message_frames :: "bytes \<Rightarrow> bytes list" where
  "message_frames d = map segment_encode (spec_segments d)"

text \<open>The frames an unfinished send over the channel still has to write.\<close>

primrec frames_left :: "'ch \<Rightarrow> 'ch send_state option \<Rightarrow> bytes list \<Rightarrow> bool" where
  "frames_left ch None fs \<longleftrightarrow> fs = []"
| "frames_left ch (Some fut) fs \<longleftrightarrow> (\<exists>segs. fut = Send_Rest ch segs \<and> fs = map segment_encode segs)"

definition writer_inv ::
    "('ch \<Rightarrow> 'w \<Rightarrow> bytes list) \<Rightarrow> 'ch \<Rightarrow> ('ch, 'pc, 'q) net_stream \<times> 'w \<times> bytes list \<Rightarrow> bool" where
  "writer_inv wire ch x \<longleftrightarrow>
     (case x of (st, w, acc) \<Rightarrow>
        reliable_channel (stream_session st) = Some ch \<and>
        list_all (\<lambda>d. length d \<le> MAX_SEGMENTED) acc \<and>
        (\<exists>fs. frames_left ch (send_future st) fs \<and> wire ch w @ fs = concat (map message_frames acc)))"

lemma poll_segments_wire:
  assumes "polled_wire_ok P wire"
  shows "poll_segments P ch segs w = (Done (Inr ()), w') \<Longrightarrow>
      wire ch w' = wire ch w @ map segment_encode segs"
    and "poll_segments P ch segs w = (Waiting fut, w') \<Longrightarrow>
      \<exists>rest. fut = Send_Rest ch rest \<and>
        wire ch w' @ map segment_encode rest = wire ch w @ map segment_encode segs"
proof -
  note law = polled_wire_okD [OF assms]
  show "poll_segments P ch segs w = (Done (Inr ()), w') \<Longrightarrow>
      wire ch w' = wire ch w @ map segment_encode segs"
    by (induction segs arbitrary: w) (auto split: prod.splits poll.splits sum.splits dest!: law(1))
  show "poll_segments P ch segs w = (Waiting fut, w') \<Longrightarrow>
      \<exists>rest. fut = Send_Rest ch rest \<and>
        wire ch w' @ map segment_encode rest = wire ch w @ map segment_encode segs"
  proof (induction segs arbitrary: w)
    case Nil
    then show ?case by simp
  next
    case (Cons seg segs)
    show ?case
    proof (cases "fst (poll_dc_send P ch (segment_encode seg) w)")
      case Pending
      with Cons.prems have "fut = Send_Rest ch (seg # segs)"
        and "poll_dc_send P ch (segment_encode seg) w = (Pending, w')"
        by (auto split: prod.splits poll.splits sum.splits)
      from this(1) law(2) [OF this(2)] show ?thesis by (intro exI [of _ "seg # segs"]) simp
    next
      case (Ready x)
      with Cons.prems obtain w1 where p: "poll_dc_send P ch (segment_encode seg) w = (Ready (Inr ()), w1)"
        and "poll_segments P ch segs w1 = (Waiting fut, w')"
        by (auto split: prod.splits poll.splits sum.splits)
      from Cons.IH [OF this(2)] law(1) [OF p] show ?thesis by auto
    qed
  qed
qed

lemma flush_inv:
  assumes law: "polled_wire_ok P wire" and inv: "writer_inv wire ch (st, w, acc)"
    and poll: "poll_flush dbg P st w = Ran (r, st', w')" and "\<forall>e. r \<noteq> Ready (Inl e)"
  shows "writer_inv wire ch (st', w', acc) \<and> stream_session st' = stream_session st \<and>
    shutdown_future st' = shutdown_future st \<and> (r = Ready (Inr ()) \<longrightarrow> send_future st' = None)"
proof (cases "send_future st")
  case None
  with assms show ?thesis by (auto simp: poll_flush_def)
next
  case (Some fut)
  with inv obtain segs where fut: "fut = Send_Rest ch segs"
    and wire: "wire ch w @ map segment_encode segs = concat (map message_frames acc)"
    by (auto simp: writer_inv_def)
  obtain p w1 where p: "poll_segments P ch segs w = (p, w1)" by fastforce
  show ?thesis
  proof (cases p)
    case (Done q)
    with Some fut p poll assms(4) have "q = Inr ()" "r = Ready (Inr ())" "st' = st\<lparr>send_future := None\<rparr>" "w' = w1"
      by (auto simp: poll_flush_def Let_def split: sum.splits)
    with poll_segments_wire(1) [OF law, of ch segs w w1] p Done wire inv show ?thesis
      by (simp add: writer_inv_def)
  next
    case (Waiting f)
    with Some fut p poll have "r = Pending" "st' = st\<lparr>send_future := Some f\<rparr>" "w' = w1"
      by (auto simp: poll_flush_def Let_def)
    with poll_segments_wire(2) [OF law, of ch segs w f w1] p Waiting wire inv show ?thesis
      by (auto simp: writer_inv_def)
  qed
qed

lemma start_send_inv:
  assumes law: "polled_wire_ok P wire" and inv: "writer_inv wire ch (st, w, acc)"
    and idle: "send_future st = None" and poll: "start_send dbg P st buf w = Ran (r, st', w')"
    and ok: "\<forall>e. r \<noteq> Ready (Inl e)"
  shows "writer_inv wire ch (st', w', acc @ [buf]) \<and> r = Ready (Inr (length buf)) \<and>
    length buf \<le> MAX_SEGMENTED"
proof -
  from inv idle have ch: "reliable_channel (stream_session st) = Some ch"
    and wire: "wire ch w = concat (map message_frames acc)"
    and small: "list_all (\<lambda>d. length d \<le> MAX_SEGMENTED) acc" by (auto simp: writer_inv_def)
  have live: "\<not> closed (stream_session st) \<and> length buf \<le> MAX_SEGMENTED"
    using poll ok ch
    by (auto simp: start_send_def poll_send_start simp del: poll_send.simps split: if_splits)
  obtain p w1 where p: "poll_segments P ch (spec_segments buf) w = (p, w1)" by fastforce
  show ?thesis
  proof (cases p)
    case (Done q)
    with p poll ok live ch have "q = Inr ()" "r = Ready (Inr (length buf))" "st' = st" "w' = w1"
      by (auto simp: start_send_def poll_send_start simp del: poll_send.simps split: sum.splits)
    with poll_segments_wire(1) [OF law, of ch "spec_segments buf" w w1] p Done wire live ch idle small
    show ?thesis by (simp add: writer_inv_def message_frames_def)
  next
    case (Waiting f)
    with p poll live ch have "r = Ready (Inr (length buf))" "st' = st\<lparr>send_future := Some f\<rparr>" "w' = w1"
      by (auto simp: start_send_def poll_send_start simp del: poll_send.simps)
    with poll_segments_wire(2) [OF law, of ch "spec_segments buf" w f w1] p Waiting wire live ch small
    show ?thesis by (auto simp: writer_inv_def message_frames_def)
  qed
qed

lemma flush_keeps:
  assumes "poll_flush dbg P st w = Ran (r, st', w')"
  shows "stream_session st' = stream_session st \<and> shutdown_future st' = shutdown_future st \<and>
    recv_waiting st' = recv_waiting st"
proof (cases "send_future st")
  case None
  with assms show ?thesis by (simp add: poll_flush_def)
next
  case (Some fut)
  with assms obtain p w1 where "poll_send dbg P (stream_session st) fut w = Ran (p, w1)"
    by (auto simp: poll_flush_def run_bind_Ran_iff Let_def)
  with assms Some show ?thesis
    by (auto simp: poll_flush_def Let_def split: progress.splits sum.splits)
qed

lemma poll_flush_session:
  "poll_flush dbg P st w = Ran (r, st', w') \<Longrightarrow> stream_session st' = stream_session st"
  by (simp add: flush_keeps)

text \<open>\<open>poll_write\<close> is a flush and then, if that is done, a new send.\<close>

lemma poll_write_eq:
  "poll_write dbg P st buf w =
     run_bind (poll_flush dbg P st w) (\<lambda>(r, st, w).
       case r of
         Ready (Inr _) \<Rightarrow> start_send dbg P st buf w
       | Ready (Inl e) \<Rightarrow> Ran (Ready (Inl e), st, w)
       | Pending \<Rightarrow> Ran (Pending, st, w))"
proof (cases "send_future st")
  case None
  then show ?thesis by (simp add: poll_write_def poll_flush_def)
next
  case (Some fut)
  show ?thesis
  proof (cases "poll_send dbg P (stream_session st) fut w")
    case Panic
    with Some show ?thesis by (simp add: poll_write_def poll_flush_def)
  next
    case (Ran pw)
    with Some show ?thesis
      by (cases pw) (auto simp: poll_write_def poll_flush_def Let_def split: progress.split sum.split)
  qed
qed

lemma start_send_keeps:
  assumes "start_send dbg P st buf w = Ran (r, st', w')"
  shows "stream_session st' = stream_session st \<and> shutdown_future st' = shutdown_future st \<and>
    recv_waiting st' = recv_waiting st"
proof -
  from assms obtain p v where "poll_send dbg P (stream_session st) (Send_Start buf) w = Ran (p, v)"
    by (auto simp: start_send_def run_bind_Ran_iff simp del: poll_send.simps)
  with assms show ?thesis
    by (auto simp: start_send_def simp del: poll_send.simps split: progress.splits sum.splits)
qed

lemma write_keeps:
  assumes "poll_write dbg P st buf w = Ran (r, st', w')"
  shows "stream_session st' = stream_session st \<and> shutdown_future st' = shutdown_future st \<and>
    recv_waiting st' = recv_waiting st"
proof -
  from assms obtain r1 st1 w1 where flush: "poll_flush dbg P st w = Ran (r1, st1, w1)"
    by (auto simp: poll_write_eq run_bind_Ran_iff)
  with assms have "st' = st1 \<or> start_send dbg P st1 buf w1 = Ran (r, st', w')"
    by (auto simp: poll_write_eq split: poll.splits sum.splits)
  with flush_keeps [OF flush] start_send_keeps [of dbg P st1 buf w1 r st' w'] show ?thesis by auto
qed

lemma write_inv:
  assumes law: "polled_wire_ok P wire" and inv: "writer_inv wire ch (st, w, acc)"
    and poll: "poll_write dbg P st buf w = Ran (r, st', w')" and ok: "\<forall>e. r \<noteq> Ready (Inl e)"
  shows "writer_inv wire ch (st', w', if r = Pending then acc else acc @ [buf]) \<and>
    (r \<noteq> Pending \<longrightarrow> r = Ready (Inr (length buf)) \<and> length buf \<le> MAX_SEGMENTED)"
proof -
  from poll obtain r1 st1 w1 where flush: "poll_flush dbg P st w = Ran (r1, st1, w1)"
    and rest: "(case r1 of
         Ready (Inr _) \<Rightarrow> start_send dbg P st1 buf w1
       | Ready (Inl e) \<Rightarrow> Ran (Ready (Inl e), st1, w1)
       | Pending \<Rightarrow> Ran (Pending, st1, w1)) = Ran (r, st', w')"
    by (auto simp: poll_write_eq run_bind_Ran_iff)
  have ok1: "\<forall>e. r1 \<noteq> Ready (Inl e)" using rest ok by auto
  note after = flush_inv [OF law inv flush ok1]
  show ?thesis
  proof (cases "r1 = Pending")
    case True
    with rest after show ?thesis by auto
  next
    case False
    with ok1 obtain u where "r1 = Ready (Inr u)" by (metis poll.exhaust sum.exhaust)
    with rest have start: "start_send dbg P st1 buf w1 = Ran (r, st', w')" and idle: "send_future st1 = None"
      using after by auto
    from start_send_inv [OF law _ idle start ok] after show ?thesis by auto
  qed
qed

lemma poll_close_wire:
  assumes law: "polled_wire_ok P wire" and "poll_close P s fut w = (r, s', w')"
  shows "wire ch w' = wire ch w \<and> s' = s\<lparr>closed := closed s \<or> fut = Close_Start\<rparr>"
proof -
  have dc: "wire c (snd (poll_dc_close P x w)) = wire c w" for c x w
    using law by (simp add: polled_wire_ok_def)
  have pc: "wire c (snd (poll_pc_close P x w)) = wire c w" for c x w
    using law by (simp add: polled_wire_ok_def)
  have peer: "wire c (snd (poll_close_peer P s w)) = wire c w" for c s w
    using pc [of c "peer_connection s" w] by (auto simp: poll_close_peer_def split: prod.split poll.split)
  have unrel: "wire c (snd (poll_close_unreliable P s x w)) = wire c w" for c s x w
    using dc [of c x w] by (auto simp: poll_close_unreliable_def peer split: prod.split poll.split)
  have after: "wire c (snd (poll_after_reliable P s w)) = wire c w" for c s w
    by (auto simp: poll_after_reliable_def peer unrel split: option.split)
  have rel: "wire c (snd (poll_close_reliable P s x w)) = wire c w" for c s x w
    using dc [of c x w] by (auto simp: poll_close_reliable_def after split: prod.split poll.split)
  have step: "wire c (snd (poll_close_step P s f w)) = wire c w" for c s f w
    by (cases f) (simp_all add: rel after unrel peer split: option.split)
  have same: "s\<lparr>closed := closed s\<rparr> = s" for s :: "('ch, 'pc, 'q) session" by simp
  show ?thesis
  proof (cases "fut = Close_Start \<and> closed s")
    case True
    with assms(2) same [of s] show ?thesis by (simp add: poll_close_def)
  next
    case False
    let ?s = "if fut = Close_Start then s\<lparr>closed := True\<rparr> else s"
    have "(r, s', w') = (let (r, w) = poll_close_step P ?s fut w in (r, ?s, w))"
      using assms(2) False by (auto simp: poll_close_def Let_def)
    with step [of ch ?s fut w] same [of s] show ?thesis by (auto split: prod.splits)
  qed
qed

lemma poll_next_keeps:
  "poll_next M st = (r, st') \<Longrightarrow> send_future st' = send_future st \<and> shutdown_future st' = shutdown_future st \<and>
    closed (stream_session st') = closed (stream_session st) \<and>
    reliable_channel (stream_session st') = reliable_channel (stream_session st)"
  by (auto simp: poll_next_def session_recv_def session_recv_wait_def split: poll.splits if_splits)

lemma writer_step_inv:
  assumes law: "polled_wire_ok P wire" and "writer_step dbg P M x y" and inv: "writer_inv wire ch x"
  shows "writer_inv wire ch y"
  using assms(2,3)
proof cases
  case Write
  then show ?thesis using inv write_inv [OF law] by fastforce
next
  case Write_Pending
  then show ?thesis using inv write_inv [OF law] by fastforce
next
  case Flush
  then show ?thesis using inv flush_inv [OF law] by blast
next
  case (Shutdown st w r st' w' acc)
  then obtain r1 st1 w1 where flush0: "poll_flush dbg P st w = Ran (r1, st1, w1)"
    by (auto simp: poll_shutdown_def run_bind_Ran_iff)
  with Shutdown have "\<forall>e. r1 \<noteq> Ready (Inl e)" by (auto simp: poll_shutdown_def)
  note flush = flush0 this
  with inv Shutdown(1) have inv1: "writer_inv wire ch (st1, w1, acc)" using flush_inv [OF law] by blast
  show ?thesis
  proof (cases "r1 = Pending")
    case True
    with Shutdown flush inv1 show ?thesis by (auto simp: poll_shutdown_def)
  next
    case False
    with flush(2) obtain u where r1: "r1 = Ready (Inr u)" by (metis poll.exhaust sum.exhaust)
    obtain p s2 w2 where close: "poll_close P (stream_session st1)
        (case shutdown_future st1 of None \<Rightarrow> Close_Start | Some fut \<Rightarrow> fut) w1 = (p, s2, w2)"
      by (metis prod_cases3)
    from poll_close_wire [OF law this] inv1
    have "writer_inv wire ch (st1\<lparr>stream_session := s2, shutdown_future := f\<rparr>, w2, acc)" for f
      by (simp add: writer_inv_def)
    with Shutdown flush r1 close show ?thesis
      by (auto simp: poll_shutdown_def Let_def split: progress.splits sum.splits)
  qed
next
  case Next
  then show ?thesis using inv by (auto simp: writer_inv_def dest!: poll_next_keeps)
qed

lemma writer_reach_inv:
  assumes "polled_wire_ok P wire" and "reliable_channel s = Some ch" and "wire ch w0 = []"
    and "(writer_step dbg P M)\<^sup>*\<^sup>* (from_session s, w0, []) x"
  shows "writer_inv wire ch x"
  using assms(4)
proof induction
  case base
  with assms(2,3) show ?case by (simp add: writer_inv_def from_session_def)
next
  case (step x y)
  then show ?case using writer_step_inv [OF assms(1)] by blast
qed

section \<open>Polls that fail\<close>

text \<open>What is on the wire when a poll of the writer fails: a part of the frames. The error is one of WebRTC.\<close>

lemma poll_segments_part:
  assumes P: "polled_wire_whole P wire" and "poll_segments P ch segs w = (Done (Inl e), w')"
  shows "prefix (wire ch w') (wire ch w @ map segment_encode segs) \<and> (\<exists>t. e = DataChannel t)"
  using assms(2)
proof (induction segs arbitrary: w)
  case (Cons seg segs)
  obtain r v where send: "poll_dc_send P ch (segment_encode seg) w = (r, v)" by force
  show ?case
  proof (cases r)
    case Pending
    with send Cons.prems show ?thesis by simp
  next
    case (Ready x)
    show ?thesis
    proof (cases x)
      case (Inl t)
      with send Ready Cons.prems have "w' = v" "e = DataChannel t" by auto
      with polled_wire_wholeD(2) [OF P send [unfolded Ready Inl]] show ?thesis by auto
    next
      case (Inr u)
      with send Ready polled_wire_okD(1) [OF polled_wire_wholeD(1) [OF P]]
      have "wire ch v = wire ch w @ [segment_encode seg]" by simp
      with Cons.IH [of v] Cons.prems send Ready Inr show ?thesis by simp
    qed
  qed
qed simp

lemma flush_part:
  assumes P: "polled_wire_whole P wire" and inv: "writer_inv wire ch (st, w, acc)"
    and poll: "poll_flush dbg P st w = Ran (Ready (Inl e), st', w')"
  shows "prefix (wire ch w') (concat (map message_frames acc)) \<and> (\<exists>t. e = io_other (DataChannel t))"
proof (cases "send_future st")
  case None
  with poll show ?thesis by (simp add: poll_flush_def)
next
  case (Some fut)
  with inv obtain segs where fut: "fut = Send_Rest ch segs"
    and wire: "wire ch w @ map segment_encode segs = concat (map message_frames acc)"
    by (auto simp: writer_inv_def)
  with Some poll obtain f where "poll_segments P ch segs w = (Done (Inl f), w')" and "e = io_other f"
    by (auto simp: poll_flush_def Let_def split: prod.splits progress.splits sum.splits)
  with poll_segments_part [OF P] wire show ?thesis by fastforce
qed

lemma write_part:
  assumes P: "polled_wire_whole P wire" and inv: "writer_inv wire ch (st, w, acc)"
    and poll: "poll_write dbg P st buf w = Ran (Ready (Inl e), st', w')"
    and "\<not> closed (stream_session st)" and "length buf \<le> MAX_SEGMENTED"
  shows "prefix (wire ch w') (concat (map message_frames (acc @ [buf]))) \<and> (\<exists>t. e = io_other (DataChannel t))"
proof -
  from poll obtain r1 st1 w1 where flush: "poll_flush dbg P st w = Ran (r1, st1, w1)"
    by (auto simp: poll_write_eq run_bind_Ran_iff)
  show ?thesis
  proof (cases "\<exists>f. r1 = Ready (Inl f)")
    case True
    with poll flush have "poll_flush dbg P st w = Ran (Ready (Inl e), st1, w')" by (auto simp: poll_write_eq)
    from flush_part [OF P inv this] show ?thesis by (auto intro: prefix_prefix)
  next
    case False
    with poll flush obtain u where r1: "r1 = Ready (Inr u)" and start: "start_send dbg P st1 buf w1 = Ran (Ready (Inl e), st', w')"
      by (auto simp: poll_write_eq split: poll.splits sum.splits)
    from False have "\<forall>f. r1 \<noteq> Ready (Inl f)" by blast
    from flush_inv [OF polled_wire_wholeD(1) [OF P] inv flush this] r1 have inv1: "writer_inv wire ch (st1, w1, acc)"
      and same: "stream_session st1 = stream_session st" and idle: "send_future st1 = None" by auto
    from inv1 have ch: "reliable_channel (stream_session st1) = Some ch" by (simp add: writer_inv_def)
    from inv1 idle have wire: "wire ch w1 = concat (map message_frames acc)" by (simp add: writer_inv_def)
    from start assms(4,5) same ch obtain f where
      "poll_segments P ch (spec_segments buf) w1 = (Done (Inl f), w')" and "e = io_other f"
      by (auto simp: start_send_def poll_send_start simp del: poll_send.simps split: prod.splits progress.splits sum.splits)
    with poll_segments_part [OF P] wire show ?thesis by (fastforce simp: message_frames_def)
  qed
qed

lemma poll_close_error:
  assumes "poll_close P s fut w = (Done (Inl e), s', w')"
  shows "\<exists>t. e = WebRtc t"
proof -
  have peer: "\<exists>t. e = WebRtc t" if "poll_close_peer P s w = (Done (Inl e), w')" for s w
    using that by (auto simp: poll_close_peer_def map_err_def split: prod.splits poll.splits sum.splits)
  have unrel: "\<exists>t. e = WebRtc t" if "poll_close_unreliable P s ch w = (Done (Inl e), w')" for s ch w
    using that peer by (auto simp: poll_close_unreliable_def split: prod.splits poll.splits)
  have after: "\<exists>t. e = WebRtc t" if "poll_after_reliable P s w = (Done (Inl e), w')" for s w
    using that peer unrel by (auto simp: poll_after_reliable_def split: option.splits)
  have rel: "\<exists>t. e = WebRtc t" if "poll_close_reliable P s ch w = (Done (Inl e), w')" for s ch w
    using that after by (auto simp: poll_close_reliable_def split: prod.splits poll.splits)
  have "\<exists>t. e = WebRtc t" if "poll_close_step P s f w = (Done (Inl e), w')" for s f w
    using that peer unrel after rel by (cases f) (auto split: option.splits)
  with assms show ?thesis
    by (auto simp: poll_close_def Let_def simp del: poll_close_step.simps split: if_splits prod.splits)
qed

section \<open>Closing comes after flushing\<close>

definition closing_inv ::
    "('ch \<Rightarrow> 'w \<Rightarrow> bytes list) \<Rightarrow> 'ch \<Rightarrow> ('ch, 'pc, 'q) net_stream \<times> 'w \<times> bytes list \<Rightarrow> bool" where
  "closing_inv wire ch x \<longleftrightarrow> writer_inv wire ch x \<and>
     (case x of (st, w, acc) \<Rightarrow>
        (closed (stream_session st) \<longrightarrow> send_future st = None \<and> wire ch w = concat (map message_frames acc)) \<and>
        (shutdown_future st \<noteq> None \<longrightarrow> closed (stream_session st)))"

lemma shutdown_closing:
  assumes law: "polled_wire_ok P wire" and inv: "closing_inv wire ch (st, w, acc)"
    and poll: "poll_shutdown dbg P st w = Ran (r, st', w')"
  shows "(\<forall>e. r \<noteq> Ready (Inl e)) \<or> closed (stream_session st') \<longrightarrow> closing_inv wire ch (st', w', acc)"
    and "r = Ready (Inr ()) \<longrightarrow> closed (stream_session st') \<and> shutdown_future st' = None"
proof -
  from poll obtain r1 st1 w1 where flush: "poll_flush dbg P st w = Ran (r1, st1, w1)"
    by (auto simp: poll_shutdown_def run_bind_Ran_iff)
  note same = poll_flush_session [OF flush]
  have "((\<forall>e. r \<noteq> Ready (Inl e)) \<or> closed (stream_session st') \<longrightarrow> closing_inv wire ch (st', w', acc)) \<and>
    (r = Ready (Inr ()) \<longrightarrow> closed (stream_session st') \<and> shutdown_future st' = None)"
  proof (cases "\<exists>e. r1 = Ready (Inl e)")
    case True
    with poll flush have "r = r1" "st' = st1" by (auto simp: poll_shutdown_def)
    moreover have "\<not> closed (stream_session st)" using True flush inv by (auto simp: closing_inv_def poll_flush_def)
    ultimately show ?thesis using True same by auto
  next
    case False
    from inv have "writer_inv wire ch (st, w, acc)" by (simp add: closing_inv_def)
    from flush_inv [OF law this flush] False have inv1: "writer_inv wire ch (st1, w1, acc)"
      and fut: "shutdown_future st1 = shutdown_future st" and idle: "r1 = Ready (Inr ()) \<Longrightarrow> send_future st1 = None" by auto
    show ?thesis
    proof (cases r1)
      case Pending
      with poll flush have "r = Pending" "st' = st1" "w' = w1" by (auto simp: poll_shutdown_def)
      moreover have "\<not> closed (stream_session st)" using Pending flush inv by (auto simp: closing_inv_def poll_flush_def)
      ultimately show ?thesis using same inv1 fut inv by (simp add: closing_inv_def)
    next
      case (Ready x)
      with False have r1: "r1 = Ready (Inr ())" by (cases x) auto
      define f where "f = (case shutdown_future st1 of None \<Rightarrow> Close_Start | Some fut \<Rightarrow> fut)"
      obtain p s2 w2 where close: "poll_close P (stream_session st1) f w1 = (p, s2, w2)" by (metis prod_cases3)
      from poll_close_wire [OF law close] have keeps: "wire ch w2 = wire ch w1"
        "s2 = (stream_session st1)\<lparr>closed := closed (stream_session st1) \<or> f = Close_Start\<rparr>" by auto
      have shut: "closed s2" using keeps(2) inv fut same by (auto simp: f_def closing_inv_def split: option.splits)
      have result: "w' = w2" "\<exists>g. st' = st1\<lparr>stream_session := s2, shutdown_future := g\<rparr> \<and> (r = Ready (Inr ()) \<longrightarrow> g = None)"
        using poll flush r1 close [unfolded f_def]
        by (auto simp: poll_shutdown_def Let_def split: progress.splits sum.splits)
      have "writer_inv wire ch (st1\<lparr>stream_session := s2, shutdown_future := g\<rparr>, w2, acc)" for g
        using inv1 keeps by (simp add: writer_inv_def)
      moreover have "wire ch w2 = concat (map message_frames acc)"
        using inv1 idle [OF r1] keeps(1) by (simp add: writer_inv_def)
      ultimately show ?thesis using result shut idle [OF r1] by (auto simp: closing_inv_def)
    qed
  qed
  then show "(\<forall>e. r \<noteq> Ready (Inl e)) \<or> closed (stream_session st') \<longrightarrow> closing_inv wire ch (st', w', acc)"
    and "r = Ready (Inr ()) \<longrightarrow> closed (stream_session st') \<and> shutdown_future st' = None" by blast+
qed

lemma closing_step_inv:
  assumes law: "polled_wire_ok P wire" and step: "writer_step dbg P M x y" and inv: "closing_inv wire ch x"
  shows "closing_inv wire ch y"
proof -
  from inv have "writer_inv wire ch x" by (simp add: closing_inv_def)
  with law step have inv': "writer_inv wire ch y" by (rule writer_step_inv)
  have still: "\<not> closed (stream_session st) \<Longrightarrow> closing_inv wire ch (st', w', acc')"
    if "x = (st, w, acc)" "y = (st', w', acc')" "stream_session st' = stream_session st"
      "shutdown_future st' = shutdown_future st" for st w acc st' w' acc'
    using that inv inv' by (simp add: closing_inv_def)
  show ?thesis
    using step
  proof cases
    case (Write st buf w n st' w' acc)
    then show ?thesis using write_keeps [OF Write(3)] inv still
      by (cases "closed (stream_session st)") (auto simp: closing_inv_def poll_write_def start_send_def send_prepare_def)
  next
    case (Write_Pending st buf w st' w' acc)
    then show ?thesis using write_keeps [OF Write_Pending(3)] inv still
      by (cases "closed (stream_session st)") (auto simp: closing_inv_def poll_write_def start_send_def send_prepare_def)
  next
    case (Flush st w r st' w' acc)
    then show ?thesis using flush_keeps [OF Flush(3)] inv still
      by (cases "closed (stream_session st)") (auto simp: closing_inv_def poll_flush_def)
  next
    case (Shutdown st w r st' w' acc)
    with shutdown_closing(1) [OF law _ Shutdown(3)] inv show ?thesis by blast
  next
    case (Next st r st' w acc)
    with poll_next_keeps [OF Next(3)] inv inv' show ?thesis by (simp add: closing_inv_def)
  qed
qed

lemma closing_reach_inv:
  assumes "polled_wire_ok P wire" and "reliable_channel s = Some ch" and "wire ch w0 = []"
    and "(writer_step dbg P M)\<^sup>*\<^sup>* (from_session s, w0, []) x"
  shows "closing_inv wire ch x"
  using assms(4)
proof induction
  case base
  with assms(2,3) show ?case by (simp add: closing_inv_def writer_inv_def from_session_def)
next
  case (step x y)
  then show ?case using closing_step_inv [OF assms(1)] by blast
qed

section \<open>Properties\<close>

text \<open>The buffer 1, 2 is accepted while the channel is busy, and flushed.\<close>

lemma demo_writer_run:
  "(writer_step True lazy_rtc list_mpsc)\<^sup>*\<^sup>*
     (from_session demo_session, \<lparr>busy = True, lazy_frames = []\<rparr>, [])
     (from_session demo_session, \<lparr>busy = True, lazy_frames = [[0, 1, 2]]\<rparr>, [[1, 2]])"
proof -
  let ?st = "from_session demo_session"
  let ?wait = "?st\<lparr>send_future := Some (Send_Rest True [segment_new 0 [1, 2]])\<rparr>"
  let ?step = "writer_step True lazy_rtc list_mpsc"
  have 1: "?step (?st, \<lparr>busy = True, lazy_frames = []\<rparr>, []) (?wait, \<lparr>busy = False, lazy_frames = []\<rparr>, [[1, 2]])"
    using Write [of True lazy_rtc ?st "[1, 2]" "\<lparr>busy = True, lazy_frames = []\<rparr>" 2 ?wait
        "\<lparr>busy = False, lazy_frames = []\<rparr>" list_mpsc "[]"]
    by (simp add: poll_write_def start_send_def from_session_def demo_session_def send_prepare_def ok_or_def
        split_into_segments_def MAX_MESSAGE_SIZE_def lazy_rtc_def)
  have 2: "?step (?wait, \<lparr>busy = False, lazy_frames = []\<rparr>, [[1, 2]]) (?st, \<lparr>busy = True, lazy_frames = [[0, 1, 2]]\<rparr>, [[1, 2]])"
    by (rule Flush [where r = "Ready (Inr ())"])
      (simp_all add: poll_flush_def from_session_def demo_session_def lazy_rtc_def
        segment_encode_def segment_new_def)
  from 1 2 show ?thesis
    by (meson converse_rtranclp_into_rtranclp rtranclp.rtrancl_refl)
qed

text \<open>The writer neither loses nor reorders: in every state reached by polls that did not fail,
  the frames on the wire are a prefix of the frames of the accepted buffers, in order, each buffer
  one message; when no send is pending, as after a finished flush, a receiver of the wire gets
  exactly the accepted buffers (an empty buffer apart, which no receiver accepts).\<close>

theorem writer_in_order:
  assumes "polled_wire_ok P wire" and "reliable_channel s = Some ch" and "wire ch w0 = []"
    and "(writer_step dbg P M)\<^sup>*\<^sup>* (from_session s, w0, []) (st, w, acc)" and "[] \<notin> set acc"
  shows "(\<exists>rest. wire ch w @ rest = concat (map message_frames acc)) \<and>
    (\<exists>more. fst (run_steps (frame_step dbg') (Ran message_new) (wire ch w)) @ more = acc) \<and>
    (send_future st = None \<longrightarrow>
       run_steps (frame_step dbg') (Ran message_new) (wire ch w) = (acc, Ran message_new))"
proof -
  have inv: "writer_inv wire ch (st, w, acc)" by (rule writer_reach_inv [OF assms(1-4)])
  then obtain fs where left: "frames_left ch (send_future st) fs"
    and split: "concat (map message_frames acc) = wire ch w @ fs"
    and small: "list_all (\<lambda>d. length d \<le> MAX_SEGMENTED) acc"
    by (auto simp: writer_inv_def)
  have done_: "send_future st = None \<longrightarrow> fs = []" using left by auto
  have frames: "list_all2 (\<lambda>d fs. session_frames dbg' d = Some fs) acc (map message_frames acc)"
    using frames_of_sendable [OF small assms(5)] by (simp add: message_frames_def [abs_def])
  from run_frames_prefix [OF frames split] frames.deliver_all [OF frames, of "Ran message_new" dbg']
  show ?thesis using split done_ by auto
qed

theorem writer_in_order_witness:
  "run_steps (frame_step True) (Ran message_new)
     (lazy_frames \<lparr>busy = True, lazy_frames = [[0, 1, 2]]\<rparr>) = ([[1, 2]], Ran message_new)"
  using writer_in_order [OF lazy_rtc_ok _ _ demo_writer_run, of True True]
  by (simp add: demo_session_def from_session_def)

text \<open>C20: A shutdown flushes first and then closes: while a send is unfinished or fails, the session
  is left as it is. In every state the writer reaches by polls that did not fail, and after a poll of
  the shutdown there, whatever its result and in which of the polls the closing ends, a session that is
  closed has no pending send, and every frame of the accepted buffers is on the wire. When the shutdown
  is done the session is closed, and from then on a write is refused. (A direct call of \<open>close\<close>
  does not flush; it is not among the steps.)\<close>

theorem shutdown_flushes_first:
  assumes "polled_wire_ok P wire" and "reliable_channel s = Some ch" and "wire ch w0 = []"
    and "(writer_step dbg P M)\<^sup>*\<^sup>* (from_session s, w0, []) (st, w, acc)"
    and "poll_shutdown dbg P st w = Ran (r, st', w')"
  shows "(\<forall>st1 w1 e. poll_flush dbg P st w \<in> {Ran (Pending, st1, w1), Ran (Ready (Inl e), st1, w1)} \<longrightarrow>
      stream_session st' = stream_session st \<and> \<not> closed (stream_session st)) \<and>
    (closed (stream_session st) \<longrightarrow> send_future st = None \<and> wire ch w = concat (map message_frames acc)) \<and>
    (closed (stream_session st') \<longrightarrow> send_future st' = None \<and> wire ch w' = concat (map message_frames acc)) \<and>
    (r = Ready (Inr ()) \<longrightarrow> closed (stream_session st') \<and> shutdown_future st' = None \<and>
      poll_write dbg P st' buf v = Ran (Ready (Inl (io_other ConnectionClosed)), st', v))"
proof -
  have inv: "closing_inv wire ch (st, w, acc)" by (rule closing_reach_inv [OF assms(1-4)])
  note after = shutdown_closing [OF assms(1) inv assms(5)]
  have untouched: "stream_session st' = stream_session st \<and> \<not> closed (stream_session st)"
    if "poll_flush dbg P st w \<in> {Ran (Pending, st1, w1), Ran (Ready (Inl e), st1, w1)}" for st1 w1 e
  proof -
    from that have "stream_session st1 = stream_session st" by (auto dest: poll_flush_session)
    moreover have "stream_session st' = stream_session st1" using that assms(5) by (auto simp: poll_shutdown_def)
    moreover have "\<not> closed (stream_session st)" using that inv by (auto simp: closing_inv_def poll_flush_def)
    ultimately show ?thesis by simp
  qed
  have refused: "poll_write dbg P st' buf v = Ran (Ready (Inl (io_other ConnectionClosed)), st', v)"
    if "closed (stream_session st')" using that after by (simp add: closing_inv_def poll_write_def start_send_def send_prepare_def)
  from inv have now: "closed (stream_session st) \<longrightarrow> send_future st = None \<and> wire ch w = concat (map message_frames acc)"
    by (simp add: closing_inv_def)
  from after have "closed (stream_session st') \<longrightarrow> send_future st' = None \<and> wire ch w' = concat (map message_frames acc)"
    by (simp add: closing_inv_def)
  with untouched now refused after show ?thesis by blast
qed

text \<open>A send is pending, the first poll of the shutdown ends it and waits for the channel to close, and
  the second one is done.\<close>

theorem shutdown_flushes_first_witness:
  "\<exists>st w st' w'. (writer_step True lazy_rtc list_mpsc)\<^sup>*\<^sup>*
      (from_session demo_session, \<lparr>busy = True, lazy_frames = []\<rparr>, []) (st, w, [[1, 2]]) \<and>
    shutdown_future st = Some (Close_Reliable True) \<and>
    poll_shutdown True lazy_rtc st w = Ran (Ready (Inr ()), st', w') \<and>
    closed (stream_session st') \<and> lazy_frames w' = [[0, 1, 2]]"
proof -
  let ?st = "from_session demo_session"
  let ?w = "\<lambda>b fs. \<lparr>busy = b, lazy_frames = fs\<rparr>"
  let ?wait = "?st\<lparr>send_future := Some (Send_Rest True [segment_new 0 [1, 2]])\<rparr>"
  let ?closing = "?st\<lparr>stream_session := demo_session\<lparr>closed := True\<rparr>, shutdown_future := Some (Close_Reliable True)\<rparr>"
  let ?fin = "?st\<lparr>stream_session := demo_session\<lparr>closed := True\<rparr>\<rparr>"
  let ?step = "writer_step True lazy_rtc list_mpsc"
  have 1: "?step (?st, ?w True [], []) (?wait, ?w False [], [[1, 2]])"
    using Write [of True lazy_rtc ?st "[1, 2]" "?w True []" 2 ?wait "?w False []" list_mpsc "[]"]
    by (simp add: poll_write_def start_send_def from_session_def demo_session_def send_prepare_def ok_or_def
        split_into_segments_def MAX_MESSAGE_SIZE_def lazy_rtc_def)
  have 2: "?step (?wait, ?w False [], [[1, 2]]) (?closing, ?w False [[0, 1, 2]], [[1, 2]])"
    by (rule Shutdown [where r = Pending])
      (simp_all add: poll_shutdown_def poll_flush_def from_session_def demo_session_def lazy_rtc_def
        segment_encode_def segment_new_def poll_close_def poll_close_reliable_def)
  have run: "?step\<^sup>*\<^sup>* (?st, ?w True [], []) (?closing, ?w False [[0, 1, 2]], [[1, 2]])"
    using 1 2 by (meson converse_rtranclp_into_rtranclp r_into_rtranclp)
  have fin: "poll_shutdown True lazy_rtc ?closing (?w False [[0, 1, 2]]) = Ran (Ready (Inr ()), ?fin, ?w False [[0, 1, 2]])"
    by (simp add: poll_shutdown_def poll_flush_def from_session_def poll_close_def demo_session_def
        poll_close_reliable_def poll_after_reliable_def poll_close_peer_def lazy_rtc_def map_err_def)
  have "reliable_channel demo_session = Some True" by (simp add: demo_session_def)
  from shutdown_flushes_first [OF lazy_rtc_ok this _ run fin, of "[]" "?w True []"]
  have "closed (stream_session ?fin) \<and> lazy_frames (?w False [[0, 1, 2]]) = concat (map message_frames [[1, 2]])"
    by simp
  with run fin show ?thesis
    by (intro exI [of _ ?closing] exI [of _ "?w False [[0, 1, 2]]"] exI [of _ ?fin]) (simp add: from_session_def)
qed

section \<open>Two sends at the same time\<close>

text \<open>
  \<open>send\<close> takes the session by a shared reference and holds no lock while it sends. The futures of two
  calls are polled in some order, \<open>True\<close> for a poll of the first one; a finished one is not polled again.
\<close>

definition poll_unfinished ::
    "bool \<Rightarrow> ('w, 'ch, 'pc) polled_rtc \<Rightarrow> ('ch, 'pc, 'q) session \<Rightarrow> (unit res, 'ch send_state) progress \<Rightarrow> 'w \<Rightarrow>
     ((unit res, 'ch send_state) progress \<times> 'w) run" where
  "poll_unfinished dbg P s p w = (case p of Done r \<Rightarrow> Ran (p, w) | Waiting fut \<Rightarrow> poll_send dbg P s fut w)"

primrec poll_two ::
    "bool \<Rightarrow> ('w, 'ch, 'pc) polled_rtc \<Rightarrow> ('ch, 'pc, 'q) session \<Rightarrow> bool list \<Rightarrow>
     (unit res, 'ch send_state) progress \<Rightarrow> (unit res, 'ch send_state) progress \<Rightarrow> 'w \<Rightarrow>
     ((unit res, 'ch send_state) progress \<times> (unit res, 'ch send_state) progress \<times> 'w) run" where
  "poll_two dbg P s [] p q w = Ran (p, q, w)"
| "poll_two dbg P s (first # order) p q w =
     (if first then run_bind (poll_unfinished dbg P s p w) (\<lambda>(p, w). poll_two dbg P s order p q w)
      else run_bind (poll_unfinished dbg P s q w) (\<lambda>(q, w). poll_two dbg P s order p q w))"

lemma lazy_send:
  "poll_dc_send lazy_rtc ch b \<lparr>busy = False, lazy_frames = fs\<rparr> =
     (Ready (Inr ()), \<lparr>busy = True, lazy_frames = fs @ [b]\<rparr>)"
  "poll_dc_send lazy_rtc ch b \<lparr>busy = True, lazy_frames = fs\<rparr> = (Pending, \<lparr>busy = False, lazy_frames = fs\<rparr>)"
  by (simp_all add: lazy_rtc_def)

lemma spec_segments_two:
  "10000 < length d \<Longrightarrow> length d \<le> 20000 \<Longrightarrow>
    spec_segments d = [segment_new 1 (take 10000 d), segment_new 0 (drop 10000 d)]"
  by (auto simp: spec_segments_def chunks_long chunks_short MAX_MESSAGE_SIZE_def)

text \<open>Two beginnings and then two tails, as the receiver takes them.\<close>

lemma crossed_frames:
  assumes "10000 < length a" and "10000 < length b"
  shows "run_steps (frame_step dbg) (Ran message_new)
      [segment_encode (segment_new 1 (take 10000 a)), segment_encode (segment_new 1 (take 10000 b)),
       segment_encode (segment_new 0 (drop 10000 a)), segment_encode (segment_new 0 (drop 10000 b))] =
    ([drop 10000 a, drop 10000 b], Ran message_new)"
proof -
  have ne: "take 10000 d \<noteq> []" "drop 10000 d \<noteq> []" if "10000 < length d" for d :: bytes
    using that by auto
  show ?thesis
    using ne [OF assms(1)] ne [OF assms(2)]
    by (simp add: frame_step_def segment_decode_encode add_segment_eq accept_segment_def
        message_new_def segment_new_def del: take_eq_Nil drop_eq_Nil)
qed

text \<open>C22: Two tasks that send at the same time can destroy both messages, and nobody is told. On any
  session that is open and has its reliable channel, over a channel that makes its callers wait, there is
  an order of polls in which the two sends of any messages of two segments both end with success, and a
  session at the other end that takes in the frames receives the two tails as messages and
  nothing else; whatever order of steps that session takes, it never gets anything but these.\<close>

theorem concurrent_sends_corrupt:
  assumes "\<not> closed s" and "reliable_channel s = Some ch"
    and "10000 < length a" and "length a \<le> 20000" and "10000 < length b" and "length b \<le> 20000"
    and "mpsc_ok M queued cap" and "session_with_capacity M pc n = Ran t"
  shows "\<exists>order w. poll_two dbg lazy_rtc s order (Waiting (Send_Start a)) (Waiting (Send_Start b))
      \<lparr>busy = False, lazy_frames = []\<rparr> = Ran (Done (Inr ()), Done (Inr ()), w) \<and>
    (\<exists>y. (session_step dbg' R M)\<^sup>*\<^sup>* (running_start t) y \<and> frames_in y = lazy_frames w \<and>
       received y = [drop 10000 a, drop 10000 b] \<and> queued (packet_channel (sess y)) = [] \<and> handler y = Idle) \<and>
    (\<forall>y. (session_step dbg' R M)\<^sup>*\<^sup>* (running_start t) y \<and> frames_in y = lazy_frames w \<longrightarrow>
       received y @ queued (packet_channel (sess y)) @ in_handler (handler y) = [drop 10000 a, drop 10000 b])"
proof -
  let ?f = "\<lambda>n d. segment_encode (segment_new n d)"
  let ?w = "\<lparr>busy = False, lazy_frames = [?f 1 (take 10000 a), ?f 1 (take 10000 b), ?f 0 (drop 10000 a), ?f 0 (drop 10000 b)]\<rparr>"
  have start: "poll_send dbg lazy_rtc s (Send_Start d) w = Ran (poll_segments lazy_rtc ch (spec_segments d) w)"
    if "length d \<le> 20000" for d w
    using that assms(1,2) by (simp add: poll_send_start MAX_SEGMENTED_eq del: poll_send.simps)
  have two: "poll_two dbg lazy_rtc s [True, False, True, False, False]
      (Waiting (Send_Start a)) (Waiting (Send_Start b)) \<lparr>busy = False, lazy_frames = []\<rparr> =
      Ran (Done (Inr ()), Done (Inr ()), ?w\<lparr>busy := True\<rparr>)"
    using assms(3-6)
    by (simp add: poll_unfinished_def start spec_segments_two lazy_send del: poll_send.simps(1))
  note run = crossed_frames [OF assms(3,5), of dbg']
  have inv: "session_inv dbg' queued cap n (running_start t)" using assms(7,8) by (rule session_inv_start)
  have "0 < n" and "\<not> closed t" using assms(8) mpsc_channel_Ran(3) [OF assms(7)]
    by (auto simp: session_with_capacity_def run_bind_Ran_iff)
  with feed [OF assms(7) inv, of "lazy_frames ?w" R] run obtain y where
    y: "(session_step dbg' R M)\<^sup>*\<^sup>* (running_start t) y" "frames_in y = lazy_frames ?w" "handler y = Idle"
    "queued (packet_channel (sess y)) = []" by (auto simp: running_start_def)
  have all: "received y @ queued (packet_channel (sess y)) @ in_handler (handler y) = [drop 10000 a, drop 10000 b]"
    if "(session_step dbg' R M)\<^sup>*\<^sup>* (running_start t) y \<and> frames_in y = lazy_frames ?w" for y
    using session_steps_inv [OF assms(7) inv, of R y] that run by (simp add: session_inv_def)
  with y have "received y = [drop 10000 a, drop 10000 b]" by fastforce
  with two y all show ?thesis
    by (intro exI [of _ "[True, False, True, False, False]"] exI [of _ "?w\<lparr>busy := True\<rparr>"]) auto
qed

theorem concurrent_sends_corrupt_witness:
  "\<exists>order w. poll_two True lazy_rtc demo_session order
      (Waiting (Send_Start (replicate 10001 1))) (Waiting (Send_Start (replicate 10001 2)))
      \<lparr>busy = False, lazy_frames = []\<rparr> = Ran (Done (Inr ()), Done (Inr ()), w) \<and>
    (\<exists>y. (session_step True demo_rtc list_mpsc)\<^sup>*\<^sup>* demo_receiver y \<and> frames_in y = lazy_frames w \<and>
       received y = [[1], [2]])"
proof -
  let ?a = "replicate 10001 (1 :: u8)" and ?b = "replicate 10001 (2 :: u8)"
  have open_: "\<not> closed demo_session" "reliable_channel demo_session = Some True" by (simp_all add: demo_session_def)
  have len: "10000 < length ?a" "length ?a \<le> 20000" "10000 < length ?b" "length ?b \<le> 20000"
    and tails: "drop 10000 ?a = [1]" "drop 10000 ?b = [2]" by simp_all
  from concurrent_sends_corrupt [OF open_ len list_mpsc_ok demo_with_capacity, unfolded tails, of True True demo_rtc]
  show ?thesis unfolding demo_receiver_def by blast
qed

end
