(* ===== verification/Duplex.thy ===== *)
theory Duplex
  imports Stream
begin

text \<open>
  Both ends of a stream (src/src/transport/stream.rs): what is written into a \<open>NethernetStream\<close> is
  read from the stream at the other end. The reading side interleaves the frames that arrive with
  polls of its \<open>SessionStream\<close>, with direct calls of recv, and with close; it is a refinement of the
  session of theory Session. The lock of the receiver is not modelled here, so that a direct call may
  take a message also while the future of the \<open>SessionStream\<close> holds the lock: what is shown holds
  for more runs than the code has (theory Recv_Lock has the lock).
\<close>

section \<open>The operations that forward to the session\<close>

definition stream_send ::
    "bool \<Rightarrow> ('w, 'ch, 'pc) rtc \<Rightarrow> ('ch, 'pc, 'q) net_stream \<Rightarrow> bytes \<Rightarrow> 'w \<Rightarrow> (unit res \<times> 'w) run" where
  "stream_send dbg R st data w = session_send dbg R (stream_session st) data w"

definition stream_recv ::
    "('q, bytes) mpsc \<Rightarrow> ('ch, 'pc, 'q) net_stream \<Rightarrow> (bytes option res \<times> ('ch, 'pc, 'q) net_stream) poll" where
  "stream_recv M st =
     poll_map (\<lambda>(r, s). (r, st\<lparr>stream_session := s\<rparr>)) (session_recv M (stream_session st))"

definition stream_close ::
    "('w, 'ch, 'pc) rtc \<Rightarrow> ('ch, 'pc, 'q) net_stream \<Rightarrow> 'w \<Rightarrow> unit res \<times> ('ch, 'pc, 'q) net_stream \<times> 'w" where
  "stream_close R st w =
     (let (r, s, w) = session_close R (stream_session st) w in (r, st\<lparr>stream_session := s\<rparr>, w))"

section \<open>The reading side\<close>

text \<open>The last two fields are history: the frames that came in and the items handed out.\<close>

record ('ch, 'pc, 'q) reading =
  read_stream :: "('ch, 'pc, 'q) net_stream"
  read_handler :: handler
  read_frames :: "bytes list"
  read_items :: "bytes list"

definition reading_start :: "('ch, 'pc, 'q) session \<Rightarrow> ('ch, 'pc, 'q) reading" where
  "reading_start s =
     \<lparr>read_stream = from_session s, read_handler = Idle, read_frames = [], read_items = []\<rparr>"

fun item_of :: "bytes io_res option poll \<Rightarrow> bytes list" where
  "item_of (Ready (Some (Inr d))) = [d]"
| "item_of _ = []"

inductive reader_step ::
    "bool \<Rightarrow> ('w, 'ch, 'pc) rtc \<Rightarrow> ('q, bytes) mpsc \<Rightarrow>
     ('ch, 'pc, 'q) reading \<Rightarrow> ('ch, 'pc, 'q) reading \<Rightarrow> bool"
  for dbg R M where
  Incoming: "read_handler x = Idle \<Longrightarrow>
    session_on_message dbg (stream_session (read_stream x)) data = Ran (out, s) \<Longrightarrow>
    reader_step dbg R M x (x\<lparr>read_stream := (read_stream x)\<lparr>stream_session := s\<rparr>,
      read_handler := handler_after out, read_frames := read_frames x @ [data]\<rparr>)"
| Incoming_Panic: "read_handler x = Idle \<Longrightarrow>
    session_on_message dbg (stream_session (read_stream x)) data = Panic \<Longrightarrow>
    reader_step dbg R M x (x\<lparr>read_handler := Crashed, read_frames := read_frames x @ [data]\<rparr>)"
| Forwarded: "read_handler x = Sending d \<Longrightarrow>
    session_forward M (stream_session (read_stream x)) d = Ready s \<Longrightarrow>
    reader_step dbg R M x
      (x\<lparr>read_stream := (read_stream x)\<lparr>stream_session := s\<rparr>, read_handler := Idle\<rparr>)"
| Polled: "poll_next M (read_stream x) = (r, st) \<Longrightarrow>
    reader_step dbg R M x (x\<lparr>read_stream := st, read_items := read_items x @ item_of r\<rparr>)"
| Received_Directly: "stream_recv M (read_stream x) = Ready (Inr (Some d), st) \<Longrightarrow>
    reader_step dbg R M x (x\<lparr>read_stream := st, read_items := read_items x @ [d]\<rparr>)"
| Closed_Directly: "stream_close R (read_stream x) w = (r, st, w') \<Longrightarrow>
    reader_step dbg R M x (x\<lparr>read_stream := st\<rparr>)"

section \<open>It refines the session\<close>

definition running_of :: "('ch, 'pc, 'q) reading \<Rightarrow> ('ch, 'pc, 'q) running" where
  "running_of x = \<lparr>sess = stream_session (read_stream x), handler = read_handler x,
     waiting = (if recv_waiting (read_stream x) then 1 else 0),
     frames_in = read_frames x, received = read_items x\<rparr>"

lemma running_start_of: "running_of (reading_start s) = running_start s"
  by (simp add: running_of_def reading_start_def from_session_def running_start_def)

text \<open>A wait for a message ends with one.\<close>

lemma recv_wait_Ready:
  assumes "mpsc_ok M queued cap" and "session_recv_wait M s = Ready (r, s')"
  obtains d where "r = Inr (Some d)"
proof (cases "queued (packet_channel s)")
  case Nil
  with assms show ?thesis by (simp add: session_recv_wait_def mpsc_recv_empty)
next
  case (Cons d ds)
  from assms(1) Cons obtain q where "mpsc_recv M (packet_channel s) = Ready (Some d, q)"
    by (rule mpsc_recv_some)
  with assms(2) show ?thesis by (intro that [of d]) (simp add: session_recv_wait_def)
qed

lemma poll_next_steps:
  assumes M: "mpsc_ok M queued cap" and poll: "poll_next M (read_stream x) = (r, st)"
  shows "(session_step dbg R M)\<^sup>*\<^sup>* (running_of x)
    (running_of (x\<lparr>read_stream := st, read_items := read_items x @ item_of r\<rparr>))"
proof -
  let ?s = "stream_session (read_stream x)"
  show ?thesis
  proof (cases "session_recv_wait M ?s")
    case Pending
    show ?thesis
    proof (cases "recv_waiting (read_stream x) \<or> closed ?s")
      case True
      with Pending poll show ?thesis
        by (auto simp: poll_next_def session_recv_def running_of_def split: if_splits)
    next
      case False
      with Pending poll have "session_step dbg R M (running_of x)
          (running_of (x\<lparr>read_stream := st, read_items := read_items x @ item_of r\<rparr>))"
        using session_step.Recv_Enter [of "running_of x" dbg R M]
        by (auto simp: poll_next_def session_recv_def running_of_def)
      then show ?thesis by (rule r_into_rtranclp)
    qed
  next
    case (Ready y)
    then obtain res s where y: "session_recv_wait M ?s = Ready (res, s)" by (cases y) auto
    from M this obtain d where d: "res = Inr (Some d)" by (rule recv_wait_Ready)
    consider (waits) "recv_waiting (read_stream x)" | (closed) "\<not> recv_waiting (read_stream x)" "closed ?s"
      | (enters) "\<not> recv_waiting (read_stream x)" "\<not> closed ?s" by blast
    then show ?thesis
    proof cases
      case waits
      with poll y d have "session_step dbg R M (running_of x)
          (running_of (x\<lparr>read_stream := st, read_items := read_items x @ item_of r\<rparr>))"
        using session_step.Recv_Take [of "running_of x" 0 M d s dbg R]
        by (auto simp: poll_next_def running_of_def)
      then show ?thesis by (rule r_into_rtranclp)
    next
      case closed
      with poll show ?thesis by (auto simp: poll_next_def session_recv_def running_of_def)
    next
      case enters
      with poll y d take_steps [of M "running_of x" d s dbg R] show ?thesis
        by (auto simp: poll_next_def session_recv_def running_of_def)
    qed
  qed
qed

lemma reader_step_refines:
  assumes M: "mpsc_ok M queued cap" and "reader_step dbg R M x y"
  shows "(session_step dbg R M)\<^sup>*\<^sup>* (running_of x) (running_of y)"
  using assms(2)
proof cases
  case (Incoming data out s)
  then have "session_step dbg R M (running_of x) (running_of y)"
    using session_step.Frame [of "running_of x" dbg data out s R M] by (simp add: running_of_def)
  then show ?thesis by (rule r_into_rtranclp)
next
  case (Incoming_Panic data)
  then have "session_step dbg R M (running_of x) (running_of y)"
    using session_step.Frame_Panic [of "running_of x" dbg data R M] by (simp add: running_of_def)
  then show ?thesis by (rule r_into_rtranclp)
next
  case (Forwarded d s)
  then have "session_step dbg R M (running_of x) (running_of y)"
    using session_step.Forward [of "running_of x" d M s dbg R] by (simp add: running_of_def)
  then show ?thesis by (rule r_into_rtranclp)
next
  case (Polled r st)
  then show ?thesis using poll_next_steps [OF M] by simp
next
  case (Received_Directly d st)
  then show ?thesis
    using take_steps [of M "running_of x" d _ dbg R]
    by (auto simp: stream_recv_def session_recv_def running_of_def split: if_splits)
next
  case (Closed_Directly w r st w')
  then obtain s where "session_close R (stream_session (read_stream x)) w = (r, s, w')"
    "st = (read_stream x)\<lparr>stream_session := s\<rparr>"
    by (auto simp: stream_close_def split: prod.splits)
  then have "session_step dbg R M (running_of x) (running_of y)"
    using Closed_Directly session_step.Close [of R "running_of x" w r s w' dbg M] by (simp add: running_of_def)
  then show ?thesis by (rule r_into_rtranclp)
qed

lemma reader_reach:
  assumes "mpsc_ok M queued cap" and "(reader_step dbg R M)\<^sup>*\<^sup>* (reading_start s) x"
  shows "(session_step dbg R M)\<^sup>*\<^sup>* (running_start s) (running_of x)"
  using assms(2)
proof (induction rule: rtranclp_induct)
  case base
  show ?case by (simp add: running_start_of)
next
  case (step y z)
  with reader_step_refines [OF assms(1)] show ?case by (meson rtranclp_trans)
qed

section \<open>What was accepted is what is read\<close>

lemma reader_delivers:
  assumes "polled_wire_ok P wire" and "mpsc_ok M queued cap" and "reliable_channel s = Some ch"
    and "wire ch w0 = []" and "(writer_step dbg P M')\<^sup>*\<^sup>* (from_session s, w0, []) (st, w, acc)"
    and "[] \<notin> set acc" and "session_with_capacity M pc n = Ran t"
    and "(reader_step dbg' R M)\<^sup>*\<^sup>* (reading_start t) x" and "wire ch w = read_frames x @ rest"
  shows "\<exists>more. read_items x @ queued (packet_channel (stream_session (read_stream x))) @
      in_handler (read_handler x) @ more = acc \<and>
    (rest = [] \<and> send_future st = None \<longrightarrow> more = [])"
proof -
  have inv: "writer_inv wire ch (st, w, acc)" by (rule writer_reach_inv [OF assms(1,3-5)])
  then obtain fs where left: "frames_left ch (send_future st) fs"
    and split: "concat (map message_frames acc) = wire ch w @ fs"
    and small: "list_all (\<lambda>d. length d \<le> MAX_SEGMENTED) acc"
    by (auto simp: writer_inv_def)
  have frames: "list_all2 (\<lambda>d fs. session_frames dbg' d = Some fs) acc (map message_frames acc)"
    using frames_of_sendable [OF small assms(6)] by (simp add: message_frames_def [abs_def])
  have "session_inv dbg' queued cap n (running_of x)"
    by (rule session_reach_inv [OF assms(2,7) reader_reach [OF assms(2,8)]])
  moreover have "concat (map message_frames acc) = frames_in (running_of x) @ rest @ fs"
    using split assms(9) by (simp add: running_of_def)
  ultimately have "\<exists>more. received (running_of x) @ queued (packet_channel (sess (running_of x))) @
      in_handler (handler (running_of x)) @ more = acc \<and> (rest @ fs = [] \<longrightarrow> more = [])"
    using frames by (intro receives_prefix)
  moreover have "rest = [] \<and> send_future st = None \<longrightarrow> rest @ fs = []" using left by auto
  ultimately show ?thesis by (auto simp: running_of_def)
qed

section \<open>Properties\<close>

text \<open>C1: A stream delivers what was written: one end writes through polls that do not fail, the other
  has taken in some of the frames on the wire, in order, and polls its items. In every reachable
  state of both, the items read, those still queued and the one the handler holds are in this
  order a prefix of the buffers that were accepted, so that the bytes read are a prefix of the
  bytes written; when nothing is pending at the writer and all frames have been taken in, it is
  all of them. (No accepted buffer is empty: the frame of an empty message is refused by every receiver.)\<close>

theorem stream_end_to_end:
  assumes "polled_wire_ok P wire" and "mpsc_ok M queued cap" and "reliable_channel s = Some ch"
    and "wire ch w0 = []" and "(writer_step dbg P M')\<^sup>*\<^sup>* (from_session s, w0, []) (st, w, acc)"
    and "[] \<notin> set acc" and "session_with_capacity M pc n = Ran t"
    and "(reader_step dbg' R M)\<^sup>*\<^sup>* (reading_start t) x" and "wire ch w = read_frames x @ rest"
  shows "\<exists>more. read_items x @ queued (packet_channel (stream_session (read_stream x))) @
      in_handler (read_handler x) @ more = acc \<and>
    (\<exists>bytes_left. concat (read_items x) @ bytes_left = concat acc) \<and>
    (rest = [] \<and> send_future st = None \<longrightarrow> more = [])"
proof -
  from reader_delivers [OF assms] obtain more where
    "read_items x @ queued (packet_channel (stream_session (read_stream x))) @ in_handler (read_handler x) @ more = acc"
    "rest = [] \<and> send_future st = None \<longrightarrow> more = []" by blast
  then show ?thesis by auto
qed

theorem stream_end_to_end_witness:
  "\<exists>x. (reader_step True demo_rtc list_mpsc)\<^sup>*\<^sup>* (reading_start (demo_session\<lparr>reliable_channel := None\<rparr>)) x \<and>
    concat (read_items x) = [1, 2] \<and> (\<exists>bytes_left. [1, 2] @ bytes_left = concat [[1 :: u8, 2]])"
proof -
  let ?s = "demo_session\<lparr>reliable_channel := None\<rparr>"
  let ?q = "?s\<lparr>packet_channel := ([[1, 2]], 4)\<rparr>"
  let ?x = "\<lambda>s h fs r. \<lparr>read_stream = from_session s, read_handler = h, read_frames = fs, read_items = r\<rparr>"
  let ?step = "reader_step True demo_rtc list_mpsc"
  have frame: "session_on_message True ?s [0, 1, 2] = Ran (Some [1, 2], ?s)"
    by (simp add: session_on_message_eq frame_step_def segment_decode_def add_segment_eq
        accept_segment_def demo_session_def message_new_def)
  have 1: "?step (?x ?s Idle [] []) (?x ?s (Sending [1, 2]) [[0, 1, 2]] [])"
    using Incoming [of "?x ?s Idle [] []" True "[0, 1, 2]" "Some [1, 2]" ?s demo_rtc list_mpsc] frame
    by (simp add: handler_after_def from_session_def)
  have 2: "?step (?x ?s (Sending [1, 2]) [[0, 1, 2]] []) (?x ?q Idle [[0, 1, 2]] [])"
    using Forwarded [of "?x ?s (Sending [1, 2]) [[0, 1, 2]] []" "[1, 2]" list_mpsc ?q]
    by (simp add: session_forward_def list_mpsc_def demo_session_def from_session_def)
  have 3: "?step (?x ?q Idle [[0, 1, 2]] []) (?x ?s Idle [[0, 1, 2]] [[1, 2]])"
    using Polled [of list_mpsc "?x ?q Idle [[0, 1, 2]] []" "Ready (Some (Inr [1, 2]))" "from_session ?s"]
    by (simp add: poll_next_def session_recv_def session_recv_wait_def list_mpsc_def demo_session_def from_session_def)
  from 1 2 3 have run: "?step\<^sup>*\<^sup>* (reading_start ?s) (?x ?s Idle [[0, 1, 2]] [[1, 2]])"
    unfolding reading_start_def by (meson converse_rtranclp_into_rtranclp rtranclp.rtrancl_refl)
  have "reliable_channel demo_session = Some True" by (simp add: demo_session_def)
  from stream_end_to_end [OF lazy_rtc_ok list_mpsc_ok this _ demo_writer_run _ demo_with_capacity run, of "[]"]
  have "\<exists>bytes_left. [1, 2] @ bytes_left = concat [[1 :: u8, 2]]" by simp
  with run show ?thesis by (intro exI [of _ "?x ?s Idle [[0, 1, 2]] [[1, 2]]"]) simp
qed

end
