(* ===== verification/Recv_Lock.thy ===== *)
theory Recv_Lock
  imports Duplex
begin

text \<open>
  The lock of the receiver (\<open>packet_rx\<close> in src/src/session/mod.rs) and the calls of \<open>recv\<close> that ask
  for it, one of which is the future that the \<open>SessionStream\<close> of a \<open>NethernetStream\<close> keeps from one
  poll to the next (src/src/transport/stream.rs). The lock is the \<open>Mutex\<close> of tokio, with its
  documented behaviour: it is given to its callers first in, first out, a caller has it until its
  guard is dropped, and a call that is dropped leaves the line. Shown is that no message is lost when
  calls are dropped, and that a call which has the lock and is neither polled nor dropped keeps
  every other call from a message.
\<close>

section \<open>Calls of recv\<close>

text \<open>A call that has not been polled, or one that has asked for the lock.\<close>

datatype recv_call = Recv_Start | Recv_Asked

text \<open>
  The first of \<open>lock_queue\<close> has the lock. The last two fields are history: what the handler has
  queued, and what was returned to which call.
\<close>

record ('ch, 'pc, 'q) locked =
  locked_session :: "('ch, 'pc, 'q) session"
  lock_queue :: "nat list"
  recv_calls :: "nat \<rightharpoonup> recv_call"
  forwarded :: "bytes list"
  taken :: "(nat \<times> bytes) list"

text \<open>The end of a call, by its result or because it is dropped: its guard, or its place, is gone.\<close>

definition end_call :: "nat \<Rightarrow> ('ch, 'pc, 'q) locked \<Rightarrow> ('ch, 'pc, 'q) locked" where
  "end_call k x = x\<lparr>lock_queue := removeAll k (lock_queue x), recv_calls := (recv_calls x)(k := None)\<rparr>"

definition has_lock :: "nat \<Rightarrow> ('ch, 'pc, 'q) locked \<Rightarrow> bool" where
  "has_lock k x \<longleftrightarrow> (case lock_queue x of [] \<Rightarrow> False | j # _ \<Rightarrow> j = k)"

text \<open>The call behind the check of the closed flag: the lock, and then the receiver.\<close>

definition poll_asked ::
    "('q, bytes) mpsc \<Rightarrow> nat \<Rightarrow> ('ch, 'pc, 'q) locked \<Rightarrow> bytes option res poll \<times> ('ch, 'pc, 'q) locked" where
  "poll_asked M k x =
     (if has_lock k x then
        case session_recv_wait M (locked_session x) of
          Pending \<Rightarrow> (Pending, x)
        | Ready (r, s) \<Rightarrow>
            (Ready r, (end_call k x)\<lparr>locked_session := s,
               taken := taken x @ (case r of Inr (Some d) \<Rightarrow> [(k, d)] | _ \<Rightarrow> [])\<rparr>)
      else (Pending, x))"

definition poll_recv ::
    "('q, bytes) mpsc \<Rightarrow> nat \<Rightarrow> ('ch, 'pc, 'q) locked \<Rightarrow> bytes option res poll \<times> ('ch, 'pc, 'q) locked" where
  "poll_recv M k x =
     (case recv_calls x k of
        None \<Rightarrow> (Pending, x)
      | Some Recv_Start \<Rightarrow>
          if closed (locked_session x) then (Ready (Inr None), end_call k x)
          else poll_asked M k (x\<lparr>lock_queue := lock_queue x @ [k],
            recv_calls := (recv_calls x)(k \<mapsto> Recv_Asked)\<rparr>)
      | Some Recv_Asked \<Rightarrow> poll_asked M k x)"

text \<open>
  The call 0 is the \<open>recv_future\<close> of the \<open>SessionStream\<close>: made with the stream, and made anew when it
  has given its result.
\<close>

definition lock_start :: "('ch, 'pc, 'q) session \<Rightarrow> ('ch, 'pc, 'q) locked" where
  "lock_start s = \<lparr>locked_session = s, lock_queue = [], recv_calls = [0 \<mapsto> Recv_Start],
     forwarded = [], taken = []\<rparr>"

definition poll_next_locked ::
    "('q, bytes) mpsc \<Rightarrow> ('ch, 'pc, 'q) locked \<Rightarrow> bytes io_res option poll \<times> ('ch, 'pc, 'q) locked" where
  "poll_next_locked M x =
     (case poll_recv M 0 x of
        (Pending, x) \<Rightarrow> (Pending, x)
      | (Ready result, x) \<Rightarrow>
          (Ready (case result of
              Inr (Some data) \<Rightarrow> Some (Inr data)
            | Inr None \<Rightarrow> None
            | Inl e \<Rightarrow> Some (Inl (io_other e))),
           x\<lparr>recv_calls := (recv_calls x)(0 \<mapsto> Recv_Start)\<rparr>))"

section \<open>Many callers\<close>

text \<open>Who does a step: the caller whose call it is, or the tasks of the session.\<close>

datatype actor = Caller nat | Session_Task

inductive lock_step ::
    "('w, 'ch, 'pc) rtc \<Rightarrow> ('q, bytes) mpsc \<Rightarrow> actor \<Rightarrow>
     ('ch, 'pc, 'q) locked \<Rightarrow> ('ch, 'pc, 'q) locked \<Rightarrow> bool"
  for R M where
  Call: "recv_calls x k = None \<Longrightarrow>
    lock_step R M (Caller k) x (x\<lparr>recv_calls := (recv_calls x)(k \<mapsto> Recv_Start)\<rparr>)"
| Poll: "k \<noteq> 0 \<Longrightarrow> poll_recv M k x = (r, y) \<Longrightarrow> lock_step R M (Caller k) x y"
| Drop: "k \<noteq> 0 \<Longrightarrow> lock_step R M (Caller k) x (end_call k x)"
| Poll_Next: "poll_next_locked M x = (r, y) \<Longrightarrow> lock_step R M (Caller 0) x y"
| Queue_Message: "session_forward M (locked_session x) d = Ready s \<Longrightarrow>
    lock_step R M Session_Task x (x\<lparr>locked_session := s, forwarded := forwarded x @ [d]\<rparr>)"
| Close_Session: "session_close R (locked_session x) w = (r, s, w') \<Longrightarrow>
    lock_step R M Session_Task x (x\<lparr>locked_session := s\<rparr>)"

definition any_step ::
    "('w, 'ch, 'pc) rtc \<Rightarrow> ('q, bytes) mpsc \<Rightarrow> ('ch, 'pc, 'q) locked \<Rightarrow> ('ch, 'pc, 'q) locked \<Rightarrow> bool" where
  "any_step R M x y \<longleftrightarrow> (\<exists>a. lock_step R M a x y)"

text \<open>A step in which the caller \<open>k\<close> does nothing with its call.\<close>

definition step_without ::
    "('w, 'ch, 'pc) rtc \<Rightarrow> ('q, bytes) mpsc \<Rightarrow> nat \<Rightarrow> ('ch, 'pc, 'q) locked \<Rightarrow> ('ch, 'pc, 'q) locked \<Rightarrow> bool" where
  "step_without R M k x y \<longleftrightarrow> (\<exists>a. a \<noteq> Caller k \<and> lock_step R M a x y)"

section \<open>The invariant\<close>

text \<open>In line are the calls that have asked, once each; and every message is somewhere.\<close>

abbreviation queue_of :: "('q \<Rightarrow> bytes list) \<Rightarrow> ('ch, 'pc, 'q) locked \<Rightarrow> bytes list" where
  "queue_of queued x \<equiv> queued (packet_channel (locked_session x))"

definition lock_inv :: "('q \<Rightarrow> bytes list) \<Rightarrow> ('ch, 'pc, 'q) locked \<Rightarrow> bool" where
  "lock_inv queued x \<longleftrightarrow>
     distinct (lock_queue x) \<and> set (lock_queue x) = {k. recv_calls x k = Some Recv_Asked} \<and>
     map snd (taken x) @ queue_of queued x = forwarded x"

lemma lock_inv_start: "queued (packet_channel s) = [] \<Longrightarrow> lock_inv queued (lock_start s)"
  by (auto simp: lock_inv_def lock_start_def)

lemma new_call_inv:
  "lock_inv queued x \<Longrightarrow> recv_calls x k = None \<Longrightarrow>
    lock_inv queued (x\<lparr>recv_calls := (recv_calls x)(k \<mapsto> Recv_Start)\<rparr>)"
  by (auto simp: lock_inv_def)

lemma end_call_inv: "lock_inv queued x \<Longrightarrow> lock_inv queued (end_call k x)"
  by (auto simp: lock_inv_def end_call_def distinct_removeAll)

lemma has_lock_iff: "has_lock k x \<longleftrightarrow> (\<exists>ks. lock_queue x = k # ks)"
  by (simp add: has_lock_def split: list.split)

text \<open>A poll of a call behind the check either waits or takes the oldest message.\<close>

lemma poll_asked_cases:
  assumes M: "mpsc_ok M queued cap" and poll: "poll_asked M k x = (r, y)"
  obtains (waits) "r = Pending" "y = x" "has_lock k x \<longrightarrow> queue_of queued x = []"
  | (takes) d ds q ks where "r = Ready (Inr (Some d))" "lock_queue x = k # ks"
      "queue_of queued x = d # ds" "queued q = ds"
      "y = (end_call k x)\<lparr>locked_session := (locked_session x)\<lparr>packet_channel := q\<rparr>, taken := taken x @ [(k, d)]\<rparr>"
proof (cases "has_lock k x")
  case False
  with poll waits show thesis by (auto simp: poll_asked_def)
next
  case True
  then obtain ks where line: "lock_queue x = k # ks" by (auto simp: has_lock_iff)
  show thesis
  proof (cases "queue_of queued x")
    case Nil
    with M have "session_recv_wait M (locked_session x) = Pending"
      by (simp add: session_recv_wait_def mpsc_recv_empty)
    with poll True Nil waits show thesis by (simp add: poll_asked_def)
  next
    case (Cons d ds)
    from M Cons obtain q where "mpsc_recv M (packet_channel (locked_session x)) = Ready (Some d, q)" "queued q = ds"
      by (rule mpsc_recv_some)
    with poll True line Cons takes [of d ks ds q] show thesis
      by (auto simp: poll_asked_def session_recv_wait_def)
  qed
qed

lemma poll_asked_inv:
  assumes M: "mpsc_ok M queued cap" and inv: "lock_inv queued x" and poll: "poll_asked M k x = (r, y)"
  shows "lock_inv queued y"
  using M poll
proof (cases rule: poll_asked_cases)
  case waits
  with inv show ?thesis by simp
next
  case (takes d ds q ks)
  from end_call_inv [OF inv, of k] takes show ?thesis by (simp add: lock_inv_def end_call_def)
qed

lemma poll_recv_inv:
  assumes M: "mpsc_ok M queued cap" and inv: "lock_inv queued x" and poll: "poll_recv M k x = (r, y)"
  shows "lock_inv queued y"
proof -
  let ?x = "x\<lparr>lock_queue := lock_queue x @ [k], recv_calls := (recv_calls x)(k \<mapsto> Recv_Asked)\<rparr>"
  have "lock_inv queued ?x" if "recv_calls x k = Some Recv_Start"
    using inv that by (auto simp: lock_inv_def)
  with poll inv end_call_inv [OF inv] poll_asked_inv [OF M] show ?thesis
    by (auto simp: poll_recv_def split: option.splits recv_call.splits if_splits)
qed

text \<open>A result ends the call.\<close>

lemma poll_recv_ends:
  assumes M: "mpsc_ok M queued cap" and poll: "poll_recv M k x = (Ready r, y)"
  shows "recv_calls y k = None" and "k \<notin> set (lock_queue y)"
proof -
  have asked: "recv_calls y k = None \<and> k \<notin> set (lock_queue y)" if "poll_asked M k z = (Ready r, y)" for z
    using M that by (cases rule: poll_asked_cases) (auto simp: end_call_def)
  have "recv_calls y k = None \<and> k \<notin> set (lock_queue y)"
    using poll asked
    by (auto simp: poll_recv_def end_call_def split: option.splits recv_call.splits if_splits)
  then show "recv_calls y k = None" and "k \<notin> set (lock_queue y)" by blast+
qed

lemma lock_step_inv:
  assumes M: "mpsc_ok M queued cap" and "lock_step R M a x y" and inv: "lock_inv queued x"
  shows "lock_inv queued y"
  using assms(2)
proof cases
  case (Call k)
  with new_call_inv [OF inv] show ?thesis by simp
next
  case (Poll k r)
  with poll_recv_inv [OF M inv] show ?thesis by blast
next
  case (Drop k)
  with end_call_inv [OF inv] show ?thesis by simp
next
  case (Poll_Next r)
  show ?thesis
  proof (cases "poll_recv M 0 x")
    case (Pair p z)
    with poll_recv_inv [OF M inv] have "lock_inv queued z" by blast
    with Pair Poll_Next poll_recv_ends [OF M, of 0 x _ z] new_call_inv [of queued z 0] show ?thesis
      by (cases p) (auto simp: poll_next_locked_def)
  qed
next
  case (Queue_Message d s)
  let ?q = "packet_channel (locked_session x)"
  from Queue_Message have "mpsc_send M ?q d \<noteq> Pending" by (auto simp: session_forward_def)
  with M have "length (queued ?q) < cap ?q" using mpsc_send_full [OF M, of ?q d] by fastforce
  with M obtain q where "mpsc_send M ?q d = Ready (Inr (), q)" "queued q = queued ?q @ [d]" by (rule mpsc_send_room)
  with Queue_Message inv show ?thesis by (auto simp: session_forward_def lock_inv_def)
next
  case (Close_Session w r s w')
  with inv show ?thesis by (auto simp: lock_inv_def dest: session_close_keeps)
qed

lemma lock_reach_inv:
  assumes "mpsc_ok M queued cap" and "session_with_capacity M pc n = Ran s"
    and "(any_step R M)\<^sup>*\<^sup>* (lock_start s) x"
  shows "lock_inv queued x"
  using assms(3)
proof induction
  case base
  from assms(2) mpsc_channel_Ran(1) [OF assms(1)] show ?case
    by (auto simp: session_with_capacity_def run_bind_Ran_iff intro!: lock_inv_start)
next
  case (step x y)
  then show ?case using lock_step_inv [OF assms(1)] by (auto simp: any_step_def)
qed

section \<open>A call that has the lock\<close>

text \<open>Polled alone, the stream of the \<open>SessionStream\<close> is that of theory Stream.\<close>

lemma poll_next_alone:
  assumes M: "mpsc_ok M queued cap" and inv: "lock_inv queued x" and "set (lock_queue x) \<subseteq> {0}"
    and "recv_calls x 0 \<noteq> None" and "stream_session st = locked_session x"
    and "recv_waiting st \<longleftrightarrow> lock_queue x \<noteq> []"
    and "poll_next_locked M x = (r, y)" and "poll_next M st = (r', st')"
  shows "r = r' \<and> stream_session st' = locked_session y \<and> (recv_waiting st' \<longleftrightarrow> lock_queue y \<noteq> []) \<and>
    set (lock_queue y) \<subseteq> {0} \<and> recv_calls y 0 \<noteq> None"
proof -
  from inv assms(3) have "lock_queue x = [] \<or> lock_queue x = [0]"
    by (cases "lock_queue x"; cases "tl (lock_queue x)") (auto simp: lock_inv_def)
  then show ?thesis
  proof
    assume idle: "lock_queue x = []"
    with inv assms(4) have "recv_calls x 0 = Some Recv_Start"
      by (cases "recv_calls x 0"; cases "the (recv_calls x 0)") (auto simp: lock_inv_def)
    with idle assms(5-8) show ?thesis
      by (auto simp: poll_next_locked_def poll_recv_def poll_asked_def has_lock_def end_call_def poll_next_def
          session_recv_def split: poll.splits if_splits)
  next
    assume held: "lock_queue x = [0]"
    with inv have "recv_calls x 0 = Some Recv_Asked" by (auto simp: lock_inv_def)
    with held assms(5-8) show ?thesis
      by (auto simp: poll_next_locked_def poll_recv_def poll_asked_def has_lock_def end_call_def poll_next_def
          split: poll.splits)
  qed
qed

text \<open>The call of the stream is always there, and a poll of it that waits has the lock.\<close>

lemma reader_call_step: "lock_step R M a x y \<Longrightarrow> recv_calls x 0 \<noteq> None \<Longrightarrow> recv_calls y 0 \<noteq> None"
proof (induction rule: lock_step.induct)
  case (Poll k x r y)
  then show ?case
    by (auto simp: poll_recv_def poll_asked_def end_call_def split: option.splits recv_call.splits poll.splits if_splits)
next
  case (Poll_Next x r y)
  then show ?case
    by (auto simp: poll_next_locked_def poll_recv_def poll_asked_def split: option.splits recv_call.splits poll.splits if_splits)
qed (auto simp: end_call_def)

lemma reader_call: "(any_step R M)\<^sup>*\<^sup>* (lock_start s) x \<Longrightarrow> recv_calls x 0 \<noteq> None"
  by (induction rule: rtranclp_induct) (auto simp: lock_start_def any_step_def dest: reader_call_step)

lemma waiting_read:
  assumes M: "mpsc_ok M queued cap" and inv: "lock_inv queued x" and "set (lock_queue x) \<subseteq> {0}"
    and "poll_next_locked M x = (Pending, y)" and "recv_calls x 0 \<noteq> None"
  shows "lock_queue y = [0] \<and> taken y = taken x \<and> forwarded y = forwarded x \<and>
    queue_of queued y = [] \<and> locked_session y = locked_session x"
proof -
  from inv assms(3) have line: "lock_queue x = [] \<or> lock_queue x = [0]"
    by (cases "lock_queue x"; cases "tl (lock_queue x)") (auto simp: lock_inv_def)
  from inv have asked_iff: "0 \<in> set (lock_queue x) \<longleftrightarrow> recv_calls x 0 = Some Recv_Asked" by (simp add: lock_inv_def)
  from assms(4) have wait: "poll_recv M 0 x = (Pending, y)"
    by (auto simp: poll_next_locked_def split: prod.splits poll.splits)
  have asked: "lock_queue y = [0] \<and> y = z \<and> queue_of queued y = []"
    if "poll_asked M 0 z = (Pending, y)" "lock_queue z = [0]" for z
    using M that(1) by (cases rule: poll_asked_cases) (use that(2) in \<open>auto simp: has_lock_def\<close>)
  show ?thesis
  proof (cases "recv_calls x 0")
    case (Some c)
    show ?thesis
    proof (cases c)
      case Recv_Start
      with asked_iff Some line have "lock_queue x = []" by auto
      with wait Some Recv_Start asked [of "x\<lparr>lock_queue := [0], recv_calls := (recv_calls x)(0 \<mapsto> Recv_Asked)\<rparr>"]
      show ?thesis by (auto simp: poll_recv_def split: if_splits)
    next
      case Recv_Asked
      with asked_iff Some line have "lock_queue x = [0]" by auto
      with wait Some Recv_Asked asked [of x] show ?thesis by (auto simp: poll_recv_def)
    qed
  qed (use assms(5) in simp)
qed

text \<open>Another call waits behind it.\<close>

lemma poll_behind:
  assumes "lock_queue x = k # ks" and "j \<noteq> k" and "poll_recv M j x = (r, y)"
  shows "r \<in> {Pending, Ready (Inr None)} \<and> taken y = taken x \<and> recv_calls y k = recv_calls x k \<and>
    (\<exists>js. lock_queue y = k # js)"
  using assms
  by (auto simp: poll_recv_def poll_asked_def has_lock_def end_call_def split: option.splits recv_call.splits if_splits)

lemma step_behind:
  assumes "lock_queue x = k # ks" and "step_without R M k x y"
  shows "taken y = taken x \<and> recv_calls y k = recv_calls x k \<and> (\<exists>js. lock_queue y = k # js)"
proof -
  from assms(2) obtain a where "a \<noteq> Caller k" and "lock_step R M a x y" by (auto simp: step_without_def)
  from this(2,1) show ?thesis
  proof cases
    case (Poll j r)
    with \<open>a \<noteq> Caller k\<close> poll_behind [OF assms(1)] show ?thesis by auto
  next
    case (Poll_Next r)
    obtain p z where poll: "poll_recv M 0 x = (p, z)" by force
    with Poll_Next \<open>a \<noteq> Caller k\<close> poll_behind [OF assms(1) _ this] show ?thesis
      by (cases p) (auto simp: poll_next_locked_def)
  qed (use assms(1) in \<open>auto simp: end_call_def\<close>)
qed

lemma steps_behind:
  assumes "lock_queue x = k # ks" and "(step_without R M k)\<^sup>*\<^sup>* x y"
  shows "taken y = taken x \<and> recv_calls y k = recv_calls x k \<and> (\<exists>js. lock_queue y = k # js)"
  using assms(2)
proof induction
  case base
  with assms(1) show ?case by simp
next
  case (step y z)
  then show ?case using step_behind by metis
qed

lemma steps_without_any: "(step_without R M k)\<^sup>*\<^sup>* x y \<Longrightarrow> (any_step R M)\<^sup>*\<^sup>* x y"
  by (induction rule: rtranclp_induct) (auto simp: step_without_def any_step_def intro: rtranclp.rtrancl_into_rtrancl)

text \<open>The call with the lock takes the oldest message when it is polled, and the next in line has it.\<close>

lemma holder_takes:
  assumes M: "mpsc_ok M queued cap" and inv: "lock_inv queued x" and "lock_queue x = k # ks"
    and "queue_of queued x = d # ds"
  obtains y where "poll_recv M k x = (Ready (Inr (Some d)), y)" and "lock_queue y = ks"
    and "taken y = taken x @ [(k, d)]"
proof -
  from inv assms(3) have asked: "recv_calls x k = Some Recv_Asked" and "k \<notin> set ks" by (auto simp: lock_inv_def)
  from M assms(4) obtain q where "mpsc_recv M (packet_channel (locked_session x)) = Ready (Some d, q)"
    by (rule mpsc_recv_some)
  with asked assms(3) \<open>k \<notin> set ks\<close> that show thesis
    by (auto simp: poll_recv_def poll_asked_def has_lock_def end_call_def session_recv_wait_def)
qed

section \<open>Properties\<close>

text \<open>The stream waits, a call of \<open>recv\<close> gets in line behind it, and a message is queued.\<close>

definition demo_line :: "(bool, unit, bytes list \<times> nat) locked" where
  "demo_line = \<lparr>locked_session = demo_session\<lparr>reliable_channel := None, packet_channel := ([[5]], 4)\<rparr>,
     lock_queue = [0, 1], recv_calls = [0 \<mapsto> Recv_Asked, 1 \<mapsto> Recv_Asked], forwarded = [[5]], taken = []\<rparr>"

lemma demo_line_run:
  obtains x where "poll_next_locked list_mpsc (lock_start (demo_session\<lparr>reliable_channel := None\<rparr>)) = (Pending, x)"
    and "(step_without demo_rtc list_mpsc 0)\<^sup>*\<^sup>* x demo_line"
proof -
  let ?s = "demo_session\<lparr>reliable_channel := None\<rparr>"
  let ?x = "\<lambda>s q c f. \<lparr>locked_session = s, lock_queue = q, recv_calls = c, forwarded = f, taken = []\<rparr>"
  let ?step = "step_without demo_rtc list_mpsc 0"
  let ?asked = "[0 \<mapsto> Recv_Asked] :: nat \<rightharpoonup> recv_call"
  have wait: "session_recv_wait list_mpsc ?s = Pending"
    by (simp add: session_recv_wait_def list_mpsc_def demo_session_def)
  have 0: "poll_next_locked list_mpsc (lock_start ?s) = (Pending, ?x ?s [0] ?asked [])"
    using wait by (simp add: poll_next_locked_def poll_recv_def poll_asked_def has_lock_def lock_start_def demo_session_def)
  have 1: "?step (?x ?s [0] ?asked []) (?x ?s [0] (?asked(1 \<mapsto> Recv_Start)) [])"
    using Call [of "?x ?s [0] ?asked []" 1 demo_rtc list_mpsc] by (auto simp: step_without_def intro!: exI [of _ "Caller 1"])
  have "poll_recv list_mpsc 1 (?x ?s [0] (?asked(1 \<mapsto> Recv_Start)) []) =
      (Pending, ?x ?s [0, 1] (?asked(1 \<mapsto> Recv_Asked)) [])"
    by (simp add: poll_recv_def poll_asked_def has_lock_def demo_session_def)
  from Poll [OF _ this, of demo_rtc]
  have 2: "?step (?x ?s [0] (?asked(1 \<mapsto> Recv_Start)) []) (?x ?s [0, 1] (?asked(1 \<mapsto> Recv_Asked)) [])"
    by (auto simp: step_without_def intro!: exI [of _ "Caller 1"])
  have "session_forward list_mpsc ?s [5] = Ready (?s\<lparr>packet_channel := ([[5]], 4)\<rparr>)"
    by (simp add: session_forward_def list_mpsc_def demo_session_def)
  from Queue_Message [of list_mpsc "?x ?s [0, 1] (?asked(1 \<mapsto> Recv_Asked)) []", simplified, OF this, of demo_rtc]
  have 3: "?step (?x ?s [0, 1] (?asked(1 \<mapsto> Recv_Asked)) []) demo_line"
    by (auto simp: step_without_def demo_line_def intro!: exI [of _ Session_Task])
  from 0 1 2 3 show thesis
    by (intro that) (auto intro: converse_rtranclp_into_rtranclp)
qed

text \<open>C21: A read that is given up blocks \<open>recv\<close>: once a poll of the \<open>SessionStream\<close> waits while no other
  call is in line, the future it keeps has the lock of the receiver. From then on, whatever other
  callers do (begin, poll and drop calls of \<open>recv\<close>) and however many messages the handler queues, no
  call of \<open>recv\<close> gets a message as long as the stream is not polled again: a poll waits, or says that the session is
  closed. All messages pile up for the next poll of the stream, which gets the oldest at once.\<close>

theorem abandoned_read_blocks_recv:
  assumes "mpsc_ok M queued cap" and "session_with_capacity M pc n = Ran s"
    and "(any_step R M)\<^sup>*\<^sup>* (lock_start s) x0" and "set (lock_queue x0) \<subseteq> {0}"
    and "poll_next_locked M x0 = (Pending, x)" and "(step_without R M 0)\<^sup>*\<^sup>* x y"
  shows "taken y = taken x0 \<and>
    (\<forall>k. k \<noteq> 0 \<longrightarrow> fst (poll_recv M k y) \<in> {Pending, Ready (Inr None)}) \<and>
    queue_of queued y = drop (length (forwarded x0)) (forwarded y) \<and>
    (queue_of queued y = d # ds \<longrightarrow> (\<exists>z. poll_next_locked M y = (Ready (Some (Inr d)), z)))"
proof -
  note M = assms(1)
  have inv0: "lock_inv queued x0" by (rule lock_reach_inv [OF assms(1-3)])
  have "lock_step R M (Caller 0) x0 x" using assms(5) by (rule Poll_Next)
  then have step: "any_step R M x0 x" by (auto simp: any_step_def)
  have line: "lock_queue x = [0]" "taken x = taken x0" "forwarded x = forwarded x0" "queue_of queued x = []"
    using waiting_read [OF M inv0 assms(4,5)] reader_call [OF assms(3)] by blast+
  from steps_behind [OF line(1) assms(6)] obtain js where
    y: "taken y = taken x" "lock_queue y = 0 # js" by blast
  have inv: "lock_inv queued y"
    by (rule lock_reach_inv [OF assms(1,2) rtranclp_trans [OF rtranclp.rtrancl_into_rtrancl [OF assms(3) step]
          steps_without_any [OF assms(6)]]])
  have others: "fst (poll_recv M k y) \<in> {Pending, Ready (Inr None)}" if "k \<noteq> 0" for k
    using poll_behind [OF y(2) that] by (metis prod.collapse)
  have "map snd (taken x0) = forwarded x0" using inv0 line(4) waiting_read [OF M inv0 assms(4,5)] reader_call [OF assms(3)]
    by (simp add: lock_inv_def)
  moreover have "map snd (taken y) @ queue_of queued y = forwarded y" using inv by (simp add: lock_inv_def)
  ultimately have "queue_of queued y = drop (length (forwarded x0)) (forwarded y)"
    using y(1) line(2) by (metis append_eq_conv_conj length_map)
  moreover have "\<exists>z. poll_next_locked M y = (Ready (Some (Inr d)), z)" if "queue_of queued y = d # ds"
  proof -
    from holder_takes [OF M inv y(2) that] obtain z where "poll_recv M 0 y = (Ready (Inr (Some d)), z)" .
    then show ?thesis by (simp add: poll_next_locked_def)
  qed
  ultimately show ?thesis using y(1) line(2) others by auto
qed

theorem abandoned_read_blocks_recv_witness:
  "(\<exists>x. poll_next_locked list_mpsc (lock_start (demo_session\<lparr>reliable_channel := None\<rparr>)) = (Pending, x) \<and>
      (step_without demo_rtc list_mpsc 0)\<^sup>*\<^sup>* x demo_line) \<and>
    fst (poll_recv list_mpsc 1 demo_line) \<in> {Pending, Ready (Inr None)} \<and>
    (\<exists>z. poll_next_locked list_mpsc demo_line = (Ready (Some (Inr [5])), z))"
proof -
  let ?s = "demo_session\<lparr>reliable_channel := None\<rparr>"
  obtain x where run: "poll_next_locked list_mpsc (lock_start ?s) = (Pending, x)"
    "(step_without demo_rtc list_mpsc 0)\<^sup>*\<^sup>* x demo_line" by (rule demo_line_run)
  have "set (lock_queue (lock_start ?s)) \<subseteq> {0}" by (simp add: lock_start_def)
  from abandoned_read_blocks_recv [OF list_mpsc_ok demo_with_capacity rtranclp.rtrancl_refl this run, of "[5]" "[]"]
  have "\<forall>k. k \<noteq> 0 \<longrightarrow> fst (poll_recv list_mpsc k demo_line) \<in> {Pending, Ready (Inr None)}"
    and "\<exists>z. poll_next_locked list_mpsc demo_line = (Ready (Some (Inr [5])), z)"
    by (simp_all add: demo_line_def)
  with run show ?thesis by blast
qed

text \<open>C24: Dropping calls of \<open>recv\<close> loses nothing: whatever calls are begun, polled in any order and
  dropped at any point, in every state the messages that were returned, in the order of their return,
  followed by those still queued, are all messages the handler has queued, in order. And the lock
  is never lost: while a message is queued and calls are in line, the first of them gets the
  message when it is polled, and the next one the lock.\<close>

theorem recv_cancel_safe:
  assumes "mpsc_ok M queued cap" and "session_with_capacity M pc n = Ran s"
    and "(any_step R M)\<^sup>*\<^sup>* (lock_start s) x"
  shows "map snd (taken x) @ queue_of queued x = forwarded x \<and>
    (lock_queue x = k # ks \<and> queue_of queued x = d # ds \<longrightarrow>
      (\<exists>y. poll_recv M k x = (Ready (Inr (Some d)), y) \<and> lock_queue y = ks \<and> taken y = taken x @ [(k, d)]))"
proof -
  have inv: "lock_inv queued x" by (rule lock_reach_inv [OF assms])
  moreover have "\<exists>y. poll_recv M k x = (Ready (Inr (Some d)), y) \<and> lock_queue y = ks \<and> taken y = taken x @ [(k, d)]"
    if "lock_queue x = k # ks" "queue_of queued x = d # ds"
    using holder_takes [OF assms(1) inv that] by blast
  ultimately show ?thesis by (auto simp: lock_inv_def)
qed

theorem recv_cancel_safe_witness:
  "\<exists>y. poll_recv list_mpsc 0 demo_line = (Ready (Inr (Some [5])), y) \<and> lock_queue y = [1] \<and> taken y = [(0, [5])]"
proof -
  let ?s = "demo_session\<lparr>reliable_channel := None\<rparr>"
  obtain x where run: "poll_next_locked list_mpsc (lock_start ?s) = (Pending, x)"
    "(step_without demo_rtc list_mpsc 0)\<^sup>*\<^sup>* x demo_line" by (rule demo_line_run)
  from Poll_Next [OF run(1), of demo_rtc] have "any_step demo_rtc list_mpsc (lock_start ?s) x"
    by (auto simp: any_step_def)
  from converse_rtranclp_into_rtranclp [OF this steps_without_any [OF run(2)]]
  have "(any_step demo_rtc list_mpsc)\<^sup>*\<^sup>* (lock_start ?s) demo_line" .
  from recv_cancel_safe [OF list_mpsc_ok demo_with_capacity this, of 0 "[1]" "[5]" "[]"] show ?thesis
    by (simp add: demo_line_def)
qed

end
