(* ===== verification/Connect.thy ===== *)
theory Connect
  imports Stream Signals
begin

text \<open>
  The client side of the handshake (\<open>NethernetStream::connect\<close> in src/src/transport/stream.rs).
  What WebRTC, the signaling and the clock do is a record of results, one for each call; the
  calls that act on the peer connection or on the signaling are recorded as actions, in order.
  The stream of signals is the list of what arrives and whether it has ended: waiting for more is
  \<open>Pending\<close>.
\<close>

section \<open>Candidates\<close>

text \<open>\<open>RTCIceCandidateInit\<close>, with the fields the code sets.\<close>

record candidate_init =
  candidate :: string
  sdp_mid :: "string option"
  sdp_mline_index :: "u16 option"
  username_fragment :: "string option"

text \<open>A candidate that is not JSON is taken as the raw candidate line.\<close>

definition parse_candidate :: "(string \<Rightarrow> candidate_init option) \<Rightarrow> string \<Rightarrow> candidate_init" where
  "parse_candidate from_json data =
     (case from_json data of
        Some init \<Rightarrow> init
      | None \<Rightarrow> \<lparr>candidate = data, sdp_mid = None, sdp_mline_index = None, username_fragment = None\<rparr>)"

text \<open>The handler of local candidates: what serialises is signalled to the remote node.\<close>

definition on_ice_candidate :: "u64 \<Rightarrow> string \<Rightarrow> string option \<Rightarrow> signal option" where
  "on_ice_candidate cid nid serialized = map_option (\<lambda>json. signal_candidate cid json nid) serialized"

section \<open>Waiting for the answer\<close>

datatype answer_wait =
    Answered string "candidate_init list" "signal list"
  | Stream_Ended
  | Still_Waiting

fun wait_for_answer ::
    "(string \<Rightarrow> candidate_init option) \<Rightarrow> u64 \<Rightarrow> candidate_init list \<Rightarrow> signal list \<Rightarrow> bool \<Rightarrow> answer_wait" where
  "wait_for_answer from_json cid pending_candidates [] ended =
     (if ended then Stream_Ended else Still_Waiting)"
| "wait_for_answer from_json cid pending_candidates (sig # sigs) ended =
     (if connection_id sig = cid then
        (case signal_type sig of
           Answer \<Rightarrow> Answered (signal_data sig) pending_candidates sigs
         | Candidate \<Rightarrow>
             wait_for_answer from_json cid
               (pending_candidates @ [parse_candidate from_json (signal_data sig)]) sigs ended
         | _ \<Rightarrow> wait_for_answer from_json cid pending_candidates sigs ended)
      else wait_for_answer from_json cid pending_candidates sigs ended)"

section \<open>Waiting for ICE\<close>

text \<open>The states seen every 100 ms until the timeout of 10 s.\<close>

fun wait_ice :: "ice_state list \<Rightarrow> unit res" where
  "wait_ice [] = Inl Timeout"
| "wait_ice (state # states) =
     (case state of
        IceConnected \<Rightarrow> Inr ()
      | IceCompleted \<Rightarrow> Inr ()
      | IceFailed \<Rightarrow> Inl ConnectionClosed
      | IceDisconnected \<Rightarrow> Inl ConnectionClosed
      | IceClosed \<Rightarrow> Inl ConnectionClosed
      | IceOther \<Rightarrow> wait_ice states)"

section \<open>The handshake\<close>

record ('ch, 'pc) connect_env =
  new_peer_connection :: "string + 'pc"
  create_data_channel :: "string \<Rightarrow> string + 'ch"
  random_id :: u64
  create_offer :: "string + string"
  set_local_description :: "string \<Rightarrow> string + unit"
  post_signal :: "signal \<Rightarrow> unit res"
  arriving :: "signal list"
  stream_ended :: bool
  candidate_json :: "string \<Rightarrow> candidate_init option"
  parse_answer :: "string \<Rightarrow> string + unit"
  set_remote_description :: "string \<Rightarrow> string + unit"
  opened_in_time :: bool
  ice_states :: "ice_state list"

datatype connect_action =
    Create_Channel string bool "nat option"
  | Set_Local string
  | Subscribe
  | Post signal
  | Set_Remote string
  | Add_Candidate candidate_init
  | Start_Candidates
  | Cancel_Candidates

text \<open>The rest of a computation that stops at the first error; the first part is the actions.\<close>

definition stage :: "'a res \<Rightarrow> ('a \<Rightarrow> 'b res poll \<times> 'act list) \<Rightarrow> 'b res poll \<times> 'act list" where
  "stage r f = (case r of Inl e \<Rightarrow> (Ready (Inl e), []) | Inr x \<Rightarrow> f x)"

definition act :: "'act \<Rightarrow> 'b res poll \<times> 'act list \<Rightarrow> 'b res poll \<times> 'act list" where
  "act a k = (fst k, a # snd k)"

text \<open>From the answer on: the remote description, the buffered candidates (whose failures are
  only logged), the task for further candidates, the channels and ICE. The task is cancelled once
  the wait for ICE is over; a return before it leaves the task running.\<close>

definition connect_answered ::
    "('ch, 'pc) connect_env \<Rightarrow> string \<Rightarrow> candidate_init list \<Rightarrow> unit res poll \<times> connect_action list" where
  "connect_answered E answer pending_candidates =
     stage (map_err WebRtc (parse_answer E answer)) (\<lambda>_.
     act (Set_Remote answer) (stage (map_err WebRtc (set_remote_description E answer)) (\<lambda>_.
       (Ready (if \<not> opened_in_time E then Inl Timeout else wait_ice (ice_states E)),
        map Add_Candidate pending_candidates @ Start_Candidates #
          (if opened_in_time E then [Cancel_Candidates] else [])))))"

definition connect_negotiate ::
    "('ch, 'pc) connect_env \<Rightarrow> string \<Rightarrow> unit res poll \<times> connect_action list" where
  "connect_negotiate E remote_network_id =
     stage (map_err WebRtc (create_offer E)) (\<lambda>sdp.
     act (Set_Local sdp) (stage (map_err WebRtc (set_local_description E sdp)) (\<lambda>_.
     act Subscribe (
     let offer = signal_offer (random_id E) sdp remote_network_id in
     act (Post offer) (stage (post_signal E offer) (\<lambda>_.
       case wait_for_answer (candidate_json E) (random_id E) [] (arriving E) (stream_ended E) of
         Answered answer pending_candidates _ \<Rightarrow> connect_answered E answer pending_candidates
       | Stream_Ended \<Rightarrow> (Ready (Inl Timeout), [])
       | Still_Waiting \<Rightarrow> (Pending, [])))))))"

definition connect_session ::
    "('q, bytes) mpsc \<Rightarrow> 'pc \<Rightarrow> 'ch \<Rightarrow> 'ch \<Rightarrow> ('ch, 'pc, 'q) net_stream run" where
  "connect_session M pc reliable unreliable =
     run_bind (session_new M pc) (\<lambda>s.
       Ran (from_session (set_unreliable_channel (set_reliable_channel s reliable) unreliable)))"

definition connect ::
    "('q, bytes) mpsc \<Rightarrow> ('ch, 'pc) connect_env \<Rightarrow> string \<Rightarrow>
     ('ch, 'pc, 'q) net_stream run res poll \<times> connect_action list" where
  "connect M E remote_network_id =
     stage (map_err WebRtc (new_peer_connection E)) (\<lambda>pc.
     act (Create_Channel RELIABLE_CHANNEL True None)
       (stage (map_err WebRtc (create_data_channel E RELIABLE_CHANNEL)) (\<lambda>reliable.
     act (Create_Channel UNRELIABLE_CHANNEL False (Some 0))
       (stage (map_err WebRtc (create_data_channel E UNRELIABLE_CHANNEL)) (\<lambda>unreliable.
       let (r, acts) = connect_negotiate E remote_network_id in
       (poll_map (\<lambda>r. and_then r (\<lambda>_. Inr (connect_session M pc reliable unreliable))) r, acts))))))"

text \<open>The task that goes on adding candidates until it is cancelled: what it adds while it sees
  these signals.\<close>

definition candidate_task :: "(string \<Rightarrow> candidate_init option) \<Rightarrow> u64 \<Rightarrow> signal list \<Rightarrow> connect_action list" where
  "candidate_task from_json cid sigs =
     map (\<lambda>sig. Add_Candidate (parse_candidate from_json (signal_data sig)))
       (filter (\<lambda>sig. connection_id sig = cid \<and> signal_type sig = Candidate) sigs)"

section \<open>What is waited for\<close>

definition is_answer :: "u64 \<Rightarrow> signal \<Rightarrow> bool" where
  "is_answer cid sig \<longleftrightarrow> connection_id sig = cid \<and> signal_type sig = Answer"

definition candidates_of :: "(string \<Rightarrow> candidate_init option) \<Rightarrow> u64 \<Rightarrow> signal list \<Rightarrow> candidate_init list" where
  "candidates_of from_json cid sigs =
     map (\<lambda>sig. parse_candidate from_json (signal_data sig))
       (filter (\<lambda>sig. connection_id sig = cid \<and> signal_type sig = Candidate) sigs)"

lemma wait_for_answer_eq:
  "wait_for_answer from_json cid cs sigs ended =
     (case dropWhile (\<lambda>sig. \<not> is_answer cid sig) sigs of
        [] \<Rightarrow> if ended then Stream_Ended else Still_Waiting
      | ans # rest \<Rightarrow>
          Answered (signal_data ans)
            (cs @ candidates_of from_json cid (takeWhile (\<lambda>sig. \<not> is_answer cid sig) sigs)) rest)"
proof (induction sigs arbitrary: cs)
  case Nil
  then show ?case by simp
next
  case (Cons sig sigs)
  show ?case
  proof (cases "is_answer cid sig")
    case True
    then have "connection_id sig = cid" "signal_type sig = Answer" by (simp_all add: is_answer_def)
    with True show ?thesis by (simp add: candidates_of_def)
  next
    case False
    then have step: "wait_for_answer from_json cid cs (sig # sigs) ended =
        wait_for_answer from_json cid (cs @ candidates_of from_json cid [sig]) sigs ended"
      by (cases "signal_type sig") (simp_all add: is_answer_def candidates_of_def)
    let ?before = "takeWhile (\<lambda>sig. \<not> is_answer cid sig) sigs"
    have "candidates_of from_json cid (sig # ?before) =
        candidates_of from_json cid [sig] @ candidates_of from_json cid ?before"
      by (simp add: candidates_of_def)
    moreover have "takeWhile (\<lambda>sig. \<not> is_answer cid sig) (sig # sigs) = sig # ?before"
      "dropWhile (\<lambda>sig. \<not> is_answer cid sig) (sig # sigs) = dropWhile (\<lambda>sig. \<not> is_answer cid sig) sigs"
      using False by simp_all
    ultimately show ?thesis unfolding step Cons.IH by (simp only: append_assoc)
  qed
qed

lemma wait_ice_eq:
  "wait_ice states =
     (case dropWhile (\<lambda>x. x = IceOther) states of
        [] \<Rightarrow> Inl Timeout
      | x # _ \<Rightarrow> if x \<in> {IceConnected, IceCompleted} then Inr () else Inl ConnectionClosed)"
proof (induction states)
  case Nil
  then show ?case by simp
next
  case (Cons x xs)
  then show ?case by (cases x) simp_all
qed

text \<open>What follows a result that is no error, and the parts of the handshake when all local steps
  succeed.\<close>

lemma stage_simps [simp]:
  "stage (Inr x) f = f x"
  "stage (Inl e) f = (Ready (Inl e), [])"
  by (simp_all add: stage_def)

lemma connect_answered_ok:
  assumes "parse_answer E answer = Inr ()" and "set_remote_description E answer = Inr ()"
  shows "connect_answered E answer cs =
    (Ready (if \<not> opened_in_time E then Inl Timeout else wait_ice (ice_states E)),
     Set_Remote answer # map Add_Candidate cs @ Start_Candidates #
       (if opened_in_time E then [Cancel_Candidates] else []))"
  using assms by (simp add: connect_answered_def act_def)

lemma connect_negotiate_ok:
  assumes "create_offer E = Inr sdp" and "set_local_description E sdp = Inr ()"
    and "post_signal E (signal_offer (random_id E) sdp nid) = Inr ()"
  shows "connect_negotiate E nid =
    (let k = (case wait_for_answer (candidate_json E) (random_id E) [] (arriving E) (stream_ended E) of
         Answered answer cs _ \<Rightarrow> connect_answered E answer cs
       | Stream_Ended \<Rightarrow> (Ready (Inl Timeout), [])
       | Still_Waiting \<Rightarrow> (Pending, []))
     in (fst k, [Set_Local sdp, Subscribe, Post (signal_offer (random_id E) sdp nid)] @ snd k))"
  using assms by (simp add: connect_negotiate_def act_def Let_def)

lemma connect_ok:
  assumes "new_peer_connection E = Inr pc" and "create_data_channel E RELIABLE_CHANNEL = Inr reliable"
    and "create_data_channel E UNRELIABLE_CHANNEL = Inr unreliable"
    and "connect_negotiate E nid = (r, acts)"
  shows "connect M E nid =
    (poll_map (\<lambda>r. and_then r (\<lambda>_. Inr (connect_session M pc reliable unreliable))) r,
     Create_Channel ''ReliableDataChannel'' True None #
     Create_Channel ''UnreliableDataChannel'' False (Some 0) # acts)"
  unfolding connect_def using assms
  by (simp add: act_def RELIABLE_CHANNEL_def UNRELIABLE_CHANNEL_def)

section \<open>Properties\<close>

text \<open>C13: The handshake, when the local steps succeed: the two channels are created (the reliable
  one ordered, the other without retransmission), the signals are subscribed to before the one
  offer is posted, and what then arrives is searched for the first answer of this connection.
  Signals of other connections, offers and errors are passed over. Exactly the candidates of this
  connection before the answer are added, in order, after the remote description was set and not
  before. The task for further candidates is then started; it is cancelled when the wait for ICE is
  over, but not when the channels do not open in time. The result is decided by the channels
  opening in time and then by the first decisive ICE state. Without an answer the call fails with
  \<open>Timeout\<close> only if the stream ends; otherwise it waits, without a limit, whatever errors the other
  side has signalled.\<close>

theorem connect_handshake:
  assumes "new_peer_connection E = Inr pc" and "create_data_channel E RELIABLE_CHANNEL = Inr reliable"
    and "create_data_channel E UNRELIABLE_CHANNEL = Inr unreliable" and "create_offer E = Inr sdp"
    and "set_local_description E sdp = Inr ()"
    and "post_signal E (signal_offer (random_id E) sdp nid) = Inr ()"
    and "\<forall>answer. parse_answer E answer = Inr () \<and> set_remote_description E answer = Inr ()"
  shows "connect M E nid =
    (let sent = [Create_Channel ''ReliableDataChannel'' True None,
           Create_Channel ''UnreliableDataChannel'' False (Some 0),
           Set_Local sdp, Subscribe, Post (signal_offer (random_id E) sdp nid)];
         before = takeWhile (\<lambda>sig. \<not> is_answer (random_id E) sig) (arriving E)
     in case dropWhile (\<lambda>sig. \<not> is_answer (random_id E) sig) (arriving E) of
          [] \<Rightarrow> (if stream_ended E then Ready (Inl Timeout) else Pending, sent)
        | answer # _ \<Rightarrow>
            (Ready
               (if \<not> opened_in_time E then Inl Timeout
                else case dropWhile (\<lambda>x. x = IceOther) (ice_states E) of
                    [] \<Rightarrow> Inl Timeout
                  | x # _ \<Rightarrow>
                      if x \<in> {IceConnected, IceCompleted}
                      then Inr (connect_session M pc reliable unreliable) else Inl ConnectionClosed),
             sent @ Set_Remote (signal_data answer) #
               map (\<lambda>sig. Add_Candidate (parse_candidate (candidate_json E) (signal_data sig)))
                 (filter (\<lambda>sig. connection_id sig = random_id E \<and> signal_type sig = Candidate) before) @
               Start_Candidates # (if opened_in_time E then [Cancel_Candidates] else [])))"
proof (cases "dropWhile (\<lambda>sig. \<not> is_answer (random_id E) sig) (arriving E)")
  case Nil
  then have "wait_for_answer (candidate_json E) (random_id E) [] (arriving E) (stream_ended E) =
      (if stream_ended E then Stream_Ended else Still_Waiting)"
    unfolding wait_for_answer_eq by (simp only: list.case)
  then have "connect_negotiate E nid = (if stream_ended E then Ready (Inl Timeout) else Pending,
      [Set_Local sdp, Subscribe, Post (signal_offer (random_id E) sdp nid)])"
    using connect_negotiate_ok [OF assms(4-6)] by simp
  from connect_ok [OF assms(1-3) this, of M] Nil show ?thesis
    by (simp only: Let_def list.case) simp
next
  case (Cons answer rest)
  let ?cs = "candidates_of (candidate_json E) (random_id E)
    (takeWhile (\<lambda>sig. \<not> is_answer (random_id E) sig) (arriving E))"
  from Cons have "wait_for_answer (candidate_json E) (random_id E) [] (arriving E) (stream_ended E) =
      Answered (signal_data answer) ?cs rest"
    unfolding wait_for_answer_eq by (simp only: list.case append_Nil)
  then have "connect_negotiate E nid = (Ready (if \<not> opened_in_time E then Inl Timeout else wait_ice (ice_states E)),
      [Set_Local sdp, Subscribe, Post (signal_offer (random_id E) sdp nid)] @
      Set_Remote (signal_data answer) # map Add_Candidate ?cs @ Start_Candidates #
        (if opened_in_time E then [Cancel_Candidates] else []))"
    using connect_negotiate_ok [OF assms(4-6)] assms(7) by (simp add: connect_answered_ok)
  from connect_ok [OF assms(1-3) this, of M] have "connect M E nid =
     (Ready (and_then (if \<not> opened_in_time E then Inl Timeout else wait_ice (ice_states E))
        (\<lambda>_. Inr (connect_session M pc reliable unreliable))),
      Create_Channel ''ReliableDataChannel'' True None #
      Create_Channel ''UnreliableDataChannel'' False (Some 0) #
      [Set_Local sdp, Subscribe, Post (signal_offer (random_id E) sdp nid)] @
      Set_Remote (signal_data answer) # map Add_Candidate ?cs @ Start_Candidates #
        (if opened_in_time E then [Cancel_Candidates] else []))"
    by (simp only: poll_map_simps)
  moreover have "and_then (if \<not> opened_in_time E then Inl Timeout
        else case xs of [] \<Rightarrow> Inl Timeout
          | x # _ \<Rightarrow> if x \<in> {IceConnected, IceCompleted} then Inr () else Inl ConnectionClosed)
        (\<lambda>_. Inr (connect_session M pc reliable unreliable)) =
      (if \<not> opened_in_time E then Inl Timeout
        else case xs of [] \<Rightarrow> Inl Timeout
          | x # _ \<Rightarrow> if x \<in> {IceConnected, IceCompleted}
              then Inr (connect_session M pc reliable unreliable) else Inl ConnectionClosed)" for xs
    by (cases xs) simp_all
  ultimately show ?thesis
    unfolding Cons Let_def wait_ice_eq by (simp only: list.case candidates_of_def map_map comp_def append.simps)
qed

definition demo_env :: "(bool, unit) connect_env" where
  "demo_env = \<lparr>new_peer_connection = Inr (), create_data_channel = (\<lambda>l. Inr (l = RELIABLE_CHANNEL)),
     random_id = 5, create_offer = Inr ''v=0'', set_local_description = (\<lambda>_. Inr ()),
     post_signal = (\<lambda>_. Inr ()),
     arriving = [signal_error 5 S_NegotiationTimeout ''2'', signal_candidate 5 ''a'' ''2'',
       signal_candidate 6 ''b'' ''3'', signal_answer 6 ''no'' ''3'', signal_answer 5 ''yes'' ''2''],
     stream_ended = False, candidate_json = (\<lambda>_. None), parse_answer = (\<lambda>_. Inr ()),
     set_remote_description = (\<lambda>_. Inr ()), opened_in_time = True,
     ice_states = [IceOther, IceConnected]\<rparr>"

theorem connect_handshake_witness:
  "connect list_mpsc demo_env ''2'' =
     (Ready (Inr (connect_session list_mpsc () True False)),
      [Create_Channel ''ReliableDataChannel'' True None,
       Create_Channel ''UnreliableDataChannel'' False (Some 0),
       Set_Local ''v=0'', Subscribe, Post (signal_offer 5 ''v=0'' ''2''), Set_Remote ''yes'',
       Add_Candidate \<lparr>candidate = ''a'', sdp_mid = None, sdp_mline_index = None,
         username_fragment = None\<rparr>, Start_Candidates, Cancel_Candidates]) \<and>
   connect list_mpsc (demo_env\<lparr>arriving := [signal_error 5 S_NegotiationTimeout ''2'']\<rparr>) ''2'' =
     (Pending,
      [Create_Channel ''ReliableDataChannel'' True None,
       Create_Channel ''UnreliableDataChannel'' False (Some 0),
       Set_Local ''v=0'', Subscribe, Post (signal_offer 5 ''v=0'' ''2'')]) \<and>
   connect list_mpsc (demo_env\<lparr>arriving := [signal_answer 5 ''yes'' ''2''], opened_in_time := False\<rparr>) ''2'' =
     (Ready (Inl Timeout),
      [Create_Channel ''ReliableDataChannel'' True None,
       Create_Channel ''UnreliableDataChannel'' False (Some 0),
       Set_Local ''v=0'', Subscribe, Post (signal_offer 5 ''v=0'' ''2''), Set_Remote ''yes'',
       Start_Candidates])"
proof (intro conjI)
  show "connect list_mpsc demo_env ''2'' =
     (Ready (Inr (connect_session list_mpsc () True False)),
      [Create_Channel ''ReliableDataChannel'' True None,
       Create_Channel ''UnreliableDataChannel'' False (Some 0),
       Set_Local ''v=0'', Subscribe, Post (signal_offer 5 ''v=0'' ''2''), Set_Remote ''yes'',
       Add_Candidate \<lparr>candidate = ''a'', sdp_mid = None, sdp_mline_index = None,
         username_fragment = None\<rparr>, Start_Candidates, Cancel_Candidates])"
    by (subst connect_handshake [where pc = "()" and reliable = True and unreliable = False and sdp = "''v=0''"])
      (simp_all add: demo_env_def RELIABLE_CHANNEL_def UNRELIABLE_CHANNEL_def signal_constructors
        is_answer_def parse_candidate_def)
  show "connect list_mpsc (demo_env\<lparr>arriving := [signal_error 5 S_NegotiationTimeout ''2'']\<rparr>) ''2'' =
     (Pending,
      [Create_Channel ''ReliableDataChannel'' True None,
       Create_Channel ''UnreliableDataChannel'' False (Some 0),
       Set_Local ''v=0'', Subscribe, Post (signal_offer 5 ''v=0'' ''2'')])"
    by (subst connect_handshake [where pc = "()" and reliable = True and unreliable = False and sdp = "''v=0''"])
      (simp_all add: demo_env_def RELIABLE_CHANNEL_def UNRELIABLE_CHANNEL_def signal_constructors is_answer_def)
  show "connect list_mpsc (demo_env\<lparr>arriving := [signal_answer 5 ''yes'' ''2''], opened_in_time := False\<rparr>) ''2'' =
     (Ready (Inl Timeout),
      [Create_Channel ''ReliableDataChannel'' True None,
       Create_Channel ''UnreliableDataChannel'' False (Some 0),
       Set_Local ''v=0'', Subscribe, Post (signal_offer 5 ''v=0'' ''2''), Set_Remote ''yes'',
       Start_Candidates])"
    by (subst connect_handshake [where pc = "()" and reliable = True and unreliable = False and sdp = "''v=0''"])
      (simp_all add: demo_env_def RELIABLE_CHANNEL_def UNRELIABLE_CHANNEL_def signal_constructors is_answer_def)
qed

end
