(* ===== verification/Listener.thy ===== *)
theory Listener
  imports Connect
begin

text \<open>
  The accepting side (src/src/transport/listener.rs): the handling of an offer, the dispatch of
  the other signals to the connection they belong to, the task that adds the candidates of a
  connection, the handlers of the peer connection, and the task that waits and then queues the
  session. They share the two maps of the listener; the step relation interleaves them. Every
  handled offer has an instance number, the index of its record; a sender stored in a map is the
  number of the instance whose receiver it feeds, so the receiver is closed when the map holds
  another number or none. While the signal handler waits inside the handling of an offer,
  \<open>handling\<close> has the instance and the offer; it takes no other signal then, but the tasks go on.
\<close>

section \<open>State\<close>

datatype task_state = Running | Cleaning | Ended

datatype waiter_state = No_Waiter | Wait_Candidate | Wait_Ready | Queued

record conn =
  conn_id :: u64
  conn_network_id :: string
  inbox :: "signal list"
  cand_task :: task_state
  first_candidate :: bool
  candidate_sent :: bool
  handlers_set :: bool
  conn_reliable :: bool
  conn_unreliable :: bool
  ready_sent :: bool
  waiter :: waiter_state

record listener =
  listening :: bool
  handling :: "(nat \<times> signal) option"
  dispatchers :: "u64 \<rightharpoonup> nat"
  notifiers :: "u64 \<rightharpoonup> nat"
  conns :: "conn list"
  incoming :: "nat list"
  accepted :: "nat list"
  posted :: "signal list"
  added :: "(nat \<times> candidate_init) list"

definition bind_listener :: listener where
  "bind_listener = \<lparr>listening = True, handling = None, dispatchers = Map.empty,
     notifiers = Map.empty, conns = [], incoming = [], accepted = [], posted = [], added = []\<rparr>"

definition conn_new :: "signal \<Rightarrow> conn" where
  "conn_new sig = \<lparr>conn_id = connection_id sig, conn_network_id = network_id sig, inbox = [],
     cand_task = Running, first_candidate = True, candidate_sent = False, handlers_set = False,
     conn_reliable = False, conn_unreliable = False, ready_sent = False, waiter = No_Waiter\<rparr>"

definition upd_conn :: "nat \<Rightarrow> (conn \<Rightarrow> conn) \<Rightarrow> listener \<Rightarrow> listener" where
  "upd_conn k f l = l\<lparr>conns := (conns l)[k := f (conns l ! k)]\<rparr>"

section \<open>Offers\<close>

text \<open>The results of the calls that handling an offer makes.\<close>

record offer_env =
  offer_peer_connection :: "string + unit"
  offer_parse :: "string + unit"
  offer_set_remote :: "string + unit"
  offer_create_answer :: "string + string"
  offer_set_local :: "string + unit"
  offer_post :: "unit res"

text \<open>The registration of the notifier and of the signal channel, and the spawned task.\<close>

definition register_conn :: "signal \<Rightarrow> listener \<Rightarrow> listener" where
  "register_conn sig l =
     (let k = length (conns l) in
      l\<lparr>notifiers := (notifiers l)(connection_id sig \<mapsto> k),
        dispatchers := (dispatchers l)(connection_id sig \<mapsto> k),
        conns := conns l @ [conn_new sig]\<rparr>)"

definition answer_offer :: "offer_env \<Rightarrow> signal \<Rightarrow> signal res" where
  "answer_offer E sig =
     and_then (map_err WebRtc (offer_parse E)) (\<lambda>_.
     and_then (map_err WebRtc (offer_set_remote E)) (\<lambda>_.
     and_then (map_err WebRtc (offer_create_answer E)) (\<lambda>sdp.
     and_then (map_err WebRtc (offer_set_local E)) (\<lambda>_.
     let answer = signal_answer (connection_id sig) sdp (network_id sig) in
     and_then (offer_post E) (\<lambda>_. Inr answer)))))"

text \<open>
  The handling up to the first call on the offer, and the rest. The calls in between wait, and
  other tasks run meanwhile; the signal handler itself does nothing else.
\<close>

definition begin_offer :: "offer_env \<Rightarrow> signal \<Rightarrow> listener \<Rightarrow> unit res \<times> listener" where
  "begin_offer E sig l =
     (case offer_peer_connection E of
        Inl e \<Rightarrow> (Inl (WebRtc e), l)
      | Inr _ \<Rightarrow> (Inr (), (register_conn sig l)\<lparr>handling := Some (length (conns l), sig)\<rparr>))"

definition finish_offer :: "offer_env \<Rightarrow> nat \<Rightarrow> signal \<Rightarrow> listener \<Rightarrow> unit res \<times> listener" where
  "finish_offer E k sig l =
     (let l = l\<lparr>handling := None\<rparr> in
      case answer_offer E sig of
        Inl e \<Rightarrow> (Inl e, l)
      | Inr answer \<Rightarrow>
          (Inr (), upd_conn k (\<lambda>c. c\<lparr>handlers_set := True, waiter := Wait_Candidate\<rparr>)
             (l\<lparr>posted := posted l @ [answer]\<rparr>)))"

definition handle_offer :: "offer_env \<Rightarrow> signal \<Rightarrow> listener \<Rightarrow> unit res \<times> listener" where
  "handle_offer E sig l =
     (case begin_offer E sig l of
        (Inl e, l') \<Rightarrow> (Inl e, l')
      | (Inr _, l') \<Rightarrow> finish_offer E (length (conns l)) sig l')"

section \<open>The other signals\<close>

text \<open>A send to a task that has ended fails, which is ignored.\<close>

definition dispatch :: "signal \<Rightarrow> listener \<Rightarrow> listener" where
  "dispatch sig l =
     (case dispatchers l (connection_id sig) of
        Some k \<Rightarrow>
          if cand_task (conns l ! k) = Running then upd_conn k (\<lambda>c. c\<lparr>inbox := inbox c @ [sig]\<rparr>) l else l
      | None \<Rightarrow> l)"

text \<open>A signal that is handled without interruption.\<close>

definition on_signal :: "offer_env \<Rightarrow> signal \<Rightarrow> listener \<Rightarrow> listener" where
  "on_signal E sig l =
     (if signal_type sig = Offer then snd (handle_offer E sig l) else dispatch sig l)"

section \<open>The candidate task\<close>

text \<open>One received signal; \<open>ok\<close> tells whether the candidate was added. After the first one that
  was, the notifier that is registered under the connection id is told and removed.\<close>

definition notify_candidate :: "u64 \<Rightarrow> listener \<Rightarrow> listener" where
  "notify_candidate cid l =
     (case notifiers l cid of
        Some j \<Rightarrow> upd_conn j (\<lambda>c. c\<lparr>candidate_sent := True\<rparr>) (l\<lparr>notifiers := (notifiers l)(cid := None)\<rparr>)
      | None \<Rightarrow> l)"

definition task_signal :: "(string \<Rightarrow> candidate_init option) \<Rightarrow> bool \<Rightarrow> nat \<Rightarrow> signal \<Rightarrow> listener \<Rightarrow> listener" where
  "task_signal from_json ok k sig l =
     (if signal_type sig = Candidate \<and> ok then
        let l = l\<lparr>added := added l @ [(k, parse_candidate from_json (signal_data sig))]\<rparr> in
        if first_candidate (conns l ! k)
        then notify_candidate (conn_id (conns l ! k)) (upd_conn k (\<lambda>c. c\<lparr>first_candidate := False\<rparr>) l)
        else l
      else l)"

text \<open>The receiver is closed when its sender is no longer registered.\<close>

definition inbox_closed :: "nat \<Rightarrow> listener \<Rightarrow> bool" where
  "inbox_closed k l \<longleftrightarrow> dispatchers l (conn_id (conns l ! k)) \<noteq> Some k"

definition remove_dispatcher :: "u64 \<Rightarrow> listener \<Rightarrow> listener" where
  "remove_dispatcher cid l = l\<lparr>dispatchers := (dispatchers l)(cid := None)\<rparr>"

definition remove_notifier :: "u64 \<Rightarrow> listener \<Rightarrow> listener" where
  "remove_notifier cid l = l\<lparr>notifiers := (notifiers l)(cid := None)\<rparr>"

section \<open>The handlers of the peer connection\<close>

definition on_data_channel :: "nat \<Rightarrow> string \<Rightarrow> listener \<Rightarrow> listener" where
  "on_data_channel k label l =
     (let check = (\<lambda>c. if conn_reliable c \<and> conn_unreliable c then c\<lparr>ready_sent := True\<rparr> else c) in
      if label = RELIABLE_CHANNEL then upd_conn k (\<lambda>c. check (c\<lparr>conn_reliable := True\<rparr>)) l
      else if label = UNRELIABLE_CHANNEL then upd_conn k (\<lambda>c. check (c\<lparr>conn_unreliable := True\<rparr>)) l
      else l)"

datatype pc_state = Pc_Failed | Pc_Disconnected | Pc_Closed | Pc_Other

definition on_connection_state :: "nat \<Rightarrow> pc_state \<Rightarrow> listener \<Rightarrow> listener" where
  "on_connection_state k state l =
     (case state of Pc_Other \<Rightarrow> l | _ \<Rightarrow> remove_dispatcher (conn_id (conns l ! k)) l)"

section \<open>The waiting task\<close>

datatype wait_event = Got | Dropped | Timed_Out

definition queue_session :: "nat \<Rightarrow> listener \<Rightarrow> listener" where
  "queue_session k l = upd_conn k (\<lambda>c. c\<lparr>waiter := Queued\<rparr>) (l\<lparr>incoming := incoming l @ [k]\<rparr>)"

definition candidate_event :: "nat \<Rightarrow> wait_event \<Rightarrow> listener \<Rightarrow> bool" where
  "candidate_event k ev l =
     (case ev of
        Got \<Rightarrow> candidate_sent (conns l ! k)
      | Dropped \<Rightarrow> \<not> candidate_sent (conns l ! k) \<and> notifiers l (conn_id (conns l ! k)) \<noteq> Some k
      | Timed_Out \<Rightarrow> \<not> candidate_sent (conns l ! k) \<and> notifiers l (conn_id (conns l ! k)) = Some k)"

definition ready_event :: "nat \<Rightarrow> wait_event \<Rightarrow> listener \<Rightarrow> bool" where
  "ready_event k ev l = (case ev of Got \<Rightarrow> ready_sent (conns l ! k) | _ \<Rightarrow> \<not> ready_sent (conns l ! k))"

definition wait_candidate :: "nat \<Rightarrow> wait_event \<Rightarrow> listener \<Rightarrow> listener" where
  "wait_candidate k ev l =
     (case ev of
        Timed_Out \<Rightarrow> queue_session k l
      | _ \<Rightarrow> upd_conn k (\<lambda>c. c\<lparr>waiter := Wait_Ready\<rparr>) l)"

definition wait_ready :: "nat \<Rightarrow> wait_event \<Rightarrow> listener \<Rightarrow> listener" where
  "wait_ready k ev l = (case ev of Got \<Rightarrow> queue_session k l | _ \<Rightarrow> queue_session k l)"

section \<open>Accepting\<close>

text \<open>Senders of the queue are the signal handler and the waiting tasks.\<close>

definition waiting :: "conn \<Rightarrow> bool" where
  "waiting c \<longleftrightarrow> waiter c = Wait_Candidate \<or> waiter c = Wait_Ready"

definition senders_alive :: "listener \<Rightarrow> bool" where
  "senders_alive l \<longleftrightarrow> listening l \<or> list_ex waiting (conns l)"

definition accept :: "listener \<Rightarrow> nat res poll \<times> listener" where
  "accept l =
     (case incoming l of
        k # ks \<Rightarrow> (Ready (Inr k), l\<lparr>incoming := ks, accepted := accepted l @ [k]\<rparr>)
      | [] \<Rightarrow> (if senders_alive l then Pending else Ready (Inl ConnectionClosed), l))"

text \<open>The listener as a \<open>Stream\<close> of sessions: the end of the queue is the end of the stream.\<close>

definition listener_poll_next :: "listener \<Rightarrow> nat option poll \<times> listener" where
  "listener_poll_next l =
     (case incoming l of
        k # ks \<Rightarrow> (Ready (Some k), l\<lparr>incoming := ks, accepted := accepted l @ [k]\<rparr>)
      | [] \<Rightarrow> (if senders_alive l then Pending else Ready None, l))"

lemma accept_poll_next:
  "accept l =
     (let (r, l') = listener_poll_next l in (poll_map (ok_or ConnectionClosed) r, l'))"
  by (simp add: accept_def listener_poll_next_def ok_or_def split: list.split)

section \<open>The steps\<close>

text \<open>What the spawned tasks do by themselves.\<close>

inductive task_step :: "(string \<Rightarrow> candidate_init option) \<Rightarrow> listener \<Rightarrow> listener \<Rightarrow> bool"
  for from_json where
  Task_Signal: "k < length (conns l) \<Longrightarrow> cand_task (conns l ! k) = Running \<Longrightarrow>
    inbox (conns l ! k) = sig # rest \<Longrightarrow>
    task_step from_json l (task_signal from_json ok k sig (upd_conn k (\<lambda>c. c\<lparr>inbox := rest\<rparr>) l))"
| Task_Closed: "k < length (conns l) \<Longrightarrow> cand_task (conns l ! k) = Running \<Longrightarrow>
    inbox (conns l ! k) = [] \<Longrightarrow> inbox_closed k l \<Longrightarrow>
    task_step from_json l
      (upd_conn k (\<lambda>c. c\<lparr>cand_task := Cleaning\<rparr>) (remove_dispatcher (conn_id (conns l ! k)) l))"
| Task_Cleaned: "k < length (conns l) \<Longrightarrow> cand_task (conns l ! k) = Cleaning \<Longrightarrow>
    task_step from_json l
      (upd_conn k (\<lambda>c. c\<lparr>cand_task := Ended\<rparr>) (remove_notifier (conn_id (conns l ! k)) l))"
| Candidate_Wait: "k < length (conns l) \<Longrightarrow> waiter (conns l ! k) = Wait_Candidate \<Longrightarrow>
    candidate_event k ev l \<Longrightarrow> task_step from_json l (wait_candidate k ev l)"
| Ready_Wait: "k < length (conns l) \<Longrightarrow> waiter (conns l ! k) = Wait_Ready \<Longrightarrow>
    ready_event k ev l \<Longrightarrow> task_step from_json l (wait_ready k ev l)"

text \<open>With the signals that arrive, the end of the signal handler (the stream ended or the listener
  was dropped), the callbacks of the peer connections and the calls of accept.\<close>

inductive listener_step :: "(string \<Rightarrow> candidate_init option) \<Rightarrow> listener \<Rightarrow> listener \<Rightarrow> bool"
  for from_json where
  Dispatch: "listening l \<Longrightarrow> handling l = None \<Longrightarrow> signal_type sig \<noteq> Offer \<Longrightarrow>
    listener_step from_json l (dispatch sig l)"
| Offer_Begin: "listening l \<Longrightarrow> handling l = None \<Longrightarrow> signal_type sig = Offer \<Longrightarrow>
    listener_step from_json l (snd (begin_offer E sig l))"
| Offer_Finish: "handling l = Some (k, sig) \<Longrightarrow>
    listener_step from_json l (snd (finish_offer E k sig l))"
| Stop: "handling l = None \<Longrightarrow> listener_step from_json l (l\<lparr>listening := False\<rparr>)"
| Task: "task_step from_json l l' \<Longrightarrow> listener_step from_json l l'"
| Data_Channel: "k < length (conns l) \<Longrightarrow> handlers_set (conns l ! k) \<Longrightarrow>
    listener_step from_json l (on_data_channel k label l)"
| State_Change: "k < length (conns l) \<Longrightarrow> handlers_set (conns l ! k) \<Longrightarrow>
    listener_step from_json l (on_connection_state k state l)"
| Accept: "accept l = (r, l') \<Longrightarrow> listener_step from_json l l'"

lemma handle_offer_eq:
  "handle_offer E sig l =
     (case offer_peer_connection E of
        Inl e \<Rightarrow> (Inl (WebRtc e), l)
      | Inr _ \<Rightarrow>
          case answer_offer E sig of
            Inl e \<Rightarrow> (Inl e, (register_conn sig l)\<lparr>handling := None\<rparr>)
          | Inr answer \<Rightarrow>
              (Inr (), upd_conn (length (conns l)) (\<lambda>c. c\<lparr>handlers_set := True, waiter := Wait_Candidate\<rparr>)
                 ((register_conn sig l)\<lparr>handling := None, posted := posted l @ [answer]\<rparr>)))"
  by (simp add: handle_offer_def begin_offer_def finish_offer_def register_conn_def Let_def split: sum.split)

lemma on_signal_steps:
  assumes "listening l" and "handling l = None"
  shows "(listener_step from_json)\<^sup>*\<^sup>* l (on_signal E sig l)"
proof (cases "signal_type sig = Offer")
  case False
  with assms listener_step.Dispatch show ?thesis by (simp add: on_signal_def r_into_rtranclp)
next
  case True
  have first: "listener_step from_json l (snd (begin_offer E sig l))"
    using assms True by (rule listener_step.Offer_Begin)
  show ?thesis
  proof (cases "offer_peer_connection E")
    case (Inl e)
    with True show ?thesis by (simp add: on_signal_def handle_offer_eq)
  next
    case (Inr u)
    then have "listener_step from_json (snd (begin_offer E sig l)) (on_signal E sig l)"
      using True listener_step.Offer_Finish [of "snd (begin_offer E sig l)" "length (conns l)" sig from_json E]
      by (simp add: on_signal_def handle_offer_def begin_offer_def)
    with first show ?thesis by (rule converse_rtranclp_into_rtranclp [OF _ r_into_rtranclp])
  qed
qed

text \<open>A wait always has an end.\<close>

lemma wait_ends: "\<exists>ev. candidate_event k ev l" "\<exists>ev. ready_event k ev l"
proof -
  have "candidate_event k Got l \<or> candidate_event k Dropped l \<or> candidate_event k Timed_Out l"
    by (auto simp: candidate_event_def)
  then show "\<exists>ev. candidate_event k ev l" by blast
  have "ready_event k Got l \<or> ready_event k Timed_Out l" by (simp add: ready_event_def)
  then show "\<exists>ev. ready_event k ev l" by blast
qed

section \<open>The invariant\<close>

text \<open>
  An instance holds only signals of its own connection, its handlers are set exactly when its
  answer went out and somebody waits for it, and it is ready only with both channels.
\<close>

definition conn_ok :: "conn \<Rightarrow> bool" where
  "conn_ok c \<longleftrightarrow>
     (\<forall>s \<in> set (inbox c). connection_id s = conn_id c \<and> signal_type s \<noteq> Offer) \<and>
     (handlers_set c \<longleftrightarrow> waiter c \<noteq> No_Waiter) \<and>
     (ready_sent c \<longrightarrow> conn_reliable c \<and> conn_unreliable c)"

text \<open>The maps lead to instances of the right connection.\<close>

definition map_ok :: "conn list \<Rightarrow> (u64 \<rightharpoonup> nat) \<Rightarrow> bool" where
  "map_ok cs m \<longleftrightarrow> (\<forall>cid k. m cid = Some k \<longrightarrow> k < length cs \<and> conn_id (cs ! k) = cid)"

text \<open>What was queued or accepted are the instances whose waiting is over, each once.\<close>

definition queue_ok :: "listener \<Rightarrow> bool" where
  "queue_ok l \<longleftrightarrow> distinct (accepted l @ incoming l) \<and>
     set (accepted l @ incoming l) = {k. k < length (conns l) \<and> waiter (conns l ! k) = Queued}"

text \<open>The answers, in the order of the offers that were answered, go to where these came from.\<close>

definition answers_of :: "conn list \<Rightarrow> (u64 \<times> string) list" where
  "answers_of cs = map (\<lambda>c. (conn_id c, conn_network_id c)) (filter handlers_set cs)"

text \<open>The offer that is being handled belongs to the last instance, which has not been answered.\<close>

definition handling_ok :: "(nat \<times> signal) option \<Rightarrow> conn list \<Rightarrow> bool" where
  "handling_ok h cs \<longleftrightarrow>
     (case h of
        None \<Rightarrow> True
      | Some (k, sig) \<Rightarrow>
          Suc k = length cs \<and> conn_id (cs ! k) = connection_id sig \<and>
          conn_network_id (cs ! k) = network_id sig \<and> \<not> handlers_set (cs ! k))"

definition listener_inv :: "listener \<Rightarrow> bool" where
  "listener_inv l \<longleftrightarrow>
     map_ok (conns l) (dispatchers l) \<and> map_ok (conns l) (notifiers l) \<and>
     list_all conn_ok (conns l) \<and> queue_ok l \<and> handling_ok (handling l) (conns l) \<and>
     map (\<lambda>a. (connection_id a, network_id a)) (posted l) = answers_of (conns l)"

lemma upd_conn_fields [simp]:
  "listening (upd_conn k f l) = listening l"
  "handling (upd_conn k f l) = handling l"
  "dispatchers (upd_conn k f l) = dispatchers l"
  "notifiers (upd_conn k f l) = notifiers l"
  "conns (upd_conn k f l) = (conns l)[k := f (conns l ! k)]"
  "incoming (upd_conn k f l) = incoming l"
  "accepted (upd_conn k f l) = accepted l"
  "posted (upd_conn k f l) = posted l"
  "added (upd_conn k f l) = added l"
  by (simp_all add: upd_conn_def)

lemma nth_update: "xs[k := x] ! j = (if j = k \<and> j < length xs then x else xs ! j)"
  by (induction xs arbitrary: k j) (auto simp: nth_Cons split: nat.split)

lemma map_ok_update:
  "map_ok cs m \<Longrightarrow> conn_id c = conn_id (cs ! k) \<Longrightarrow> map_ok (cs[k := c]) m"
  by (auto simp: map_ok_def nth_update)

lemma map_ok_snoc:
  "map_ok (cs @ [c]) m \<longleftrightarrow>
     (\<forall>cid k. m cid = Some k \<longrightarrow>
        (k < length cs \<and> conn_id (cs ! k) = cid) \<or> (k = length cs \<and> conn_id c = cid))"
proof -
  have "k < length (cs @ [c]) \<and> conn_id ((cs @ [c]) ! k) = cid \<longleftrightarrow>
      (k < length cs \<and> conn_id (cs ! k) = cid) \<or> (k = length cs \<and> conn_id c = cid)" for k cid
    by (auto simp: nth_append less_Suc_eq)
  then show ?thesis unfolding map_ok_def by simp
qed

lemma map_ok_remove: "map_ok cs m \<Longrightarrow> map_ok cs (m(cid := None))"
  by (simp add: map_ok_def)

lemma answers_of_update:
  assumes "k < length cs" and "conn_id c = conn_id (cs ! k)"
    and "conn_network_id c = conn_network_id (cs ! k)" and "handlers_set c = handlers_set (cs ! k)"
  shows "answers_of (cs[k := c]) = answers_of cs"
proof -
  have "cs = take k cs @ cs ! k # drop (Suc k) cs" using assms(1) by (rule id_take_nth_drop)
  then have "answers_of cs = answers_of (take k cs @ cs ! k # drop (Suc k) cs)" by simp
  with assms show ?thesis by (simp add: upd_conv_take_nth_drop answers_of_def)
qed

lemma handling_ok_update:
  assumes "conn_id c = conn_id (cs ! k)" and "conn_network_id c = conn_network_id (cs ! k)"
    and "handlers_set c = handlers_set (cs ! k)"
  shows "handling_ok h (cs[k := c]) = handling_ok h cs"
  using assms by (auto simp: handling_ok_def nth_update split: option.split)

lemma conn_ok_nth: "listener_inv l \<Longrightarrow> k < length (conns l) \<Longrightarrow> conn_ok (conns l ! k)"
  by (simp add: listener_inv_def list_all_length)

lemma list_all_update: "list_all P xs \<Longrightarrow> P x \<Longrightarrow> list_all P (xs[k := x])"
  by (simp add: list_all_length nth_update)

text \<open>A change of one instance that leaves its identity and its waiting alone.\<close>

lemma upd_conn_inv:
  assumes "listener_inv l" and "k < length (conns l)"
    and "\<And>c. conn_ok c \<Longrightarrow> conn_ok (f c)"
    and "\<And>c. conn_id (f c) = conn_id c" and "\<And>c. conn_network_id (f c) = conn_network_id c"
    and "\<And>c. handlers_set (f c) = handlers_set c" and "\<And>c. waiter (f c) = waiter c"
  shows "listener_inv (upd_conn k f l)"
proof -
  have "{j. j < length (conns l) \<and> waiter ((conns l)[k := f (conns l ! k)] ! j) = Queued} =
      {j. j < length (conns l) \<and> waiter (conns l ! j) = Queued}"
    using assms(7) by (auto simp: nth_update)
  then show ?thesis
    using assms conn_ok_nth [OF assms(1,2)]
    by (simp add: listener_inv_def map_ok_update answers_of_update handling_ok_update list_all_update queue_ok_def)
qed

text \<open>A change of the maps alone.\<close>

lemma remove_fields [simp]:
  "conns (remove_dispatcher cid l) = conns l"
  "conns (remove_notifier cid l) = conns l"
  by (simp_all add: remove_dispatcher_def remove_notifier_def)

lemma maps_inv:
  "listener_inv l \<Longrightarrow> listener_inv (remove_dispatcher cid l)"
  "listener_inv l \<Longrightarrow> listener_inv (remove_notifier cid l)"
  "listener_inv l \<Longrightarrow> listener_inv (l\<lparr>added := a\<rparr>)"
  by (simp_all add: listener_inv_def remove_dispatcher_def remove_notifier_def map_ok_remove queue_ok_def)

lemma begin_offer_inv:
  assumes inv: "listener_inv l"
  shows "listener_inv (snd (begin_offer E sig l))"
proof -
  have grow: "map_ok (conns l @ [conn_new sig]) (m(connection_id sig \<mapsto> length (conns l)))"
    if "map_ok (conns l) m" for m
    using that by (auto simp: map_ok_snoc) (auto simp: map_ok_def conn_new_def)
  have "{k. k < Suc (length (conns l)) \<and> waiter ((conns l @ [conn_new sig]) ! k) = Queued} =
      {k. k < length (conns l) \<and> waiter (conns l ! k) = Queued}"
    by (auto simp: nth_append conn_new_def less_Suc_eq)
  with assms grow have "listener_inv ((register_conn sig l)\<lparr>handling := Some (length (conns l), sig)\<rparr>)"
    by (simp add: listener_inv_def register_conn_def Let_def queue_ok_def answers_of_def
        conn_ok_def conn_new_def handling_ok_def)
  with inv show ?thesis by (simp add: begin_offer_def split: sum.split)
qed

text \<open>Answering changes the last instance only.\<close>

lemma answers_of_last:
  assumes "Suc k = length cs" and "\<not> handlers_set (cs ! k)"
  shows "answers_of (cs[k := (cs ! k)\<lparr>handlers_set := True, waiter := w\<rparr>]) =
    answers_of cs @ [(conn_id (cs ! k), conn_network_id (cs ! k))]"
proof -
  from assms(1) have cs: "cs = take k cs @ [cs ! k]"
    by (metis lessI take_Suc_conv_app_nth take_all_iff order_refl)
  have "answers_of cs = answers_of (take k cs)" by (subst cs) (simp add: answers_of_def assms(2))
  moreover have "cs[k := c] = take k cs @ [c]" for c
    using assms(1) by (simp add: upd_conv_take_nth_drop)
  ultimately show ?thesis by (simp add: answers_of_def)
qed

lemma finish_offer_inv:
  assumes inv: "listener_inv l" and handling: "handling l = Some (k, sig)"
  shows "listener_inv (snd (finish_offer E k sig l))"
proof (cases "answer_offer E sig")
  case (Inl e)
  with inv show ?thesis by (simp add: finish_offer_def listener_inv_def queue_ok_def handling_ok_def)
next
  case (Inr ans)
  have id: "connection_id ans = connection_id sig" "network_id ans = network_id sig"
    using Inr by (auto simp: answer_offer_def and_then_Inr_iff signal_answer_def signal_new_def Let_def)
  from inv handling have k: "Suc k = length (conns l)" "conn_id (conns l ! k) = connection_id sig"
    "conn_network_id (conns l ! k) = network_id sig" "\<not> handlers_set (conns l ! k)"
    by (simp_all add: listener_inv_def handling_ok_def)
  then have lt: "k < length (conns l)" by simp
  let ?c = "(conns l ! k)\<lparr>handlers_set := True, waiter := Wait_Candidate\<rparr>"
  have ok: "conn_ok (conns l ! k)" using inv lt by (rule conn_ok_nth)
  with k(4) have "waiter (conns l ! k) = No_Waiter" by (simp add: conn_ok_def)
  then have "{j. j < length (conns l) \<and> waiter ((conns l)[k := ?c] ! j) = Queued} =
      {j. j < length (conns l) \<and> waiter (conns l ! j) = Queued}"
    by (auto simp: nth_update)
  moreover have "conn_ok ?c" using ok by (simp add: conn_ok_def)
  ultimately show ?thesis
    using inv Inr id k(2,3) answers_of_last [OF k(1,4), of Wait_Candidate]
    by (simp add: finish_offer_def Let_def listener_inv_def queue_ok_def map_ok_update list_all_update
        handling_ok_def)
qed

lemma dispatch_inv:
  assumes "listener_inv l" and "signal_type sig \<noteq> Offer"
  shows "listener_inv (dispatch sig l)"
proof (cases "dispatchers l (connection_id sig)")
  case None
  with assms show ?thesis by (simp add: dispatch_def)
next
  case (Some k)
  with assms(1) have k: "k < length (conns l)" "conn_id (conns l ! k) = connection_id sig"
    by (auto simp: listener_inv_def map_ok_def)
  have "listener_inv (l\<lparr>conns := (conns l)[k := (conns l ! k)\<lparr>inbox := inbox (conns l ! k) @ [sig]\<rparr>]\<rparr>)"
  proof -
    let ?f = "\<lambda>c. if conn_id c = connection_id sig then c\<lparr>inbox := inbox c @ [sig]\<rparr> else c"
    have "listener_inv (upd_conn k ?f l)"
      using assms(2) by (intro upd_conn_inv [OF assms(1) k(1)]) (auto simp: conn_ok_def)
    with k(2) show ?thesis by (simp add: upd_conn_def)
  qed
  with Some assms(1) show ?thesis by (simp add: dispatch_def upd_conn_def)
qed

lemma queue_inv:
  assumes inv: "listener_inv l" and k: "k < length (conns l)"
    and "waiter (conns l ! k) \<in> {Wait_Candidate, Wait_Ready}"
  shows "listener_inv (queue_session k l)"
proof -
  let ?cs = "(conns l)[k := (conns l ! k)\<lparr>waiter := Queued\<rparr>]"
  have "{j. j < length (conns l) \<and> waiter (?cs ! j) = Queued} =
      insert k {j. j < length (conns l) \<and> waiter (conns l ! j) = Queued}"
    using k by (auto simp: nth_update)
  moreover have "k \<notin> set (accepted l @ incoming l)"
    using inv assms(3) by (auto simp: listener_inv_def queue_ok_def)
  moreover have "conn_ok ((conns l ! k)\<lparr>waiter := Queued\<rparr>)"
    using conn_ok_nth [OF inv k] assms(3) by (auto simp: conn_ok_def)
  ultimately show ?thesis
    using inv k
    by (simp add: listener_inv_def queue_session_def map_ok_update answers_of_update handling_ok_update list_all_update queue_ok_def)
qed

lemma wait_on_inv:
  assumes inv: "listener_inv l" and k: "k < length (conns l)" and "waiter (conns l ! k) = Wait_Candidate"
  shows "listener_inv (upd_conn k (\<lambda>c. c\<lparr>waiter := Wait_Ready\<rparr>) l)"
proof -
  let ?cs = "(conns l)[k := (conns l ! k)\<lparr>waiter := Wait_Ready\<rparr>]"
  have "{j. j < length (conns l) \<and> waiter (?cs ! j) = Queued} =
      {j. j < length (conns l) \<and> waiter (conns l ! j) = Queued}"
    using k assms(3) by (auto simp: nth_update)
  moreover have "conn_ok ((conns l ! k)\<lparr>waiter := Wait_Ready\<rparr>)"
    using conn_ok_nth [OF inv k] assms(3) by (auto simp: conn_ok_def)
  ultimately show ?thesis
    using inv k
    by (simp add: listener_inv_def map_ok_update answers_of_update handling_ok_update list_all_update queue_ok_def)
qed

lemma notify_inv:
  assumes "listener_inv l"
  shows "listener_inv (notify_candidate cid l)"
proof (cases "notifiers l cid")
  case None
  with assms show ?thesis by (simp add: notify_candidate_def)
next
  case (Some j)
  with assms have "j < length (conns l)" by (auto simp: listener_inv_def map_ok_def)
  moreover have "listener_inv (l\<lparr>notifiers := (notifiers l)(cid := None)\<rparr>)"
    using maps_inv(2) [OF assms, of cid] by (simp add: remove_notifier_def)
  ultimately show ?thesis
    using Some by (simp add: notify_candidate_def) (rule upd_conn_inv; simp add: conn_ok_def)
qed

lemma task_signal_inv:
  assumes inv: "listener_inv l" and k: "k < length (conns l)"
  shows "listener_inv (task_signal from_json ok k sig l)"
proof -
  have "listener_inv (upd_conn k (\<lambda>c. c\<lparr>first_candidate := False\<rparr>) (l\<lparr>added := a\<rparr>))" for a
    using maps_inv(3) [OF inv] k by (intro upd_conn_inv) (simp_all add: conn_ok_def)
  with inv show ?thesis
    by (simp add: task_signal_def Let_def maps_inv notify_inv)
qed

lemma data_channel_inv:
  assumes "listener_inv l" and "k < length (conns l)"
  shows "listener_inv (on_data_channel k label l)"
  using assms
  by (auto simp: on_data_channel_def Let_def conn_ok_def intro!: upd_conn_inv split: if_splits)

lemma task_step_inv:
  assumes "task_step from_json l l'" and inv: "listener_inv l"
  shows "listener_inv l'"
  using assms
proof cases
  case (Task_Signal k sig rest ok)
  have "listener_inv (upd_conn k (\<lambda>c. c\<lparr>inbox := rest\<rparr>) l)"
  proof -
    let ?f = "\<lambda>c. if inbox c = sig # rest then c\<lparr>inbox := rest\<rparr> else c"
    have "listener_inv (upd_conn k ?f l)"
      by (intro upd_conn_inv [OF inv Task_Signal(2)]) (auto simp: conn_ok_def)
    with Task_Signal show ?thesis by (simp add: upd_conn_def)
  qed
  with Task_Signal show ?thesis by (simp add: task_signal_inv)
next
  case (Task_Closed k)
  with inv show ?thesis by (auto intro!: upd_conn_inv simp: maps_inv conn_ok_def)
next
  case (Task_Cleaned k)
  with inv show ?thesis by (auto intro!: upd_conn_inv simp: maps_inv conn_ok_def)
next
  case (Candidate_Wait k ev)
  with inv show ?thesis by (cases ev) (simp_all add: wait_candidate_def queue_inv wait_on_inv)
next
  case (Ready_Wait k ev)
  with inv show ?thesis by (cases ev) (simp_all add: wait_ready_def queue_inv)
qed

lemma listener_step_inv:
  assumes "listener_step from_json l l'" and inv: "listener_inv l"
  shows "listener_inv l'"
  using assms
proof cases
  case (Dispatch sig)
  with inv show ?thesis by (simp add: dispatch_inv)
next
  case (Offer_Begin sig E)
  with inv show ?thesis by (simp add: begin_offer_inv)
next
  case (Offer_Finish k sig E)
  with inv show ?thesis by (simp add: finish_offer_inv)
next
  case Stop
  with inv show ?thesis by (simp add: listener_inv_def queue_ok_def)
next
  case Task
  with inv show ?thesis by (blast intro: task_step_inv)
next
  case (Data_Channel k label)
  with inv show ?thesis by (simp add: data_channel_inv)
next
  case (State_Change k state)
  with inv show ?thesis by (cases state) (simp_all add: on_connection_state_def maps_inv)
next
  case (Accept r)
  show ?thesis
  proof (cases "incoming l")
    case Nil
    with Accept inv show ?thesis by (simp add: accept_def)
  next
    case (Cons k ks)
    with Accept have "l' = l\<lparr>incoming := ks, accepted := accepted l @ [k]\<rparr>" by (simp add: accept_def)
    moreover have "queue_ok (l\<lparr>incoming := ks, accepted := accepted l @ [k]\<rparr>) = queue_ok l"
      by (simp add: queue_ok_def Cons)
    ultimately show ?thesis using inv by (simp add: listener_inv_def)
  qed
qed

lemma listener_reach_inv:
  "(listener_step from_json)\<^sup>*\<^sup>* bind_listener l \<Longrightarrow> listener_inv l"
proof (induction rule: rtranclp_induct)
  case base
  show ?case
    by (simp add: listener_inv_def bind_listener_def map_ok_def queue_ok_def answers_of_def handling_ok_def)
next
  case (step y z)
  then show ?case by (blast intro: listener_step_inv)
qed

end
