(* ===== verification/Listener_Laws.thy ===== *)
theory Listener_Laws
  imports Listener
begin

text \<open>
  What the listener of theory Listener guarantees and what it does not: its invariant, the end of
  the work of its tasks, the results of \<open>accept\<close>, and the two ways in which the shared maps keep
  or lose a registration, after a failed offer and after a second offer with the same
  connection id.
\<close>

section \<open>The work of the tasks\<close>

definition task_rank :: "task_state \<Rightarrow> nat" where
  "task_rank t = (case t of Running \<Rightarrow> 2 | Cleaning \<Rightarrow> 1 | Ended \<Rightarrow> 0)"

definition waiter_rank :: "waiter_state \<Rightarrow> nat" where
  "waiter_rank w = (case w of Wait_Candidate \<Rightarrow> 2 | Wait_Ready \<Rightarrow> 1 | _ \<Rightarrow> 0)"

definition conn_work :: "conn \<Rightarrow> nat" where
  "conn_work c = length (inbox c) + task_rank (cand_task c) + waiter_rank (waiter c)"

definition work :: "listener \<Rightarrow> nat" where
  "work l = sum_list (map conn_work (conns l))"

lemma work_upd_conn:
  assumes "k < length (conns l)"
  shows "work (upd_conn k f l) + conn_work (conns l ! k) = work l + conn_work (f (conns l ! k))"
proof -
  let ?ws = "map conn_work (conns l)"
  have "?ws ! k \<le> sum_list ?ws" using assms by (intro member_le_sum_list) simp_all
  then show ?thesis using assms by (simp add: work_def map_update sum_list_update)
qed

lemma work_same:
  "(\<And>c. conn_work (f c) = conn_work c) \<Longrightarrow> work (upd_conn k f l) = work l"
  using work_upd_conn [of k l f]
  by (cases "k < length (conns l)") (simp_all add: work_def list_update_beyond)

lemma work_fields [simp]:
  "work (l\<lparr>notifiers := n\<rparr>) = work l" "work (l\<lparr>added := a\<rparr>) = work l"
  "work (l\<lparr>incoming := q\<rparr>) = work l" "work (remove_dispatcher cid l) = work l"
  "work (remove_notifier cid l) = work l"
  by (simp_all add: work_def)

lemma work_task_signal: "work (task_signal from_json ok k sig l) = work l"
  by (simp add: task_signal_def notify_candidate_def Let_def work_same conn_work_def split: option.split)

lemma work_task_step: "task_step from_json l l' \<Longrightarrow> work l' < work l"
proof (induction rule: task_step.induct)
  case (Task_Signal k l sig rest ok)
  then show ?case
    using work_upd_conn [of k l "\<lambda>c. c\<lparr>inbox := rest\<rparr>"] by (simp add: work_task_signal conn_work_def)
next
  case (Task_Closed k l)
  then show ?case
    using work_upd_conn [of k "remove_dispatcher (conn_id (conns l ! k)) l" "\<lambda>c. c\<lparr>cand_task := Cleaning\<rparr>"]
    by (simp add: conn_work_def task_rank_def)
next
  case (Task_Cleaned k l)
  then show ?case
    using work_upd_conn [of k "remove_notifier (conn_id (conns l ! k)) l" "\<lambda>c. c\<lparr>cand_task := Ended\<rparr>"]
    by (simp add: conn_work_def task_rank_def)
next
  case (Candidate_Wait k l ev)
  then show ?case
    using work_upd_conn [of k l "\<lambda>c. c\<lparr>waiter := Wait_Ready\<rparr>"]
      work_upd_conn [of k "l\<lparr>incoming := incoming l @ [k]\<rparr>" "\<lambda>c. c\<lparr>waiter := Queued\<rparr>"]
    by (cases ev) (simp_all add: wait_candidate_def queue_session_def conn_work_def waiter_rank_def)
next
  case (Ready_Wait k l ev)
  then show ?case
    using work_upd_conn [of k "l\<lparr>incoming := incoming l @ [k]\<rparr>" "\<lambda>c. c\<lparr>waiter := Queued\<rparr>"]
    by (cases ev) (simp_all add: wait_ready_def queue_session_def conn_work_def waiter_rank_def)
qed

lemma work_task_steps: "(task_step from_json ^^ n) l l' \<Longrightarrow> n + work l' \<le> work l"
proof (induction n arbitrary: l')
  case 0
  then show ?case by simp
next
  case (Suc n)
  then obtain m where "(task_step from_json ^^ n) l m" "task_step from_json m l'" by auto
  with Suc.IH [of m] work_task_step [of from_json m l'] show ?case by simp
qed

text \<open>When no task has anything to do.\<close>

definition quiet :: "conn \<Rightarrow> nat \<Rightarrow> listener \<Rightarrow> bool" where
  "quiet c k l \<longleftrightarrow> \<not> waiting c \<and>
     (cand_task c = Ended \<or> cand_task c = Running \<and> inbox c = [] \<and> \<not> inbox_closed k l)"

lemma no_step_quiet:
  assumes none: "\<nexists>l'. task_step from_json l l'" and k: "k < length (conns l)"
  shows "quiet (conns l ! k) k l"
proof -
  have "waiter (conns l ! k) \<noteq> Wait_Candidate"
    using none task_step.Candidate_Wait [OF k] wait_ends(1) by blast
  moreover have "waiter (conns l ! k) \<noteq> Wait_Ready"
    using none task_step.Ready_Wait [OF k] wait_ends(2) by blast
  moreover have "cand_task (conns l ! k) \<noteq> Cleaning"
    using none task_step.Task_Cleaned [OF k] by blast
  moreover have "cand_task (conns l ! k) = Running \<Longrightarrow> inbox (conns l ! k) = []"
    using none task_step.Task_Signal [OF k] by (metis neq_Nil_conv)
  moreover have "cand_task (conns l ! k) = Running \<Longrightarrow> inbox (conns l ! k) = [] \<Longrightarrow> \<not> inbox_closed k l"
    using none task_step.Task_Closed [OF k] by blast
  ultimately show ?thesis
    unfolding quiet_def waiting_def by (cases "cand_task (conns l ! k)") simp_all
qed

lemma task_steps_inv: "(task_step from_json ^^ n) l l' \<Longrightarrow> listener_inv l \<Longrightarrow> listener_inv l'"
  by (induction n arbitrary: l') (auto intro: task_step_inv)

lemma queued_iff:
  assumes "listener_inv l" and "k < length (conns l)" and "handlers_set (conns l ! k)"
  shows "k \<in> set (accepted l @ incoming l) \<longleftrightarrow> \<not> waiting (conns l ! k)"
  using assms conn_ok_nth [OF assms(1,2)]
  by (cases "waiter (conns l ! k)") (auto simp: listener_inv_def queue_ok_def conn_ok_def waiting_def)

text \<open>Who can still queue a session.\<close>

lemma senders_alive_iff:
  assumes "listener_inv l"
  shows "senders_alive l \<longleftrightarrow> listening l \<or>
    (\<exists>k < length (conns l). handlers_set (conns l ! k) \<and> k \<notin> set (accepted l @ incoming l))"
proof -
  have "waiting (conns l ! k) \<Longrightarrow> handlers_set (conns l ! k)" if "k < length (conns l)" for k
    using conn_ok_nth [OF assms that] by (auto simp: conn_ok_def waiting_def)
  with queued_iff [OF assms] have "list_ex waiting (conns l) \<longleftrightarrow>
      (\<exists>k < length (conns l). handlers_set (conns l ! k) \<and> k \<notin> set (accepted l @ incoming l))"
    by (auto simp: list_ex_length)
  then show ?thesis by (simp add: senders_alive_def)
qed

section \<open>Connections that share an id, and offers that fail\<close>

lemma length_notify [simp]: "length (conns (notify_candidate cid l)) = length (conns l)"
  by (simp add: notify_candidate_def split: option.split)

text \<open>
  The instance \<open>k\<close> is registered and will never be unregistered, unless another connection with
  its id appears.
\<close>

definition shared_id :: "u64 \<Rightarrow> nat \<Rightarrow> conn list \<Rightarrow> bool" where
  "shared_id cid k cs \<longleftrightarrow> (\<exists>j < length cs. j \<noteq> k \<and> conn_id (cs ! j) = cid)"

definition stuck :: "u64 \<Rightarrow> nat \<Rightarrow> listener \<Rightarrow> bool" where
  "stuck cid k l \<longleftrightarrow>
     k < length (conns l) \<and> conn_id (conns l ! k) = cid \<and>
     (shared_id cid k (conns l) \<or>
      dispatchers l cid = Some k \<and> cand_task (conns l ! k) = Running \<and>
      \<not> handlers_set (conns l ! k) \<and> (\<forall>sig. handling l \<noteq> Some (k, sig)))"

lemma shared_id_update [simp]:
  "conn_id c = conn_id (cs ! j) \<Longrightarrow> shared_id cid k (cs[j := c]) = shared_id cid k cs"
proof -
  assume "conn_id c = conn_id (cs ! j)"
  then have "conn_id (cs[j := c] ! i) = conn_id (cs ! i)" for i by (simp add: nth_update)
  then show ?thesis by (simp add: shared_id_def)
qed

lemma shared_id_snoc:
  "shared_id cid k (cs @ [c]) \<longleftrightarrow> shared_id cid k cs \<or> (k \<noteq> length cs \<and> conn_id c = cid)"
proof -
  have "(j < length (cs @ [c]) \<and> j \<noteq> k \<and> conn_id ((cs @ [c]) ! j) = cid) =
      ((j < length cs \<and> j \<noteq> k \<and> conn_id (cs ! j) = cid) \<or> (j = length cs \<and> j \<noteq> k \<and> conn_id c = cid))" for j
    by (cases "j = length cs"; cases "j < length cs"; simp add: nth_append)
  then show ?thesis by (simp only: shared_id_def ex_disj_distrib) blast
qed

lemma stuck_update:
  assumes "stuck cid k l" and "dispatchers l' = dispatchers l"
    and "length (conns l') = length (conns l)"
    and "\<And>j. j < length (conns l) \<Longrightarrow> conn_id (conns l' ! j) = conn_id (conns l ! j)"
    and "cand_task (conns l' ! k) = cand_task (conns l ! k)"
    and "handlers_set (conns l' ! k) = handlers_set (conns l ! k)"
    and "handling l' \<in> {handling l, None}"
  shows "stuck cid k l'"
proof -
  have "shared_id cid k (conns l') = shared_id cid k (conns l)"
    unfolding shared_id_def assms(3) by (intro ex_cong1) (metis assms(4))
  moreover have "k < length (conns l)" using assms(1) by (simp add: stuck_def)
  moreover have "handling l' \<noteq> Some (k, sig)" if "handling l \<noteq> Some (k, sig)" for sig
    using assms(7) that by auto
  ultimately show ?thesis
    using assms(1) unfolding stuck_def assms(2,3,5,6) by (auto simp: assms(4))
qed

lemma stuck_upd_conn:
  assumes "stuck cid k l" and "\<And>c. conn_id (f c) = conn_id c"
    and "\<And>c. cand_task (f c) = cand_task c" and "\<And>c. handlers_set (f c) = handlers_set c"
  shows "stuck cid k (upd_conn j f l)"
  by (rule stuck_update [OF assms(1)]) (simp_all add: nth_update assms(2-4))

lemma stuck_grow:
  assumes "stuck cid k l" and "conns l' = conns l @ [c]" and "conn_id c = cid'"
    and "dispatchers l' = (dispatchers l)(cid' \<mapsto> length (conns l))"
    and "handling l' = Some (length (conns l), sig)"
  shows "stuck cid k l'"
proof -
  from assms(1) have k: "k < length (conns l)" "conn_id (conns l ! k) = cid" by (simp_all add: stuck_def)
  have same: "conns l' ! k = conns l ! k" "k < length (conns l')"
    using k(1) by (simp_all add: assms(2) nth_append)
  have "shared_id cid k (conns l') \<or> dispatchers l' cid = Some k \<and>
      cand_task (conns l ! k) = Running \<and> \<not> handlers_set (conns l ! k) \<and>
      (\<forall>sig. handling l' \<noteq> Some (k, sig))"
  proof (cases "shared_id cid k (conns l) \<or> cid' = cid")
    case True
    then have "shared_id cid k (conns l @ [c])" using k(1) assms(3) by (auto simp: shared_id_snoc)
    then show ?thesis by (simp only: assms(2) simp_thms)
  next
    case False
    with assms(1) k(1) show ?thesis unfolding assms(4,5) stuck_def by auto
  qed
  with k same show ?thesis by (simp only: stuck_def)
qed

lemma stuck_remove:
  assumes "stuck cid k l" and "j < length (conns l)" and "j = k \<Longrightarrow> shared_id cid k (conns l)"
  shows "stuck cid k (remove_dispatcher (conn_id (conns l ! j)) l)"
proof (cases "shared_id cid k (conns l)")
  case True
  with assms(1) show ?thesis by (simp add: stuck_def)
next
  case False
  with assms(2,3) have "conn_id (conns l ! j) \<noteq> cid" by (auto simp: shared_id_def)
  with assms(1) False show ?thesis by (simp add: stuck_def remove_dispatcher_def)
qed

lemma stuck_maps [simp]:
  "stuck cid k (l\<lparr>notifiers := n\<rparr>) = stuck cid k l"
  "stuck cid k (l\<lparr>added := a\<rparr>) = stuck cid k l"
  "stuck cid k (l\<lparr>incoming := i\<rparr>) = stuck cid k l"
  "stuck cid k (l\<lparr>accepted := c\<rparr>) = stuck cid k l"
  "stuck cid k (l\<lparr>posted := p\<rparr>) = stuck cid k l"
  "stuck cid k (remove_notifier cid' l) = stuck cid k l"
  by (simp_all add: stuck_def remove_notifier_def)

lemma stuck_dispatch: "stuck cid k l \<Longrightarrow> stuck cid k (dispatch sig l)"
  by (auto simp: dispatch_def intro: stuck_upd_conn split: option.split)

lemma stuck_begin_offer:
  assumes "stuck cid k l"
  shows "stuck cid k (snd (begin_offer E sig l))"
proof -
  have "stuck cid k ((register_conn sig l)\<lparr>handling := Some (length (conns l), sig)\<rparr>)"
    by (rule stuck_grow [OF assms, of _ "conn_new sig" "connection_id sig"])
      (simp_all add: register_conn_def Let_def conn_new_def)
  with assms show ?thesis by (simp add: begin_offer_def split: sum.split)
qed

lemma stuck_finish_offer:
  assumes st: "stuck cid k l" and handling: "handling l = Some (j, sig)"
  shows "stuck cid k (snd (finish_offer E j sig l))"
proof -
  let ?f = "\<lambda>c. c\<lparr>handlers_set := True, waiter := Wait_Candidate\<rparr>"
  have "stuck cid k (upd_conn j ?f (l\<lparr>handling := None, posted := p\<rparr>))" for p
  proof (cases "j = k")
    case True
    with st handling show ?thesis by (simp add: stuck_def)
  next
    case False
    then show ?thesis by (intro stuck_update [OF st]) (simp_all add: nth_update)
  qed
  moreover have "stuck cid k (l\<lparr>handling := None\<rparr>)" by (rule stuck_update [OF st]) simp_all
  ultimately show ?thesis by (simp add: finish_offer_def Let_def split: sum.split)
qed

lemma stuck_task_signal: "stuck cid k l \<Longrightarrow> stuck cid k (task_signal from_json ok j sig l)"
  by (auto simp: task_signal_def notify_candidate_def Let_def intro!: stuck_upd_conn split: option.split)

lemma stuck_task_step:
  assumes "task_step from_json l l'" and st: "stuck cid k l"
  shows "stuck cid k l'"
  using assms
proof cases
  case (Task_Signal j sig rest ok)
  with st show ?thesis by (auto intro!: stuck_task_signal stuck_upd_conn)
next
  case (Task_Closed j)
  have shared: "j = k \<Longrightarrow> shared_id cid k (conns l)"
    using Task_Closed st by (auto simp: inbox_closed_def stuck_def)
  with st Task_Closed(2) have "stuck cid k (remove_dispatcher (conn_id (conns l ! j)) l)"
    by (rule stuck_remove)
  with Task_Closed shared show ?thesis
    by (cases "j = k") (simp_all add: stuck_def nth_update)
next
  case (Task_Cleaned j)
  with st show ?thesis by (cases "j = k") (auto simp: stuck_def nth_update remove_notifier_def)
next
  case (Candidate_Wait j ev)
  with st show ?thesis
    by (cases ev) (auto simp: wait_candidate_def queue_session_def intro!: stuck_upd_conn)
next
  case (Ready_Wait j ev)
  with st show ?thesis
    by (cases ev) (auto simp: wait_ready_def queue_session_def intro!: stuck_upd_conn)
qed

lemma stuck_step:
  assumes "listener_step from_json l l'" and st: "stuck cid k l"
  shows "stuck cid k l'"
  using assms
proof cases
  case (Dispatch sig)
  with st show ?thesis by (simp add: stuck_dispatch)
next
  case (Offer_Begin sig E)
  with st show ?thesis by (simp add: stuck_begin_offer)
next
  case (Offer_Finish j sig E)
  with st show ?thesis by (simp add: stuck_finish_offer)
next
  case Stop
  with st show ?thesis by (simp add: stuck_def)
next
  case Task
  with st show ?thesis by (blast intro: stuck_task_step)
next
  case (Data_Channel j label)
  with st show ?thesis by (auto simp: on_data_channel_def Let_def intro!: stuck_upd_conn split: if_splits)
next
  case (State_Change j state)
  with st have "j = k \<Longrightarrow> shared_id cid k (conns l)" by (auto simp: stuck_def)
  with st State_Change(2) have "stuck cid k (remove_dispatcher (conn_id (conns l ! j)) l)"
    by (rule stuck_remove)
  with State_Change st show ?thesis by (cases state) (simp_all add: on_connection_state_def)
next
  case (Accept r)
  with st show ?thesis by (auto simp: accept_def split: list.splits if_splits)
qed

lemma stuck_steps: "(listener_step from_json)\<^sup>*\<^sup>* l l' \<Longrightarrow> stuck cid k l \<Longrightarrow> stuck cid k l'"
  by (induction rule: rtranclp_induct) (auto intro: stuck_step)

lemma failed_offer_stuck:
  assumes "signal_type sig = Offer" and "offer_peer_connection E = Inr ()" and "answer_offer E sig = Inl e"
  shows "stuck (connection_id sig) (length (conns l)) (on_signal E sig l)"
  using assms by (simp add: on_signal_def handle_offer_eq Let_def register_conn_def stuck_def conn_new_def)

lemma offer_registered:
  assumes "signal_type sig = Offer" and "offer_peer_connection E = Inr ()"
  shows "dispatchers (on_signal E sig l) (connection_id sig) = Some (length (conns l)) \<and>
    notifiers (on_signal E sig l) (connection_id sig) = Some (length (conns l)) \<and>
    length (conns (on_signal E sig l)) = Suc (length (conns l)) \<and>
    inbox (conns (on_signal E sig l) ! length (conns l)) = [] \<and>
    (\<forall>k < length (conns l). conns (on_signal E sig l) ! k = conns l ! k)"
  using assms
  by (simp add: on_signal_def handle_offer_eq Let_def register_conn_def conn_new_def nth_append split: sum.split)

definition demo_offer_env :: offer_env where
  "demo_offer_env = \<lparr>offer_peer_connection = Inr (), offer_parse = Inr (), offer_set_remote = Inr (),
     offer_create_answer = Inr ''v=1'', offer_set_local = Inr (), offer_post = Inr ()\<rparr>"

definition demo_sig :: signal where
  "demo_sig = signal_offer 5 ''v=0'' ''2''"

definition demo_offered :: listener where
  "demo_offered = on_signal demo_offer_env demo_sig bind_listener"

lemma demo_offered_eq:
  "demo_offered = bind_listener\<lparr>dispatchers := [5 \<mapsto> 0], notifiers := [5 \<mapsto> 0],
     conns := [(conn_new demo_sig)\<lparr>handlers_set := True, waiter := Wait_Candidate\<rparr>],
     posted := [signal_answer 5 ''v=1'' ''2'']\<rparr>"
  by (simp add: demo_offered_def on_signal_def handle_offer_eq demo_offer_env_def demo_sig_def
      register_conn_def answer_offer_def signal_constructors Let_def upd_conn_def bind_listener_def)

lemmas demo_simps = demo_offered_eq demo_sig_def bind_listener_def conn_new_def signal_constructors

lemma demo_offered_reachable: "(listener_step (\<lambda>_. None))\<^sup>*\<^sup>* bind_listener demo_offered"
  unfolding demo_offered_def by (rule on_signal_steps) (simp_all add: bind_listener_def)

definition demo_queued :: listener where
  "demo_queued = queue_session 0 demo_offered"

lemma demo_queued_step: "task_step (\<lambda>_. None) demo_offered demo_queued"
  using task_step.Candidate_Wait [of 0 demo_offered Timed_Out "\<lambda>_. None"]
  by (simp add: demo_queued_def demo_simps candidate_event_def wait_candidate_def)

lemma demo_queued_quiet: "\<nexists>l. task_step (\<lambda>_. None) demo_queued l"
  by (auto elim!: task_step.cases simp: demo_queued_def queue_session_def demo_simps inbox_closed_def)

section \<open>Properties\<close>

text \<open>C6: In every state the listener can reach, whatever the peers, the callbacks, the clock and the
  scheduling do: both maps lead only to connections with that id; a connection holds only signals
  that carry its id and are no offers; it counts as ready only with both channels; the answers that
  were sent are one for each offer that was answered, in order, each with the id and to the node of
  its offer; and the sessions that were queued or accepted are, without repetition, exactly those
  whose waiting is over.\<close>

theorem listener_invariant:
  assumes "(listener_step from_json)\<^sup>*\<^sup>* bind_listener l"
  shows "(\<forall>cid k. dispatchers l cid = Some k \<or> notifiers l cid = Some k \<longrightarrow>
      k < length (conns l) \<and> conn_id (conns l ! k) = cid) \<and>
    (\<forall>c \<in> set (conns l).
      (\<forall>s \<in> set (inbox c). connection_id s = conn_id c \<and> signal_type s \<noteq> Offer) \<and>
      (ready_sent c \<longrightarrow> conn_reliable c \<and> conn_unreliable c)) \<and>
    map (\<lambda>a. (connection_id a, network_id a)) (posted l) =
      map (\<lambda>c. (conn_id c, conn_network_id c)) (filter handlers_set (conns l)) \<and>
    distinct (accepted l @ incoming l) \<and>
    set (accepted l @ incoming l) = {k. k < length (conns l) \<and> waiter (conns l ! k) = Queued}"
proof -
  have inv: "listener_inv l" using assms by (rule listener_reach_inv)
  then have "map_ok (conns l) (dispatchers l)" "map_ok (conns l) (notifiers l)" "queue_ok l"
    "list_all conn_ok (conns l)" "map (\<lambda>a. (connection_id a, network_id a)) (posted l) = answers_of (conns l)"
    by (simp_all add: listener_inv_def)
  moreover from this have "\<forall>c \<in> set (conns l). conn_ok c" by (simp add: list_all_iff)
  ultimately show ?thesis
    unfolding map_ok_def queue_ok_def answers_of_def conn_ok_def by blast
qed

theorem listener_invariant_witness:
  "(listener_step (\<lambda>_. None))\<^sup>*\<^sup>* bind_listener demo_offered \<and>
   map (\<lambda>a. (connection_id a, network_id a)) (posted demo_offered) = [(5, ''2'')] \<and>
   {k. k < length (conns demo_offered) \<and> waiter (conns demo_offered ! k) = Queued} = {}"
proof -
  from listener_invariant [OF demo_offered_reachable]
  have "map (\<lambda>a. (connection_id a, network_id a)) (posted demo_offered) =
      map (\<lambda>c. (conn_id c, conn_network_id c)) (filter handlers_set (conns demo_offered))"
    "set (accepted demo_offered @ incoming demo_offered) =
      {k. k < length (conns demo_offered) \<and> waiter (conns demo_offered ! k) = Queued}"
    by blast+
  then show ?thesis using demo_offered_reachable by (simp add: demo_simps)
qed

text \<open>C9: The tasks of the listener do not run for ever: from any reachable state they take at most
  \<open>work\<close> steps by themselves (the signals waiting for them and what is left of each task's course).
  When they can take no more, the session of every answered offer has been queued or accepted, and
  each candidate task has either ended or is still registered, with every signal consumed.\<close>

theorem listener_tasks_terminate:
  assumes "(listener_step from_json)\<^sup>*\<^sup>* bind_listener l" and "(task_step from_json ^^ n) l l'"
  shows "n \<le> work l \<and>
    ((\<nexists>l''. task_step from_json l' l'') \<longrightarrow>
      (\<forall>k < length (conns l').
        (handlers_set (conns l' ! k) \<longrightarrow> k \<in> set (accepted l' @ incoming l')) \<and>
        (cand_task (conns l' ! k) = Ended \<or>
         cand_task (conns l' ! k) = Running \<and> inbox (conns l' ! k) = [] \<and>
         dispatchers l' (conn_id (conns l' ! k)) = Some k)))"
proof -
  have inv: "listener_inv l'" using assms by (blast intro: task_steps_inv listener_reach_inv)
  have "(handlers_set (conns l' ! k) \<longrightarrow> k \<in> set (accepted l' @ incoming l')) \<and>
      (cand_task (conns l' ! k) = Ended \<or>
       cand_task (conns l' ! k) = Running \<and> inbox (conns l' ! k) = [] \<and>
       dispatchers l' (conn_id (conns l' ! k)) = Some k)"
    if "\<nexists>l''. task_step from_json l' l''" and k: "k < length (conns l')" for k
    using no_step_quiet [OF that] queued_iff [OF inv k] by (auto simp: quiet_def inbox_closed_def)
  with work_task_steps [OF assms(2)] show ?thesis by auto
qed

theorem listener_tasks_terminate_witness:
  "(task_step (\<lambda>_. None) ^^ 1) demo_offered demo_queued \<and> 1 \<le> work demo_offered \<and>
   (\<nexists>l. task_step (\<lambda>_. None) demo_queued l) \<and> 0 \<in> set (accepted demo_queued @ incoming demo_queued)"
proof -
  have "(task_step (\<lambda>_. None) ^^ 1) demo_offered demo_queued" using demo_queued_step by (simp add: relcompp_apply)
  from listener_tasks_terminate [OF demo_offered_reachable this] demo_queued_quiet this
  show ?thesis by (simp add: demo_queued_def queue_session_def demo_simps)
qed

text \<open>C18: The result of \<open>accept\<close> in every reachable state: a session is the oldest one that was
  queued, its offer was answered, and it was never accepted before; \<open>ConnectionClosed\<close> is returned
  exactly when the signal handler has stopped and the session of every answered offer has been
  accepted, so that no session is lost; otherwise the call waits.\<close>

theorem accept_exact:
  assumes "(listener_step from_json)\<^sup>*\<^sup>* bind_listener l"
  shows "(case fst (accept l) of
      Ready (Inr k) \<Rightarrow> incoming l = k # incoming (snd (accept l)) \<and> k < length (conns l) \<and>
        handlers_set (conns l ! k) \<and> k \<notin> set (accepted l)
    | Ready (Inl e) \<Rightarrow> e = ConnectionClosed \<and> \<not> listening l \<and>
        (\<forall>k < length (conns l). handlers_set (conns l ! k) \<longrightarrow> k \<in> set (accepted l))
    | Pending \<Rightarrow> incoming l = [] \<and> (listening l \<or>
        (\<exists>k < length (conns l). handlers_set (conns l ! k) \<and> k \<notin> set (accepted l))))"
proof -
  have inv: "listener_inv l" using assms by (rule listener_reach_inv)
  show ?thesis
  proof (cases "incoming l")
    case (Cons k ks)
    with inv have "k < length (conns l)" "waiter (conns l ! k) = Queued" "k \<notin> set (accepted l)"
      by (auto simp: listener_inv_def queue_ok_def)
    with conn_ok_nth [OF inv, of k] Cons show ?thesis by (simp add: accept_def conn_ok_def)
  next
    case Nil
    with senders_alive_iff [OF inv] queued_iff [OF inv] show ?thesis by (auto simp: accept_def senders_alive_def)
  qed
qed

theorem accept_exact_witness:
  "(listener_step (\<lambda>_. None))\<^sup>*\<^sup>* bind_listener demo_queued \<and>
   fst (accept demo_queued) = Ready (Inr 0) \<and> handlers_set (conns demo_queued ! 0)"
proof -
  have reach: "(listener_step (\<lambda>_. None))\<^sup>*\<^sup>* bind_listener demo_queued"
    by (rule rtranclp.rtrancl_into_rtrancl [OF demo_offered_reachable listener_step.Task [OF demo_queued_step]])
  have "fst (accept demo_queued) = Ready (Inr 0)"
    by (simp add: demo_queued_def queue_session_def demo_simps accept_def)
  with accept_exact [OF reach] reach show ?thesis by simp
qed

text \<open>C37: A second offer with the id of a connection that is registered and idle takes over both map
  entries; two steps of the first connection's task, whose receiver was closed by that, then remove
  them. The second connection is left without candidates: every further signal with the id is
  dropped.\<close>

theorem duplicate_offer_loses_connection:
  assumes "dispatchers l (connection_id sig) = Some k" and "k < length (conns l)"
    and "conn_id (conns l ! k) = connection_id sig"
    and "cand_task (conns l ! k) = Running" and "inbox (conns l ! k) = []"
    and "signal_type sig = Offer" and "offer_peer_connection E = Inr ()"
  shows "\<exists>l'. (task_step from_json ^^ 2) (on_signal E sig l) l' \<and>
    dispatchers l' (connection_id sig) = None \<and> notifiers l' (connection_id sig) = None \<and>
    conns l' ! length (conns l) = conns (on_signal E sig l) ! length (conns l) \<and>
    inbox (conns l' ! length (conns l)) = [] \<and>
    (\<forall>s F. connection_id s = connection_id sig \<and> signal_type s \<noteq> Offer \<longrightarrow> on_signal F s l' = l')"
proof -
  let ?cid = "connection_id sig" and ?n = "length (conns l)" and ?l1 = "on_signal E sig l"
  from offer_registered [OF assms(6,7)] assms(2)
  have l1: "dispatchers ?l1 ?cid = Some ?n" "conns ?l1 ! k = conns l ! k"
    "inbox (conns ?l1 ! ?n) = []" "k < length (conns ?l1)" by simp_all
  let ?l2 = "upd_conn k (\<lambda>c. c\<lparr>cand_task := Cleaning\<rparr>) (remove_dispatcher ?cid ?l1)"
  let ?l3 = "upd_conn k (\<lambda>c. c\<lparr>cand_task := Ended\<rparr>) (remove_notifier ?cid ?l2)"
  have "task_step from_json ?l1 ?l2"
    using task_step.Task_Closed [of k ?l1 from_json] l1 assms(2-5) by (simp add: inbox_closed_def)
  moreover have "task_step from_json ?l2 ?l3"
    using task_step.Task_Cleaned [of k ?l2 from_json] l1 assms(3) by simp
  ultimately have "(task_step from_json ^^ 2) ?l1 ?l3" by (auto simp: numeral_2_eq_2)
  moreover have "dispatchers ?l3 ?cid = None" "notifiers ?l3 ?cid = None"
    by (simp_all add: remove_dispatcher_def remove_notifier_def)
  moreover from this have "on_signal F s ?l3 = ?l3"
    if "connection_id s = ?cid" "signal_type s \<noteq> Offer" for s F
    using that by (simp add: on_signal_def dispatch_def)
  moreover have "conns ?l3 ! ?n = conns ?l1 ! ?n" "inbox (conns ?l3 ! ?n) = []"
    using l1 assms(2) by (simp_all add: nth_update)
  ultimately show ?thesis by blast
qed

theorem duplicate_offer_loses_connection_witness:
  "\<exists>l'. (task_step (\<lambda>_. None) ^^ 2) (on_signal demo_offer_env demo_sig demo_offered) l' \<and>
    dispatchers l' 5 = None \<and> on_signal demo_offer_env (signal_candidate 5 ''c'' ''2'') l' = l'"
proof -
  have "dispatchers demo_offered (connection_id demo_sig) = Some 0" "0 < length (conns demo_offered)"
    "conn_id (conns demo_offered ! 0) = connection_id demo_sig"
    "cand_task (conns demo_offered ! 0) = Running" "inbox (conns demo_offered ! 0) = []"
    "signal_type demo_sig = Offer" "offer_peer_connection demo_offer_env = Inr ()"
    by (simp_all add: demo_simps demo_offer_env_def)
  from duplicate_offer_loses_connection [OF this, of "\<lambda>_. None"] show ?thesis
    by (auto simp: demo_sig_def signal_constructors)
qed

text \<open>C38: An offer whose handling fails after the registration (a description that is refused, an
  answer that cannot be sent) is never cleaned up: in every later state, unless another connection
  with the same id appears, the failed connection is still registered, its candidate task still
  runs, and no handler is set that could remove it.\<close>

theorem failed_offer_leaks:
  assumes "signal_type sig = Offer" and "offer_peer_connection E = Inr ()"
    and "answer_offer E sig = Inl e" and "(listener_step from_json)\<^sup>*\<^sup>* (on_signal E sig l) l'"
    and "\<forall>j < length (conns l'). j \<noteq> length (conns l) \<longrightarrow> conn_id (conns l' ! j) \<noteq> connection_id sig"
  shows "dispatchers l' (connection_id sig) = Some (length (conns l)) \<and>
    length (conns l) < length (conns l') \<and>
    cand_task (conns l' ! length (conns l)) = Running \<and> \<not> handlers_set (conns l' ! length (conns l))"
  using stuck_steps [OF assms(4) failed_offer_stuck [OF assms(1-3)]] assms(5)
  by (auto simp: stuck_def shared_id_def)


theorem failed_offer_leaks_witness:
  "\<exists>l'. (listener_step (\<lambda>_. None))\<^sup>*\<^sup>*
      (on_signal (demo_offer_env\<lparr>offer_create_answer := Inl ''refused''\<rparr>) demo_sig bind_listener) l' \<and>
    \<not> listening l' \<and> dispatchers l' 5 = Some 0 \<and> cand_task (conns l' ! 0) = Running"
proof -
  let ?E = "demo_offer_env\<lparr>offer_create_answer := Inl ''refused''\<rparr>"
  let ?l = "(on_signal ?E demo_sig bind_listener)\<lparr>listening := False\<rparr>"
  have failed: "signal_type demo_sig = Offer" "offer_peer_connection ?E = Inr ()"
    "answer_offer ?E demo_sig = Inl (WebRtc ''refused'')"
    by (simp_all add: demo_sig_def demo_offer_env_def answer_offer_def signal_constructors)
  have run: "(listener_step (\<lambda>_. None))\<^sup>*\<^sup>* (on_signal ?E demo_sig bind_listener) ?l"
    using failed
    by (intro r_into_rtranclp listener_step.Stop) (simp add: on_signal_def handle_offer_eq bind_listener_def)
  have "length (conns ?l) = 1"
    using offer_registered [OF failed(1,2), of bind_listener] by (simp add: bind_listener_def)
  with failed_offer_leaks [OF failed run] have "dispatchers ?l 5 = Some 0 \<and> cand_task (conns ?l ! 0) = Running"
    by (simp add: bind_listener_def demo_sig_def signal_constructors)
  with run show ?thesis by (intro exI [of _ ?l]) simp
qed

end
