(* ===== verification/Handshake.thy ===== *)
theory Handshake
  imports Lan Listener_Laws
begin

text \<open>
  The components together: a client that connects and a listener, on two nodes with LAN signaling.
  The client's offer travels to the listener, its answer travels back, the connection is
  established on the client's side and accepted on the other.
\<close>

section \<open>The two sides\<close>

text \<open>The local steps of the client succeed, and of the listener, with their descriptions.\<close>

definition client_ready ::
    "('ch, 'pc) connect_env \<Rightarrow> 'pc \<Rightarrow> 'ch \<Rightarrow> 'ch \<Rightarrow> string \<Rightarrow> string \<Rightarrow> bool" where
  "client_ready E pc reliable unreliable sdp remote \<longleftrightarrow>
     new_peer_connection E = Inr pc \<and> create_data_channel E RELIABLE_CHANNEL = Inr reliable \<and>
     create_data_channel E UNRELIABLE_CHANNEL = Inr unreliable \<and> create_offer E = Inr sdp \<and>
     set_local_description E sdp = Inr () \<and>
     post_signal E (signal_offer (random_id E) sdp remote) = Inr ()"

definition listener_ready :: "offer_env \<Rightarrow> string \<Rightarrow> bool" where
  "listener_ready F sdp \<longleftrightarrow>
     offer_peer_connection F = Inr () \<and> offer_parse F = Inr () \<and> offer_set_remote F = Inr () \<and>
     offer_create_answer F = Inr sdp \<and> offer_set_local F = Inr () \<and> offer_post F = Inr ()"

lemma listener_answers:
  assumes "listener_ready F sdp" and "signal_type offer = Offer"
  shows "posted (on_signal F offer l) =
      posted l @ [signal_answer (connection_id offer) sdp (network_id offer)]"
    and "length (conns (on_signal F offer l)) = Suc (length (conns l))"
    and "conn_id (conns (on_signal F offer l) ! length (conns l)) = connection_id offer"
    and "conn_network_id (conns (on_signal F offer l) ! length (conns l)) = network_id offer"
    and "waiter (conns (on_signal F offer l) ! length (conns l)) = Wait_Candidate"
    and "\<not> candidate_sent (conns (on_signal F offer l) ! length (conns l))"
    and "notifiers (on_signal F offer l) (connection_id offer) = Some (length (conns l))"
    and "incoming (on_signal F offer l) = incoming l"
  using assms
  by (simp_all add: listener_ready_def on_signal_def handle_offer_eq answer_offer_def
      register_conn_def conn_new_def Let_def)

text \<open>A connection that waits for its first candidate gets into the queue by itself.\<close>

lemma waiter_queues:
  assumes "k < length (conns l)" and "waiter (conns l ! k) = Wait_Candidate"
    and "\<not> candidate_sent (conns l ! k)" and "notifiers l (conn_id (conns l ! k)) = Some k"
  shows "task_step from_json l (queue_session k l)"
  using task_step.Candidate_Wait [OF assms(1,2), of Timed_Out from_json] assms(3,4)
  by (simp add: candidate_event_def wait_candidate_def)

lemma client_answered:
  assumes "client_ready E pc reliable unreliable sdp remote"
    and "connection_id ans = random_id E" and "signal_type ans = Answer"
    and "parse_answer E (signal_data ans) = Inr ()" and "set_remote_description E (signal_data ans) = Inr ()"
    and "opened_in_time E" and "wait_ice (ice_states E) = Inr ()"
  shows "connect M (E\<lparr>arriving := [ans]\<rparr>) remote =
    (Ready (Inr (connect_session M pc reliable unreliable)),
     [Create_Channel ''ReliableDataChannel'' True None,
      Create_Channel ''UnreliableDataChannel'' False (Some 0),
      Set_Local sdp, Subscribe, Post (signal_offer (random_id E) sdp remote), Set_Remote (signal_data ans),
      Start_Candidates, Cancel_Candidates])"
proof -
  let ?E = "E\<lparr>arriving := [ans]\<rparr>"
  from assms(1) have E: "create_offer ?E = Inr sdp" "set_local_description ?E sdp = Inr ()"
    "post_signal ?E (signal_offer (random_id ?E) sdp remote) = Inr ()" by (simp_all add: client_ready_def)
  have "connect_answered ?E (signal_data ans) [] =
      (Ready (Inr ()), [Set_Remote (signal_data ans), Start_Candidates, Cancel_Candidates])"
    using connect_answered_ok [of ?E "signal_data ans" "[]"] assms(4-7) by simp
  then have "connect_negotiate ?E remote = (Ready (Inr ()),
      [Set_Local sdp, Subscribe, Post (signal_offer (random_id E) sdp remote), Set_Remote (signal_data ans),
       Start_Candidates, Cancel_Candidates])"
    using connect_negotiate_ok [OF E] assms(2,3) by simp
  from connect_ok [OF _ _ _ this, of pc reliable unreliable M] assms(1) show ?thesis
    by (simp add: client_ready_def)
qed

text \<open>Over any signaling that delivers.\<close>

context signaling
begin

lemma handshake:
  assumes "reachable a b"
    and "client_ready E pc reliable unreliable sdp (own_id b)" and "listener_ready F sdp'"
    and "fits (signal_offer (random_id E) sdp (own_id b))"
    and "fits (signal_answer (random_id E) sdp' (own_id a))"
    and "parse_answer E sdp' = Inr ()" and "set_remote_description E sdp' = Inr ()"
    and "opened_in_time E" and "wait_ice (ice_states E) = Inr ()"
    and "listening l" and "handling l = None" and "incoming l = []"
  shows "\<exists>d b' offer d' a' ans.
    post a (signal_offer (random_id E) sdp (own_id b)) = Some d \<and>
    take_in b d = (b', [offer]) \<and> network_id offer = own_id a \<and>
    (listener_step from_json)\<^sup>*\<^sup>* l (on_signal F offer l) \<and>
    posted (on_signal F offer l) =
      posted l @ [signal_answer (random_id E) sdp' (own_id a)] \<and>
    post b' (signal_answer (random_id E) sdp' (own_id a)) = Some d' \<and>
    take_in a d' = (a', [ans]) \<and> network_id ans = own_id b \<and>
    fst (connect M (E\<lparr>arriving := [ans]\<rparr>) (own_id b)) =
      Ready (Inr (connect_session M pc reliable unreliable)) \<and>
    Set_Remote sdp' \<in> set (snd (connect M (E\<lparr>arriving := [ans]\<rparr>) (own_id b))) \<and>
    (\<exists>l'. task_step from_json (on_signal F offer l) l' \<and>
      fst (accept l') = Ready (Inr (length (conns l))) \<and>
      conn_id (conns l' ! length (conns l)) = random_id E \<and>
      conn_network_id (conns l' ! length (conns l)) = own_id a)"
proof -
  let ?offer = "signal_offer (random_id E) sdp (own_id b)"
  let ?ans = "signal_answer (random_id E) sdp' (own_id a)"
  let ?o = "?offer\<lparr>network_id := own_id a\<rparr>" and ?a = "?ans\<lparr>network_id := own_id b\<rparr>"
  from delivered [OF assms(1,4)] obtain d b' where d: "post a ?offer = Some d"
    "take_in b d = (b', [?o])" "own_id b' = own_id b" "reachable b' a"
    by (auto simp: signal_constructors)
  from delivered [OF d(4) assms(5)] d(3) obtain d' a' where d': "post b' ?ans = Some d'"
    "take_in a d' = (a', [?a])"
    by (auto simp: signal_constructors)
  have o: "signal_type ?o = Offer" "connection_id ?o = random_id E" "network_id ?o = own_id a"
    by (simp_all add: signal_constructors)
  note L = listener_answers [OF assms(3) o(1), of l, unfolded o(2,3)]
  have a: "connection_id ?a = random_id E" "signal_type ?a = Answer" "signal_data ?a = sdp'"
    by (simp_all add: signal_constructors)
  note C = client_answered [OF assms(2) a(1,2), unfolded a(3), OF assms(6-9), of M]
  let ?l = "queue_session (length (conns l)) (on_signal F ?o l)"
  have "task_step from_json (on_signal F ?o l) ?l" using L by (intro waiter_queues) simp_all
  moreover have "fst (accept ?l) = Ready (Inr (length (conns l)))"
    "conn_id (conns ?l ! length (conns l)) = random_id E"
    "conn_network_id (conns ?l ! length (conns l)) = own_id a"
    using L assms(12) by (simp_all add: queue_session_def accept_def)
  moreover have "(listener_step from_json)\<^sup>*\<^sup>* l (on_signal F ?o l)" using assms(10,11) by (rule on_signal_steps)
  ultimately show ?thesis
    using d d' o(3) L(1) C
    by (intro exI [of _ d] exI [of _ b'] exI [of _ ?o] exI [of _ d'] exI [of _ a'] exI [of _ ?a] conjI)
      (simp_all add: signal_constructors, blast)
qed

end

section \<open>Properties\<close>

text \<open>C3: A connection is established end to end: over LAN signaling, the client's offer reaches the
  listener as an offer from the client's node; the listener's one answer to it goes to that node
  and reaches the client, named after the listener's node; with it the client's \<open>connect\<close> returns
  its session once the channels open and ICE connects; and the listener's own task queues the
  session of this offer, which \<open>accept\<close> then returns.\<close>

theorem handshake_end_to_end:
  assumes "endpoint_reachable a b"
    and "client_ready E pc reliable unreliable sdp (endpoint_id b)" and "listener_ready F sdp'"
    and "signal_fits (signal_offer (random_id E) sdp (endpoint_id b))"
    and "signal_fits (signal_answer (random_id E) sdp' (endpoint_id a))"
    and "parse_answer E sdp' = Inr ()" and "set_remote_description E sdp' = Inr ()"
    and "opened_in_time E" and "wait_ice (ice_states E) = Inr ()"
    and "listening l" and "handling l = None" and "incoming l = []"
  shows "\<exists>d b' offer d' a' ans.
    endpoint_post a (signal_offer (random_id E) sdp (endpoint_id b)) = Some d \<and>
    endpoint_take_in b d = (b', [offer]) \<and> network_id offer = endpoint_id a \<and>
    (listener_step from_json)\<^sup>*\<^sup>* l (on_signal F offer l) \<and>
    posted (on_signal F offer l) =
      posted l @ [signal_answer (random_id E) sdp' (endpoint_id a)] \<and>
    endpoint_post b' (signal_answer (random_id E) sdp' (endpoint_id a)) = Some d' \<and>
    endpoint_take_in a d' = (a', [ans]) \<and> network_id ans = endpoint_id b \<and>
    fst (connect M (E\<lparr>arriving := [ans]\<rparr>) (endpoint_id b)) =
      Ready (Inr (connect_session M pc reliable unreliable)) \<and>
    Set_Remote sdp' \<in> set (snd (connect M (E\<lparr>arriving := [ans]\<rparr>) (endpoint_id b))) \<and>
    (\<exists>l'. task_step from_json (on_signal F offer l) l' \<and>
      fst (accept l') = Ready (Inr (length (conns l))) \<and>
      conn_id (conns l' ! length (conns l)) = random_id E \<and>
      conn_network_id (conns l' ! length (conns l)) = endpoint_id a)"
  using assms by (rule lan.handshake)

theorem handshake_end_to_end_witness:
  "\<exists>d b' offer d' a' ans.
    endpoint_post (demo_crates, demo_addr 9, demo_knows 1 2 (demo_addr 7)) (signal_offer 5 ''v=0'' ''2'') = Some d \<and>
    endpoint_take_in (demo_crates, demo_addr 7, demo_task 2) d = (b', [offer]) \<and>
    posted (on_signal demo_offer_env offer bind_listener) = [signal_answer 5 ''v=1'' ''1''] \<and>
    endpoint_post b' (signal_answer 5 ''v=1'' ''1'') = Some d' \<and>
    endpoint_take_in (demo_crates, demo_addr 9, demo_knows 1 2 (demo_addr 7)) d' = (a', [ans]) \<and>
    fst (connect list_mpsc (demo_env\<lparr>arriving := [ans]\<rparr>) ''2'') =
      Ready (Inr (connect_session list_mpsc () True False)) \<and>
    (\<exists>l'. task_step (\<lambda>_. None) (on_signal demo_offer_env offer bind_listener) l' \<and>
      fst (accept l') = Ready (Inr 0))"
proof -
  let ?a = "(demo_crates, demo_addr 9, demo_knows 1 2 (demo_addr 7))"
  let ?b = "(demo_crates, demo_addr 7, demo_task 2)"
  have ids: "endpoint_id ?a = ''1''" "endpoint_id ?b = ''2''" "random_id demo_env = 5"
    "posted bind_listener = []" "length (conns bind_listener) = 0"
    by (simp_all add: lan_network_id_def demo_knows_def demo_lan_def demo_task_def demo_ids
        demo_env_def bind_listener_def)
  have reach: "endpoint_reachable ?a ?b"
    by (simp add: demo_crates_ok demo_knows_def demo_task_def demo_lan_def get_address_def)
  have ready: "client_ready demo_env () True False ''v=0'' (endpoint_id ?b)" "listener_ready demo_offer_env ''v=1''"
    by (simp_all add: client_ready_def listener_ready_def demo_env_def demo_offer_env_def
        RELIABLE_CHANNEL_def UNRELIABLE_CHANNEL_def)
  have "valid_signal (signal_answer 5 ''v=1'' ''1'')" by code_simp
  then have fits: "signal_fits (signal_offer (random_id demo_env) ''v=0'' (endpoint_id ?b))"
    "signal_fits (signal_answer (random_id demo_env) ''v=1'' (endpoint_id ?a))"
    unfolding ids using demo_offer_valid
    by (simp_all add: signal_fits_def MAX_SIGNAL_TEXT_def signal_fmt_def signal_offer_def
        signal_answer_def signal_new_def demo_ids)
  have ok: "parse_answer demo_env ''v=1'' = Inr ()" "set_remote_description demo_env ''v=1'' = Inr ()"
    "opened_in_time demo_env" "wait_ice (ice_states demo_env) = Inr ()"
    "listening bind_listener" "handling bind_listener = None" "incoming bind_listener = []"
    by (simp_all add: demo_env_def bind_listener_def)
  from handshake_end_to_end [OF reach ready fits ok, of "\<lambda>_. None" list_mpsc, unfolded ids]
  show ?thesis by (simp only: append_Nil) blast
qed

text \<open>C19: \<open>connect\<close> sets the local description, which starts the gathering of candidates, before it posts
  the offer, and the handler of local candidates signals each at once. Candidates that reach the
  listener before the offer are lost: it knows no such id and drops them, and
  after the offer the connection is the same as if they had never been sent.
  A candidate that arrives after the offer is kept for the connection.\<close>

theorem early_candidates_lost:
  assumes "create_offer E = Inr sdp" and "set_local_description E sdp = Inr ()"
    and "dispatchers l (random_id E) = None" and "connection_id offer = random_id E"
    and "signal_type offer = Offer" and "offer_peer_connection F = Inr ()"
    and "early = concat (map (\<lambda>json. case on_ice_candidate (random_id E) n json of None \<Rightarrow> [] | Some c \<Rightarrow> [c]) jsons)"
    and "on_ice_candidate (random_id E) n late_json = Some late"
  shows "(\<exists>after. snd (connect_negotiate E remote) =
      Set_Local sdp # Subscribe # Post (signal_offer (random_id E) sdp remote) # after) \<and>
    fold (on_signal F) (early @ [offer]) l = on_signal F offer l \<and>
    inbox (conns (on_signal F offer l) ! length (conns l)) = [] \<and>
    inbox (conns (on_signal F late (on_signal F offer l)) ! length (conns l)) = [late]"
proof -
  have "\<exists>after. snd (connect_negotiate E remote) =
      Set_Local sdp # Subscribe # Post (signal_offer (random_id E) sdp remote) # after"
    using assms(1,2) by (simp add: connect_negotiate_def stage_def act_def Let_def)
  moreover have "fold (on_signal F) early l = l"
    unfolding assms(7)
    by (induction jsons)
      (simp_all add: on_ice_candidate_def on_signal_def dispatch_def signal_constructors assms(3)
        split: option.split)
  moreover have late: "signal_type late \<noteq> Offer" "connection_id late = random_id E"
    using assms(8) by (auto simp: on_ice_candidate_def signal_constructors)
  from offer_registered [OF assms(5,6), of l] assms(4)
  have reg: "dispatchers (on_signal F offer l) (random_id E) = Some (length (conns l))"
    "inbox (conns (on_signal F offer l) ! length (conns l)) = []"
    "length (conns l) < length (conns (on_signal F offer l))" by simp_all
  have "cand_task (conns (on_signal F offer l) ! length (conns l)) = Running"
    using assms(5,6) by (simp add: on_signal_def handle_offer_eq Let_def register_conn_def conn_new_def split: sum.split)
  with late reg have "inbox (conns (on_signal F late (on_signal F offer l)) ! length (conns l)) = [late]"
    by (simp add: on_signal_def [of F late] dispatch_def nth_update)
  ultimately show ?thesis using reg(2) by simp
qed

theorem early_candidates_lost_witness:
  "fold (on_signal demo_offer_env) [signal_candidate 5 ''c'' ''2'', demo_sig] bind_listener = demo_offered \<and>
   inbox (conns (on_signal demo_offer_env (signal_candidate 5 ''d'' ''2'') demo_offered) ! 0) =
     [signal_candidate 5 ''d'' ''2'']"
proof -
  have "create_offer demo_env = Inr ''v=0''" "set_local_description demo_env ''v=0'' = Inr ()"
    "random_id demo_env = 5" by (simp_all add: demo_env_def)
  with early_candidates_lost [of demo_env "''v=0''" bind_listener demo_sig demo_offer_env
      "[signal_candidate 5 ''c'' ''2'']" "''2''" "[Some ''c'', None]" "Some ''d''" "signal_candidate 5 ''d'' ''2''" "''2''"]
  show ?thesis
    by (simp add: demo_offered_def on_ice_candidate_def bind_listener_def demo_sig_def signal_constructors
        demo_offer_env_def)
qed

end
