(* ===== verification/Lan_Network.thy ===== *)
theory Lan_Network
  imports Lan
begin

text \<open>
  Any number of nodes with LAN signaling (src/src/signaling/lan.rs) on one network. The network
  holds every datagram a node ever sent and may deliver any of them to any node, from any address
  and any number of times, or never: datagrams are lost, doubled, reordered and seen by others, but
  not made up. Posted signals fit into a datagram that the receivers read whole. Shown is where
  everything comes from that a node publishes or lists.
\<close>

section \<open>The network\<close>

text \<open>The last two fields are history: who posted which signal, and who offered which server data.\<close>

record lan_net =
  net_node :: "nat \<Rightarrow> lan_task"
  flying :: "bytes list"
  posted_by :: "(u64 \<times> signal) list"
  offered_by :: "(u64 \<times> server_data) list"

definition net_id :: "lan_net \<Rightarrow> nat \<Rightarrow> u64" where
  "net_id N n = own_network_id (lan (net_node N n))"

fun datagrams_of :: "lan_action list \<Rightarrow> bytes list" where
  "datagrams_of [] = []"
| "datagrams_of (Send_To data addr # acts) = data # datagrams_of acts"
| "datagrams_of (Publish sig # acts) = datagrams_of acts"

text \<open>A node goes on to a state of its task; what it sent meanwhile is on the network.\<close>

definition run_node :: "nat \<Rightarrow> lan_task \<Rightarrow> lan_net \<Rightarrow> lan_net" where
  "run_node n t N =
     N\<lparr>net_node := (net_node N)(n := t),
       flying := flying N @ datagrams_of (drop (length (actions (net_node N n))) (actions t))\<rparr>"

definition post_on_net :: "crates \<Rightarrow> nat \<Rightarrow> signal \<Rightarrow> lan_net \<Rightarrow> lan_net" where
  "post_on_net D n sig N =
     (case lan_signal_datagram D (lan (net_node N n)) sig of
        Inl e \<Rightarrow> N
      | Inr (data, addr) \<Rightarrow>
          N\<lparr>flying := flying N @ [data], posted_by := posted_by N @ [(net_id N n, sig)]\<rparr>)"

definition offer_on_net :: "nat \<Rightarrow> bytes \<Rightarrow> lan_net \<Rightarrow> lan_net" where
  "offer_on_net n data N =
     (let t = net_node N n in
      N\<lparr>net_node := (net_node N)(n := t\<lparr>lan := set_pong_data (lan t) data\<rparr>),
        offered_by := offered_by N @
          (case server_data_unmarshal data of Inr sd \<Rightarrow> [(net_id N n, sd)] | Inl e \<Rightarrow> [])\<rparr>)"

inductive net_step :: "crates \<Rightarrow> lan_net \<Rightarrow> lan_net \<Rightarrow> bool" for D where
  Deliver: "data \<in> set (flying N) \<Longrightarrow> \<not> stopped (net_node N n) \<Longrightarrow>
    net_step D N (run_node n (lan_receive D data from_addr (net_node N n)) N)"
| Node_Tick: "\<not> stopped (net_node N n) \<Longrightarrow> net_step D N (run_node n (lan_tick D (net_node N n)) N)"
| Node_Post: "signal_fits sig \<Longrightarrow> net_step D N (post_on_net D n sig N)"
| Node_Offer: "net_step D N (offer_on_net n data N)"
| Node_Cancel: "net_step D N (run_node n ((net_node N n)\<lparr>cancelled := True\<rparr>) N)"
| Node_Stop: "cancelled (net_node N n) \<Longrightarrow>
    net_step D N (run_node n ((net_node N n)\<lparr>stopped := True\<rparr>) N)"
| Node_Time: "clock (net_node N n) \<le> now \<Longrightarrow>
    net_step D N (run_node n ((net_node N n)\<lparr>clock := now\<rparr>) N)"

text \<open>All nodes have just been created, each with its id and address.\<close>

definition net_start :: "(nat \<Rightarrow> u64) \<Rightarrow> lan_net \<Rightarrow> bool" where
  "net_start ids N \<longleftrightarrow>
     (\<forall>n. \<exists>addr now. lan_new (Inr ()) (Inr ()) (ids n) addr now = Inr (net_node N n)) \<and>
     flying N = [] \<and> posted_by N = [] \<and> offered_by N = []"

section \<open>Where datagrams come from\<close>

definition explained :: "lan_net \<Rightarrow> packet \<Rightarrow> u64 \<Rightarrow> bool" where
  "explained N p sid \<longleftrightarrow>
     (case p of
        RequestPacket \<Rightarrow> True
      | ResponsePacket app \<Rightarrow>
          (\<exists>sd. (sid, sd) \<in> set (offered_by N) \<and> good_server_data sd \<and> server_data_marshal sd = Inr app)
      | MessagePacket rid text \<Rightarrow>
          (\<exists>sig. (sid, sig) \<in> set (posted_by N) \<and> parse_u64 (network_id sig) = Inr rid \<and> text = signal_fmt sig))"

definition honest :: "crates \<Rightarrow> lan_net \<Rightarrow> bytes \<Rightarrow> bool" where
  "honest D N data \<longleftrightarrow> length data \<le> RECV_BUFFER \<and>
     (\<exists>p sid. discovery_unmarshal D data = Inr (p, sid) \<and> explained N p sid)"

text \<open>Why a signal may be published by the node with an id.\<close>

definition published_for :: "lan_net \<Rightarrow> u64 \<Rightarrow> signal \<Rightarrow> bool" where
  "published_for N own s \<longleftrightarrow>
     (\<exists>sid sig. (sid, sig) \<in> set (posted_by N) \<and> sid \<noteq> own \<and>
        parse_u64 (network_id sig) = Inr own \<and> s = sig\<lparr>network_id := u64_to_string sid\<rparr>)"

definition node_inv :: "lan_net \<Rightarrow> lan_task \<Rightarrow> bool" where
  "node_inv N t \<longleftrightarrow> lan_inv t \<and>
     (\<forall>sd. pong_data (lan t) = Some sd \<longrightarrow> (own_network_id (lan t), sd) \<in> set (offered_by N)) \<and>
     (\<forall>k sd. discovered_servers (lan t) k = Some sd \<longrightarrow> (k, sd) \<in> set (offered_by N)) \<and>
     (\<forall>s. Publish s \<in> set (actions t) \<longrightarrow> published_for N (own_network_id (lan t)) s)"

definition net_inv :: "crates \<Rightarrow> lan_net \<Rightarrow> bool" where
  "net_inv D N \<longleftrightarrow> (\<forall>data \<in> set (flying N). honest D N data) \<and> (\<forall>n. node_inv N (net_node N n))"

text \<open>Histories only grow.\<close>

definition later :: "lan_net \<Rightarrow> lan_net \<Rightarrow> bool" where
  "later N N' \<longleftrightarrow> set (posted_by N) \<subseteq> set (posted_by N') \<and> set (offered_by N) \<subseteq> set (offered_by N')"

lemma explained_later: "later N N' \<Longrightarrow> explained N p sid \<Longrightarrow> explained N' p sid"
  unfolding later_def explained_def by (cases p) auto

lemma later_mono:
  assumes "later N N'"
  shows "honest D N data \<Longrightarrow> honest D N' data"
    and "published_for N own s \<Longrightarrow> published_for N' own s"
    and "node_inv N t \<Longrightarrow> node_inv N' t"
proof -
  show "honest D N data \<Longrightarrow> honest D N' data"
    unfolding honest_def using explained_later [OF assms] by blast
  show pub: "published_for N own s \<Longrightarrow> published_for N' own s" for own s
    using assms unfolding later_def published_for_def by blast
  show "node_inv N t \<Longrightarrow> node_inv N' t"
    using assms pub unfolding node_inv_def later_def by blast
qed

section \<open>One node\<close>

text \<open>What handling an honest datagram adds to a node.\<close>

definition adds_only :: "crates \<Rightarrow> lan_net \<Rightarrow> lan \<Rightarrow> lan \<Rightarrow> lan_action list \<Rightarrow> bool" where
  "adds_only D N l l' acts \<longleftrightarrow>
     own_network_id l' = own_network_id l \<and> pong_data l' = pong_data l \<and>
     (\<forall>k sd. discovered_servers l' k = Some sd \<longrightarrow>
        discovered_servers l k = Some sd \<or> (k, sd) \<in> set (offered_by N)) \<and>
     (\<forall>data \<in> set (datagrams_of acts). honest D N data) \<and>
     (\<forall>s. Publish s \<in> set acts \<longrightarrow> published_for N (own_network_id l) s)"

lemma handle_request_adds:
  assumes "crates_ok D" and "\<forall>sd. pong_data l = Some sd \<longrightarrow> good_server_data sd \<and>
      (own_network_id l, sd) \<in> set (offered_by N)"
    and "handle_request D addr l = (r, l', acts)"
  shows "adds_only D N l l' acts"
proof (cases "pong_data l")
  case None
  with assms(3) show ?thesis by (simp add: handle_request_def adds_only_def)
next
  case (Some sd)
  with assms(2) have good: "good_server_data sd" "(own_network_id l, sd) \<in> set (offered_by N)" by auto
  from request_answered [OF assms(1) Some good(1), of addr] obtain app resp where
    r: "server_data_marshal sd = Inr app" "handle_request D addr l = (Inr (), l, [Send_To resp addr])"
      "discovery_unmarshal D resp = Inr (ResponsePacket app, own_network_id l)"
      "length resp \<le> RECV_BUFFER" by blast
  with good have "honest D N resp" by (auto simp: honest_def explained_def)
  with assms(3) r(2) show ?thesis by (auto simp: adds_only_def)
qed

lemma handle_response_adds:
  assumes "explained N (ResponsePacket app) sid"
    and "handle_response sid (ResponsePacket app) l = (r, l', acts)"
  shows "adds_only D N l l' acts"
proof -
  from assms(1) obtain sd where sd: "(sid, sd) \<in> set (offered_by N)" "good_server_data sd"
    "server_data_marshal sd = Inr app" by (auto simp: explained_def)
  then have "server_data_unmarshal app = Inr sd"
    by (simp add: good_server_data_def marshal_Inr_iff unmarshal_enc)
  with assms(2) sd(1) show ?thesis by (auto simp: handle_response_def adds_only_def split: if_splits)
qed

lemma handle_message_adds:
  assumes "explained N (MessagePacket rid body) sid" and "sid \<noteq> own_network_id l"
    and "handle_message sid (MessagePacket rid body) l = (r, l', acts)"
  shows "adds_only D N l l' acts"
proof -
  from assms(1) obtain sig where sig: "(sid, sig) \<in> set (posted_by N)" "parse_u64 (network_id sig) = Inr rid"
    "body = signal_fmt sig" by (auto simp: explained_def)
  then have "published_for N (own_network_id l) (sig\<lparr>network_id := u64_to_string sid\<rparr>)"
    if "rid = own_network_id l"
    using that assms(2) by (auto simp: published_for_def)
  with assms(3) sig show ?thesis
    by (auto simp: handle_message_def adds_only_def signal_fmt_not_ping signal_from_string_fmt split: if_splits)
qed

lemma receive_adds:
  assumes "crates_ok D" and honest: "honest D N data" and inv: "node_inv N t"
  shows "\<exists>acts. actions (lan_receive D data from_addr t) = actions t @ acts \<and>
    adds_only D N (lan t) (lan (lan_receive D data from_addr t)) acts"
proof -
  obtain r l acts where h: "handle_packet D data from_addr (clock t) (lan t) = (r, l, acts)" by (metis prod_cases3)
  from honest obtain p sid where p: "discovery_unmarshal D data = Inr (p, sid)" "explained N p sid"
    and short: "length data \<le> RECV_BUFFER" by (auto simp: honest_def)
  let ?l = "(lan t)\<lparr>addresses := (addresses (lan t))(sid \<mapsto> \<lparr>entry_addr = from_addr, last_seen = clock t\<rparr>)\<rparr>"
  have same: "adds_only D N (lan t) l' a" if "adds_only D N ?l l' a" for l' a
    using that by (simp add: adds_only_def)
  have "adds_only D N (lan t) l acts"
  proof (cases "sid = own_network_id (lan t)")
    case True
    with h p show ?thesis by (auto simp: handle_packet_eq adds_only_def)
  next
    case False
    then show ?thesis
    proof (cases p)
      case RequestPacket
      have "\<forall>sd. pong_data ?l = Some sd \<longrightarrow> good_server_data sd \<and> (own_network_id ?l, sd) \<in> set (offered_by N)"
        using inv by (simp add: node_inv_def lan_inv_def tables_inv_def)
      from handle_request_adds [OF assms(1) this] RequestPacket False h p show ?thesis
        by (intro same) (simp add: handle_packet_eq Let_def)
    next
      case (ResponsePacket app)
      with False h p show ?thesis
        by (intro same handle_response_adds [of N app sid]) (simp_all add: handle_packet_eq Let_def)
    next
      case (MessagePacket rid body)
      with False h p show ?thesis
        by (intro same handle_message_adds [of N rid body sid]) (simp_all add: handle_packet_eq Let_def)
    qed
  qed
  with h short show ?thesis by (simp add: lan_receive_def)
qed

lemma tick_adds:
  assumes "crates_ok D" and inv: "node_inv N t"
  shows "\<exists>acts. actions (lan_tick D t) = actions t @ acts \<and> adds_only D N (lan t) (lan (lan_tick D t)) acts"
proof -
  obtain req where "send_request_data D (own_network_id (lan t)) = Inr req"
    "discovery_unmarshal D req = Inr (RequestPacket, own_network_id (lan t))" "length req \<le> RECV_BUFFER"
    using request_datagram [OF assms(1)] by blast
  moreover from this have "honest D N req" by (auto simp: honest_def explained_def)
  ultimately show ?thesis
    by (auto simp: lan_tick_def Let_def adds_only_def cleanup_addresses_def split: option.split)
qed

lemma node_inv_adds:
  assumes "node_inv N t" and "lan_inv t'" and "actions t' = actions t @ acts"
    and "adds_only D N (lan t) (lan t') acts"
  shows "node_inv N t'"
  using assms unfolding node_inv_def adds_only_def by simp blast

section \<open>The network keeps it\<close>

lemma run_node_inv:
  assumes inv: "net_inv D N" and "lan_inv t" and acts: "actions t = actions (net_node N n) @ acts"
    and "adds_only D N (lan (net_node N n)) (lan t) acts"
  shows "net_inv D (run_node n t N)"
proof -
  let ?N = "run_node n t N"
  have "later N ?N" by (simp add: later_def run_node_def)
  note mono = later_mono [OF this]
  have "node_inv N t" using node_inv_adds [OF _ assms(2-4)] inv by (simp add: net_inv_def)
  then have "node_inv ?N (net_node ?N m)" for m
    using inv mono(3) by (simp add: net_inv_def run_node_def)
  moreover have "honest D ?N data" if "data \<in> set (flying ?N)" for data
    using that inv assms(4) acts by (intro mono(1)) (auto simp: net_inv_def run_node_def adds_only_def)
  ultimately show ?thesis by (simp add: net_inv_def)
qed

lemma quiet_inv:
  assumes "net_inv D N" and "lan_inv t" and "lan t = lan (net_node N n)" and "actions t = actions (net_node N n)"
  shows "net_inv D (run_node n t N)"
  using run_node_inv [OF assms(1,2), of n "[]"] assms(3,4) by (simp add: adds_only_def)

lemma post_inv:
  assumes ok: "crates_ok D" and inv: "net_inv D N" and fits: "signal_fits sig"
  shows "net_inv D (post_on_net D n sig N)"
proof (cases "lan_signal_datagram D (lan (net_node N n)) sig")
  case (Inl e)
  with inv show ?thesis by (simp add: post_on_net_def)
next
  case (Inr da)
  obtain data addr where da: "lan_signal_datagram D (lan (net_node N n)) sig = Inr (data, addr)"
    using Inr by (cases da) auto
  then obtain nid where nid: "parse_u64 (network_id sig) = Inr nid"
    "get_address (lan (net_node N n)) nid = Some addr"
    by (auto simp: lan_signal_datagram_def and_then_Inr_iff ok_or_def map_err_def split: sum.splits option.splits)
  from fits have valid: "valid_signal sig" and short: "length (signal_fmt sig) \<le> MAX_SIGNAL_TEXT"
    by (simp_all add: signal_fits_def)
  then have "length (signal_fmt sig) \<le> 65503" by (simp add: MAX_SIGNAL_TEXT_def)
  from signal_datagram [OF ok valid nid this] da have data:
    "length data = 32 + 16 * ((32 + length (signal_fmt sig)) div 16 + 1)"
    "discovery_unmarshal D data = Inr (MessagePacket nid (signal_fmt sig), net_id N n)"
    unfolding net_id_def by (metis Inr_inject prod.inject)+
  let ?N = "post_on_net D n sig N"
  have N: "?N = N\<lparr>flying := flying N @ [data], posted_by := posted_by N @ [(net_id N n, sig)]\<rparr>"
    using da by (simp add: post_on_net_def)
  have "later N ?N" by (auto simp: N later_def)
  note mono = later_mono [OF this]
  have "length data \<le> RECV_BUFFER" using short by (simp only: data(1) datagram_fits_iff)
  with data(2) nid(1) have "honest D ?N data" by (auto simp: N honest_def explained_def)
  with inv mono show ?thesis by (auto simp: net_inv_def N)
qed

lemma offer_inv:
  assumes inv: "net_inv D N"
  shows "net_inv D (offer_on_net n data N)"
proof -
  let ?N = "offer_on_net n data N" and ?t = "net_node N n"
  have "later N ?N" by (auto simp: offer_on_net_def later_def Let_def)
  note mono = later_mono [OF this]
  have t: "node_inv ?N ?t" using inv mono(3) by (simp add: net_inv_def)
  have "lan_inv (?t\<lparr>lan := set_pong_data (lan ?t) data\<rparr>)"
    using lan_step_inv [OF lan_step.Set_Pong] t by (simp add: node_inv_def)
  with t have "node_inv ?N (?t\<lparr>lan := set_pong_data (lan ?t) data\<rparr>)"
    by (auto simp: node_inv_def set_pong_data_def result_ok_def offer_on_net_def net_id_def Let_def split: sum.splits)
  with inv mono show ?thesis
    by (auto simp: net_inv_def offer_on_net_def Let_def)
qed

lemma net_step_inv:
  assumes ok: "crates_ok D" and "net_step D N N'" and inv: "net_inv D N"
  shows "net_inv D N'"
proof -
  have node: "node_inv N (net_node N n)" for n using inv by (simp add: net_inv_def)
  then have lan: "lan_inv (net_node N n)" for n by (simp add: node_inv_def)
  show ?thesis
    using assms(2)
  proof cases
    case (Deliver data n from_addr)
    then have "honest D N data" using inv by (simp add: net_inv_def)
    from receive_adds [OF ok this node, of from_addr n] run_node_inv [OF inv] lan_receive_inv [OF lan] Deliver
    show ?thesis by blast
  next
    case (Node_Tick n)
    with tick_adds [OF ok node, of n] run_node_inv [OF inv] lan_tick_inv [OF lan] show ?thesis by blast
  next
    case (Node_Post sig n)
    with post_inv [OF ok inv] show ?thesis by blast
  next
    case (Node_Offer n data)
    with offer_inv [OF inv] show ?thesis by blast
  next
    case (Node_Cancel n)
    with inv lan_step_inv [OF lan_step.Cancel lan] show ?thesis by (simp add: quiet_inv)
  next
    case (Node_Stop n)
    with inv lan_step_inv [OF lan_step.Stop lan] show ?thesis by (simp add: quiet_inv)
  next
    case (Node_Time n now)
    with inv lan_step_inv [OF lan_step.Time lan] show ?thesis by (simp add: quiet_inv)
  qed
qed

lemma lan_new_fields:
  assumes "lan_new (Inr ()) (Inr ()) nid addr now = Inr t"
  shows "actions t = []" "pong_data (lan t) = None" "discovered_servers (lan t) = Map.empty"
    "own_network_id (lan t) = nid"
  using assms [symmetric] by (simp_all add: lan_new_def and_then_def lift_io_def map_err_def Let_def)

lemma net_start_inv:
  assumes "net_start ids N"
  shows "net_inv D N"
proof -
  have "node_inv N (net_node N n)" for n
  proof -
    from assms obtain addr now where new: "lan_new (Inr ()) (Inr ()) (ids n) addr now = Inr (net_node N n)"
      unfolding net_start_def by blast
    show ?thesis using lan_new_inv [OF new] lan_new_fields [OF new] by (simp add: node_inv_def)
  qed
  with assms show ?thesis by (simp add: net_inv_def net_start_def)
qed

lemma net_reach_inv:
  assumes "crates_ok D" and "net_start ids N0" and "(net_step D)\<^sup>*\<^sup>* N0 N"
  shows "net_inv D N"
  using assms(3) by induction (auto intro: net_start_inv [OF assms(2)] net_step_inv [OF assms(1)])

lemma own_set_pong [simp]: "own_network_id (set_pong_data l data) = own_network_id l"
  by (simp add: set_pong_data_def)

lemma net_step_id:
  assumes "crates_ok D" and "net_step D N N'" and "net_inv D N"
  shows "net_id N' m = net_id N m"
proof -
  have node: "node_inv N (net_node N n)" for n using assms(3) by (simp add: net_inv_def)
  show ?thesis
    using assms(2)
  proof cases
    case (Deliver data n from_addr)
    then have "honest D N data" using assms(3) by (simp add: net_inv_def)
    from receive_adds [OF assms(1) this node, of from_addr n] Deliver show ?thesis
      by (auto simp: net_id_def run_node_def adds_only_def)
  next
    case (Node_Tick n)
    with tick_adds [OF assms(1) node, of n] show ?thesis
      by (auto simp: net_id_def run_node_def adds_only_def)
  qed (auto simp: net_id_def run_node_def post_on_net_def offer_on_net_def Let_def split: sum.split)
qed

lemma net_reach_id:
  assumes "crates_ok D" and "net_start ids N0" and "(net_step D)\<^sup>*\<^sup>* N0 N"
  shows "net_id N n = ids n"
  using assms(3)
proof (induction rule: rtranclp_induct)
  case base
  from assms(2) obtain addr now where "lan_new (Inr ()) (Inr ()) (ids n) addr now = Inr (net_node N0 n)"
    unfolding net_start_def by blast
  then show ?case by (simp add: net_id_def lan_new_fields)
next
  case (step y z)
  with net_step_id [OF assms(1) step(2) net_reach_inv [OF assms(1,2) step(1)]] show ?case by simp
qed

section \<open>Properties\<close>

text \<open>C7: Nothing on the network comes from nowhere: whatever datagrams are lost, doubled, reordered or
  delivered to the wrong node, a signal that a node publishes was posted before by the node whose id
  it carries, another one than the publisher, was addressed to the publisher, and is unchanged but
  for that id; and server data that a node lists under an id was offered by the node with this id.\<close>

theorem network_integrity:
  assumes "crates_ok D" and "net_start ids N0" and "(net_step D)\<^sup>*\<^sup>* N0 N"
  shows "(\<forall>n s. Publish s \<in> set (actions (net_node N n)) \<longrightarrow>
      (\<exists>sid sig. (sid, sig) \<in> set (posted_by N) \<and> sid \<noteq> ids n \<and>
         parse_u64 (network_id sig) = Inr (ids n) \<and> s = sig\<lparr>network_id := u64_to_string sid\<rparr>)) \<and>
    (\<forall>n k sd. discovered_servers (lan (net_node N n)) k = Some sd \<longrightarrow>
      k \<noteq> ids n \<and> (k, sd) \<in> set (offered_by N))"
proof -
  have "node_inv N (net_node N n)" for n
    using net_reach_inv [OF assms] by (simp add: net_inv_def)
  moreover have "own_network_id (lan (net_node N n)) = ids n" for n
    using net_reach_id [OF assms] by (simp add: net_id_def)
  ultimately show ?thesis
    by (fastforce simp: node_inv_def published_for_def lan_inv_def tables_inv_def)
qed

text \<open>Node 2 looks for servers, which tells node 1 its address; node 1 posts a signal to it.\<close>

definition demo_net :: lan_net where
  "demo_net = \<lparr>net_node = \<lambda>n. (demo_task (word_of_nat n))\<lparr>broadcast_addr :=
      Some \<lparr>ip = IPV4_BROADCAST, port = LAN_DISCOVERY_PORT\<rparr>\<rparr>,
     flying = [], posted_by = [], offered_by = []\<rparr>"

lemma demo_net_start: "net_start word_of_nat demo_net"
proof -
  have "lan_new (Inr ()) (Inr ()) (word_of_nat n) (demo_addr 7) 0 = Inr (net_node demo_net n)" for n
    by (simp add: lan_new_def and_then_def lift_io_def map_err_def Let_def demo_net_def demo_task_def
        demo_lan_def demo_addr_def LAN_DISCOVERY_PORT_def)
  then show ?thesis by (auto simp: net_start_def demo_net_def)
qed

lemma demo_net_run:
  "\<exists>N. (net_step demo_crates)\<^sup>*\<^sup>* demo_net N \<and>
    Publish (signal_offer 5 ''v=0'' ''1'') \<in> set (actions (net_node N 2))"
proof -
  let ?step = "net_step demo_crates"
  obtain req where req: "send_request_data demo_crates 2 = Inr req"
    "discovery_unmarshal demo_crates req = Inr (RequestPacket, 2)" "length req \<le> RECV_BUFFER"
    using request_datagram [OF demo_crates_ok] by blast
  let ?t1 = "net_node demo_net 1" and ?t2 = "net_node demo_net 2"
  let ?N1 = "run_node 2 (lan_tick demo_crates ?t2) demo_net"
  have 1: "?step demo_net ?N1" by (rule Node_Tick) (simp add: demo_net_def demo_task_def)
  have tick: "lan_tick demo_crates ?t2 = ?t2\<lparr>lan := cleanup_addresses 0 (lan ?t2),
      actions := [Send_To req \<lparr>ip = IPV4_BROADCAST, port = LAN_DISCOVERY_PORT\<rparr>]\<rparr>"
    using req(1) by (simp add: lan_tick_def Let_def demo_net_def demo_task_def demo_lan_def)
  have N1: "net_node ?N1 1 = ?t1" "flying ?N1 = [req]" "posted_by ?N1 = []"
    "net_node ?N1 2 = lan_tick demo_crates ?t2"
    by (simp_all add: run_node_def tick) (simp_all add: demo_net_def demo_task_def)
  let ?u1 = "lan_receive demo_crates req (demo_addr 9) ?t1"
  let ?N2 = "run_node 1 ?u1 ?N1"
  have 2: "?step ?N1 ?N2"
    using Deliver [of req ?N1 1 demo_crates "demo_addr 9"] N1 by (simp add: demo_net_def demo_task_def)
  have u1: "actions ?u1 = []" "own_network_id (lan ?u1) = 1" "get_address (lan ?u1) 2 = Some (demo_addr 9)"
    using req(2,3)
    by (simp_all add: lan_receive_def handle_packet_eq Let_def handle_request_def demo_net_def
        demo_task_def demo_lan_def get_address_def)
  have N2: "net_node ?N2 1 = ?u1" "flying ?N2 = [req]" "net_node ?N2 2 = lan_tick demo_crates ?t2"
    by (simp_all add: run_node_def [of 1] N1 u1 del: One_nat_def)
  let ?sig = "signal_offer 5 ''v=0'' ''2''"
  have fits: "signal_fits ?sig"
    using demo_offer_valid
    by (simp add: signal_fits_def MAX_SIGNAL_TEXT_def signal_fmt_def signal_offer_def signal_new_def demo_ids)
  have nid: "parse_u64 (network_id ?sig) = Inr 2"
    using parse_u64_to_string [of 2] by (simp add: demo_ids signal_constructors)
  have "length (signal_fmt ?sig) \<le> 65503" using fits by (simp add: signal_fits_def MAX_SIGNAL_TEXT_def)
  from signal_datagram [OF demo_crates_ok demo_offer_valid nid u1(3) this] obtain data where
    data: "lan_signal_datagram demo_crates (lan ?u1) ?sig = Inr (data, demo_addr 9)"
    "length data = 32 + 16 * ((32 + length (signal_fmt ?sig)) div 16 + 1)"
    "discovery_unmarshal demo_crates data = Inr (MessagePacket 2 (signal_fmt ?sig), own_network_id (lan ?u1))"
    by blast
  let ?N3 = "post_on_net demo_crates 1 ?sig ?N2"
  have 3: "?step ?N2 ?N3" using fits by (rule Node_Post)
  have N3: "flying ?N3 = [req, data]" "net_node ?N3 2 = lan_tick demo_crates ?t2"
    by (simp_all add: post_on_net_def N2 data(1) del: One_nat_def)
  let ?u2 = "lan_receive demo_crates data (demo_addr 7) (lan_tick demo_crates ?t2)"
  let ?N4 = "run_node 2 ?u2 ?N3"
  have 4: "?step ?N3 ?N4"
    using Deliver [of data ?N3 2 demo_crates "demo_addr 7"] N3 tick by (simp add: demo_net_def demo_task_def)
  have "length data \<le> RECV_BUFFER"
    using fits by (simp only: data(2) datagram_fits_iff signal_fits_def)
  moreover have two: "own_network_id (lan (lan_tick demo_crates ?t2)) = 2"
    by (simp add: tick) (simp add: demo_net_def demo_task_def demo_lan_def)
  moreover have "own_network_id (lan ?u1) \<noteq> own_network_id (lan (lan_tick demo_crates ?t2))"
    unfolding two u1(2) by simp
  ultimately have "actions ?u2 = actions (lan_tick demo_crates ?t2) @ [Publish (?sig\<lparr>network_id := lan_network_id (lan ?u1)\<rparr>)]"
    using receive_signal [of data "lan ?u1" "lan_tick demo_crates ?t2" demo_crates ?sig "demo_addr 7"] data(3)
    by simp
  then have "Publish (signal_offer 5 ''v=0'' ''1'') \<in> set (actions (net_node ?N4 2))"
    by (simp add: run_node_def [of 2 ?u2] lan_network_id_def u1(2) demo_ids signal_constructors
        del: One_nat_def)
  moreover from 1 2 3 4 have "?step\<^sup>*\<^sup>* demo_net ?N4"
    by (meson converse_rtranclp_into_rtranclp rtranclp.rtrancl_refl)
  ultimately show ?thesis by blast
qed

theorem network_integrity_witness:
  "\<exists>N. (net_step demo_crates)\<^sup>*\<^sup>* demo_net N \<and>
    Publish (signal_offer 5 ''v=0'' ''1'') \<in> set (actions (net_node N 2)) \<and>
    (\<exists>sid sig. (sid, sig) \<in> set (posted_by N) \<and> sid \<noteq> 2 \<and> parse_u64 (network_id sig) = Inr 2 \<and>
      signal_offer 5 ''v=0'' ''1'' = sig\<lparr>network_id := u64_to_string sid\<rparr>)"
proof -
  obtain N where N: "(net_step demo_crates)\<^sup>*\<^sup>* demo_net N"
    "Publish (signal_offer 5 ''v=0'' ''1'') \<in> set (actions (net_node N 2))"
    using demo_net_run by blast
  from network_integrity [OF demo_crates_ok demo_net_start N(1)] N(2)
  have "\<exists>sid sig. (sid, sig) \<in> set (posted_by N) \<and> sid \<noteq> word_of_nat 2 \<and>
      parse_u64 (network_id sig) = Inr (word_of_nat 2) \<and>
      signal_offer 5 ''v=0'' ''1'' = sig\<lparr>network_id := u64_to_string sid\<rparr>" by blast
  with N show ?thesis by (intro exI [of _ N]) simp
qed

end
