(* ===== verification/Echo.thy ===== *)
theory Echo
  imports Duplex Lan Listener_Laws
begin

text \<open>
  The example server (src/examples/server.rs), as a composition of the components: it accepts
  sessions in a loop and answers every message of a session with the same message. Logging and the
  set-up of tracing are left out. Theory Client has the other example, and the two together.
\<close>

section \<open>The set-up of the server\<close>

definition server_setup :: "lan \<Rightarrow> lan res" where
  "server_setup l =
     and_then (server_data_marshal (server_data_new ''My NetherNet Server'' ''Example World''))
       (\<lambda>data. Inr (set_pong_data l data))"

text \<open>It is what discovery requests are answered with.\<close>

lemma server_setup_eq:
  "server_setup l = Inr (l\<lparr>pong_data := Some (server_data_new ''My NetherNet Server'' ''Example World'')\<rparr>)"
proof -
  let ?sd = "server_data_new ''My NetherNet Server'' ''Example World''"
  have "encodable ?sd" "valid_server_data ?sd" by code_simp+
  then show ?thesis
    by (simp add: server_setup_def marshal_ok set_pong_data_def unmarshal_enc del: One_nat_def)
qed

text \<open>The start of the program, up to its loop.\<close>

definition server_start :: "lan_task res \<Rightarrow> (lan_task \<times> listener) res" where
  "server_start new =
     and_then new (\<lambda>t.
     and_then (server_setup (lan t)) (\<lambda>l. Inr (t\<lparr>lan := l\<rparr>, bind_listener)))"

lemma server_start_eq:
  "server_start new =
     and_then new (\<lambda>t. Inr (t\<lparr>lan := (lan t)
       \<lparr>pong_data := Some (server_data_new ''My NetherNet Server'' ''Example World'')\<rparr>\<rparr>, bind_listener))"
  by (simp add: server_start_def server_setup_eq and_then_def split: sum.split)

section \<open>The accept loop of the server\<close>

datatype server_state = Awaiting | Still_Looping

text \<open>At most \<open>n\<close> turns of the loop; the sessions it started tasks for, in order.\<close>

fun server_loop :: "nat \<Rightarrow> listener \<Rightarrow> nat list \<Rightarrow> server_state \<times> nat list \<times> listener" where
  "server_loop 0 l spawned = (Still_Looping, spawned, l)"
| "server_loop (Suc n) l spawned =
     (case accept l of
        (Pending, l) \<Rightarrow> (Awaiting, spawned, l)
      | (Ready (Inr session), l) \<Rightarrow> server_loop n l (spawned @ [session])
      | (Ready (Inl e), l) \<Rightarrow> server_loop n l spawned)"

lemma server_loop_eq:
  "server_loop n l spawned =
     (let k = length (incoming l);
          taken = take n (incoming l);
          l' = l\<lparr>incoming := drop n (incoming l), accepted := accepted l @ taken\<rparr>
      in (if k < n \<and> senders_alive l then Awaiting else Still_Looping, spawned @ taken, l'))"
proof (induction n arbitrary: l spawned)
  case 0
  then show ?case by (simp add: Let_def)
next
  case (Suc n)
  show ?case
  proof (cases "incoming l")
    case Nil
    then have "server_loop (Suc n) l spawned =
        (if senders_alive l then (Awaiting, spawned, l) else server_loop n l spawned)"
      by (simp add: accept_def)
    with Nil Suc.IH show ?thesis by (simp add: Let_def)
  next
    case (Cons k ks)
    let ?l = "l\<lparr>incoming := ks, accepted := accepted l @ [k]\<rparr>"
    have "senders_alive ?l = senders_alive l" by (simp add: senders_alive_def)
    with Cons Suc.IH [of ?l "spawned @ [k]"] show ?thesis
      by (simp add: accept_def Let_def)
  qed
qed

section \<open>The task of a session\<close>

text \<open>An overflow of the counter panics in a debug build, which ends the task, and wraps in a release build.\<close>

datatype echo_phase = Receiving | Echoing bytes | Echo_Ended | Echo_Panicked

text \<open>A running session with the task that echoes; the last field is history.\<close>

record ('w, 'ch, 'pc, 'q) echo =
  echo_session :: "('ch, 'pc, 'q) running"
  echo_world :: 'w
  echo_phase :: echo_phase
  packet_count :: i32
  echoed :: "bytes list"

definition i32_increment :: "bool \<Rightarrow> i32 \<Rightarrow> i32 run" where
  "i32_increment dbg n = (if dbg \<and> sint n = 2 ^ 31 - 1 then Panic else Ran (n + 1))"

definition echo_start :: "('ch, 'pc, 'q) session \<Rightarrow> 'w \<Rightarrow> ('w, 'ch, 'pc, 'q) echo" where
  "echo_start s w = \<lparr>echo_session = running_start s, echo_world = w, echo_phase = Receiving,
     packet_count = 0, echoed = []\<rparr>"

text \<open>The result of \<open>recv\<close>, and the end of \<open>send\<close>.\<close>

definition echo_received ::
    "bool \<Rightarrow> bytes option res \<Rightarrow> ('ch, 'pc, 'q) session \<Rightarrow> ('w, 'ch, 'pc, 'q) echo \<Rightarrow> ('w, 'ch, 'pc, 'q) echo" where
  "echo_received dbg r s x =
     (case r of
        Inr (Some data) \<Rightarrow>
          let x = x\<lparr>echo_session := (echo_session x)\<lparr>sess := s, received := received (echo_session x) @ [data]\<rparr>\<rparr>
          in (case i32_increment dbg (packet_count x) of
                Panic \<Rightarrow> x\<lparr>echo_phase := Echo_Panicked\<rparr>
              | Ran n \<Rightarrow> x\<lparr>packet_count := n, echo_phase := Echoing data\<rparr>)
      | _ \<Rightarrow> x\<lparr>echo_session := (echo_session x)\<lparr>sess := s\<rparr>, echo_phase := Echo_Ended\<rparr>)"

definition echo_sent ::
    "bytes \<Rightarrow> unit res \<Rightarrow> 'w \<Rightarrow> ('w, 'ch, 'pc, 'q) echo \<Rightarrow> ('w, 'ch, 'pc, 'q) echo" where
  "echo_sent data r w x =
     (case r of
        Inr _ \<Rightarrow> x\<lparr>echo_world := w, echo_phase := Receiving, echoed := echoed x @ [data]\<rparr>
      | Inl e \<Rightarrow> x\<lparr>echo_world := w, echo_phase := Echo_Ended\<rparr>)"

inductive echo_step ::
    "bool \<Rightarrow> ('w, 'ch, 'pc) rtc \<Rightarrow> ('q, bytes) mpsc \<Rightarrow>
     ('w, 'ch, 'pc, 'q) echo \<Rightarrow> ('w, 'ch, 'pc, 'q) echo \<Rightarrow> bool"
  for dbg R M where
  Echo_Frame: "handler (echo_session x) = Idle \<Longrightarrow>
    session_on_message dbg (sess (echo_session x)) data = Ran (out, s) \<Longrightarrow>
    echo_step dbg R M x (x\<lparr>echo_session := (echo_session x)
      \<lparr>sess := s, handler := handler_after out, frames_in := frames_in (echo_session x) @ [data]\<rparr>\<rparr>)"
| Echo_Panic: "handler (echo_session x) = Idle \<Longrightarrow>
    session_on_message dbg (sess (echo_session x)) data = Panic \<Longrightarrow>
    echo_step dbg R M x (x\<lparr>echo_session := (echo_session x)
      \<lparr>handler := Crashed, frames_in := frames_in (echo_session x) @ [data]\<rparr>\<rparr>)"
| Echo_Forward: "handler (echo_session x) = Sending d \<Longrightarrow>
    session_forward M (sess (echo_session x)) d = Ready s \<Longrightarrow>
    echo_step dbg R M x (x\<lparr>echo_session := (echo_session x)\<lparr>sess := s, handler := Idle\<rparr>\<rparr>)"
| Echo_Recv: "echo_phase x = Receiving \<Longrightarrow> session_recv M (sess (echo_session x)) = Ready (r, s) \<Longrightarrow>
    echo_step dbg R M x (echo_received dbg r s x)"
| Echo_Send: "echo_phase x = Echoing data \<Longrightarrow>
    session_send dbg R (sess (echo_session x)) data (echo_world x) = Ran (r, w) \<Longrightarrow>
    echo_step dbg R M x (echo_sent data r w x)"

section \<open>It is the session, and it echoes\<close>

lemma echo_step_refines:
  assumes M: "mpsc_ok M queued cap" and "echo_step dbg R M x y"
  shows "(session_step dbg R M)\<^sup>*\<^sup>* (echo_session x) (echo_session y)"
  using assms(2)
proof cases
  case (Echo_Frame data out s)
  with session_step.Frame [of "echo_session x" dbg data out s R M] show ?thesis by auto
next
  case (Echo_Panic data)
  with session_step.Frame_Panic [of "echo_session x" dbg data R M] show ?thesis by auto
next
  case (Echo_Forward d s)
  with session_step.Forward [of "echo_session x" d M s dbg R] show ?thesis by auto
next
  case (Echo_Recv r s)
  show ?thesis
  proof (cases "closed (sess (echo_session x))")
    case True
    with Echo_Recv show ?thesis by (auto simp: session_recv_def echo_received_def)
  next
    case False
    with Echo_Recv have wait: "session_recv_wait M (sess (echo_session x)) = Ready (r, s)"
      by (simp add: session_recv_def)
    from M this obtain d where "r = Inr (Some d)" by (rule recv_wait_Ready)
    with wait take_steps [of M "echo_session x" d s dbg R] False Echo_Recv show ?thesis
      by (simp add: echo_received_def Let_def split: run.split)
  qed
next
  case (Echo_Send data r w)
  then show ?thesis by (auto simp: echo_sent_def split: sum.split)
qed

text \<open>
  What is on the wire of the reply channel: while the task goes on, the frames of what it echoed; when
  it has ended, a part of the frames of what it received. The count is right as long as there was
  no panic, and there is none before 2147483648 messages.
\<close>

definition in_echo :: "echo_phase \<Rightarrow> bytes list" where
  "in_echo p = (case p of Echoing d \<Rightarrow> [d] | _ \<Rightarrow> [])"

definition echo_running :: "echo_phase \<Rightarrow> bool" where
  "echo_running p \<longleftrightarrow> p \<noteq> Echo_Ended \<and> p \<noteq> Echo_Panicked"

definition echo_inv ::
    "('ch \<Rightarrow> 'w \<Rightarrow> bytes list) \<Rightarrow> 'ch \<Rightarrow> ('w, 'ch, 'pc, 'q) echo \<Rightarrow> bool" where
  "echo_inv wire ch x \<longleftrightarrow>
     reliable_channel (sess (echo_session x)) = Some ch \<and>
     prefix (wire ch (echo_world x)) (concat (map message_frames (received (echo_session x)))) \<and>
     (echo_running (echo_phase x) \<longrightarrow>
        received (echo_session x) = echoed x @ in_echo (echo_phase x) \<and>
        wire ch (echo_world x) = concat (map message_frames (echoed x))) \<and>
     (if echo_phase x = Echo_Panicked then 2 ^ 31 \<le> length (received (echo_session x))
      else packet_count x = word_of_nat (length (received (echo_session x))))"

lemma i32_increment_count:
  "i32_increment dbg (word_of_nat k) = Panic \<Longrightarrow> 2 ^ 31 \<le> Suc k"
  "i32_increment dbg (word_of_nat k) = Ran n \<Longrightarrow> n = word_of_nat (Suc k)"
proof -
  show "2 ^ 31 \<le> Suc k" if "i32_increment dbg (word_of_nat k) = Panic"
  proof (rule ccontr)
    assume "\<not> 2 ^ 31 \<le> Suc k"
    then have "k < 2 ^ 31 - 1" by simp
    moreover from this have "sint (word_of_nat k :: i32) = int k"
      by (simp add: signed_of_nat signed_take_bit_int_eq_self)
    ultimately show False using that by (simp add: i32_increment_def split: if_splits)
  qed
qed (auto simp: i32_increment_def add.commute split: if_splits)

text \<open>A send that fails leaves a part of the frames on the wire.\<close>

lemma send_segments_part:
  assumes R: "wire_whole R wire" and "send_segments R ch segs w = (Inl e, w')"
  shows "prefix (wire ch w') (wire ch w @ map segment_encode segs)"
  using assms(2)
proof (induction segs arbitrary: w)
  case (Cons seg segs)
  obtain r v where send: "dc_send R ch (segment_encode seg) w = (r, v)" by force
  show ?case
  proof (cases r)
    case (Inl t)
    with send Cons.prems have "w' = v" by simp
    with wire_wholeD(2) [OF R send [unfolded Inl]] show ?thesis by auto
  next
    case (Inr u)
    with send wire_okD [OF wire_wholeD(1) [OF R]] have "wire ch v = wire ch w @ [segment_encode seg]" by simp
    with Cons.IH [of v] Cons.prems send Inr show ?thesis by simp
  qed
qed simp

lemma session_send_part:
  assumes "wire_whole R wire" and "session_send dbg R s d w = Ran (Inl e, w')" and "reliable_channel s = Some ch"
  shows "prefix (wire ch w') (wire ch w @ message_frames d)"
  using assms send_segments_part [OF assms(1)]
  by (auto simp: session_send_eq message_frames_def split: if_splits)

lemma echo_step_inv:
  assumes R: "wire_whole R wire" and "echo_step dbg R M x y" and inv: "echo_inv wire ch x"
  shows "echo_inv wire ch y"
  using assms(2)
proof cases
  case (Echo_Send data r w)
  have ch: "reliable_channel (sess (echo_session x)) = Some ch" using inv by (simp add: echo_inv_def)
  from inv Echo_Send have now: "received (echo_session x) = echoed x @ [data]"
    "wire ch (echo_world x) = concat (map message_frames (echoed x))"
    by (simp_all add: echo_inv_def echo_running_def in_echo_def)
  show ?thesis
  proof (cases r)
    case (Inl e)
    with Echo_Send inv now session_send_part [OF R _ ch, of dbg data "echo_world x" e w] show ?thesis
      by (simp add: echo_inv_def echo_sent_def echo_running_def in_echo_def)
  next
    case (Inr u)
    with session_send_wire [OF wire_wholeD(1) [OF R] _ ch, of dbg data "echo_world x" w] Echo_Send inv now
    show ?thesis by (simp add: echo_inv_def echo_sent_def in_echo_def message_frames_def)
  qed
next
  case (Echo_Recv r s)
  have ch: "reliable_channel s = Some ch"
    using Echo_Recv inv session_ops_channel(3) [of M "sess (echo_session x)" r s] by (simp add: echo_inv_def)
  have grows: "prefix (wire ch (echo_world x)) (concat (map message_frames (received (echo_session x) @ [d])))" for d
    using inv by (simp add: echo_inv_def prefix_prefix)
  from inv Echo_Recv have now: "received (echo_session x) = echoed x"
    "wire ch (echo_world x) = concat (map message_frames (echoed x))"
    "packet_count x = word_of_nat (length (received (echo_session x)))"
    by (simp_all add: echo_inv_def echo_running_def in_echo_def)
  show ?thesis
  proof (cases "\<exists>d. r = Inr (Some d)")
    case True
    then obtain d where r: "r = Inr (Some d)" by blast
    show ?thesis
      using Echo_Recv r ch now grows [of d]
        i32_increment_count [of dbg "length (received (echo_session x))"]
      by (cases "i32_increment dbg (packet_count x)")
        (simp_all add: echo_inv_def echo_received_def Let_def echo_running_def in_echo_def)
  next
    case False
    with Echo_Recv inv ch show ?thesis
      by (auto simp: echo_inv_def echo_received_def echo_running_def split: sum.split option.split)
  qed
qed (use inv in \<open>auto simp: echo_inv_def dest: session_ops_channel\<close>)

section \<open>Properties\<close>

text \<open>C27: In every state the listener can reach, enough turns of the accept loop of the example
  server start a task for every session that is queued, in order, each once and none a second time,
  and leave the queue empty. The loop then waits exactly as long as the listener's task runs or the
  session of some answered offer has not been handed out; otherwise it neither waits nor ends:
  however many turns it is given, it is still looping. (With LAN signaling the task keeps the channel of
  the signals open, so that it runs until it is cancelled.)\<close>

theorem server_loop_serves:
  assumes "(listener_step from_json)\<^sup>*\<^sup>* bind_listener l" and "length (incoming l) < n"
    and "server_loop n l [] = (state, spawned, l')"
  shows "spawned = incoming l \<and> incoming l' = [] \<and> accepted l' = accepted l @ spawned \<and>
    distinct (accepted l') \<and> conns l' = conns l \<and>
    (\<forall>k \<in> set spawned. k < length (conns l) \<and> handlers_set (conns l ! k)) \<and>
    (state = Awaiting \<longleftrightarrow> listening l \<or>
      (\<exists>k < length (conns l). handlers_set (conns l ! k) \<and> k \<notin> set (accepted l')))"
proof -
  have inv: "listener_inv l" using assms(1) by (rule listener_reach_inv)
  from assms(2,3) have res: "spawned = incoming l" "incoming l' = []" "accepted l' = accepted l @ incoming l"
    "conns l' = conns l" "state = Awaiting \<longleftrightarrow> senders_alive l"
    by (auto simp: server_loop_eq Let_def split: if_splits)
  have "k < length (conns l) \<and> handlers_set (conns l ! k)" if "k \<in> set (incoming l)" for k
    using that inv conn_ok_nth [OF inv, of k] by (auto simp: listener_inv_def queue_ok_def conn_ok_def)
  moreover have "distinct (accepted l @ incoming l)" using inv by (simp add: listener_inv_def queue_ok_def)
  moreover have "senders_alive l \<longleftrightarrow> listening l \<or>
      (\<exists>k < length (conns l). handlers_set (conns l ! k) \<and> k \<notin> set (accepted l @ incoming l))"
    using inv by (rule senders_alive_iff)
  ultimately show ?thesis using res by simp
qed

theorem server_loop_serves_witness:
  "(listener_step (\<lambda>_. None))\<^sup>*\<^sup>* bind_listener demo_queued \<and>
   (\<exists>l'. server_loop 2 demo_queued [] = (Awaiting, [0], l') \<and> accepted l' = [0])"
proof -
  have reach: "(listener_step (\<lambda>_. None))\<^sup>*\<^sup>* bind_listener demo_queued"
    by (rule rtranclp.rtrancl_into_rtrancl [OF demo_offered_reachable listener_step.Task [OF demo_queued_step]])
  have queued: "incoming demo_queued = [0]" "accepted demo_queued = []" "listening demo_queued"
    by (simp_all add: demo_queued_def queue_session_def demo_simps)
  obtain state spawned l' where loop: "server_loop 2 demo_queued [] = (state, spawned, l')"
    by (cases "server_loop 2 demo_queued []") auto
  from server_loop_serves [OF reach _ loop] queued have "state = Awaiting" "spawned = [0]" "accepted l' = [0]"
    by simp_all
  with reach loop show ?thesis by blast
qed

end
