(* ===== verification/Buffers.thy ===== *)
theory Buffers
  imports Segments
begin

text \<open>
  The accumulator of a message with the buffer it really keeps (src/src/protocol/message.rs): a
  \<open>BytesMut\<close>, which has a capacity beside its content. It refines the accumulator of theory
  Segments, whose content is a list. Shown is what the reserve on the first segment is for.
\<close>

section \<open>The buffer\<close>

text \<open>
  The operations of \<open>bytes::BytesMut\<close> that the code calls, and its documented behaviour: capacity
  is room for the content; \<open>reserve\<close> makes room for so many more bytes, and with \<open>put\<close> leaves a
  buffer that has the room where it is; \<open>clear\<close> keeps the capacity; \<open>split\<close> takes the content out
  and leaves the rest of the capacity.
\<close>

record 'b bytes_mut =
  bm_new :: 'b
  bm_data :: "'b \<Rightarrow> bytes"
  bm_capacity :: "'b \<Rightarrow> usize"
  bm_reserve :: "'b \<Rightarrow> usize \<Rightarrow> 'b"
  bm_put :: "'b \<Rightarrow> bytes \<Rightarrow> 'b"
  bm_clear :: "'b \<Rightarrow> 'b"
  bm_split :: "'b \<Rightarrow> bytes \<times> 'b"

definition bytes_mut_ok :: "'b bytes_mut \<Rightarrow> bool" where
  "bytes_mut_ok B \<longleftrightarrow>
     bm_data B (bm_new B) = [] \<and>
     (\<forall>b. length (bm_data B b) \<le> bm_capacity B b) \<and>
     (\<forall>b k. bm_data B (bm_reserve B b k) = bm_data B b) \<and>
     (\<forall>b k. length (bm_data B b) + k \<le> bm_capacity B (bm_reserve B b k)) \<and>
     (\<forall>b k. length (bm_data B b) + k \<le> bm_capacity B b \<longrightarrow>
        bm_capacity B (bm_reserve B b k) = bm_capacity B b) \<and>
     (\<forall>b xs. bm_data B (bm_put B b xs) = bm_data B b @ xs) \<and>
     (\<forall>b xs. length (bm_data B b) + length xs \<le> bm_capacity B b \<longrightarrow>
        bm_capacity B (bm_put B b xs) = bm_capacity B b) \<and>
     (\<forall>b. bm_data B (bm_clear B b) = [] \<and> bm_capacity B (bm_clear B b) = bm_capacity B b) \<and>
     (\<forall>b. fst (bm_split B b) = bm_data B b \<and> bm_data B (snd (bm_split B b)) = [] \<and>
        bm_capacity B (snd (bm_split B b)) = bm_capacity B b - length (bm_data B b))"

lemma bytes_mut_data:
  assumes "bytes_mut_ok B"
  shows "bm_data B (bm_new B) = []" and "bm_data B (bm_reserve B b k) = bm_data B b"
    and "bm_data B (bm_put B b xs) = bm_data B b @ xs" and "bm_data B (bm_clear B b) = []"
    and "fst (bm_split B b) = bm_data B b" and "bm_data B (snd (bm_split B b)) = []"
  using assms unfolding bytes_mut_ok_def by blast+

lemma bytes_mut_capacity:
  assumes "bytes_mut_ok B"
  shows "length (bm_data B b) + k \<le> bm_capacity B (bm_reserve B b k)"
    and "length (bm_data B b) + length xs \<le> bm_capacity B b \<Longrightarrow>
      bm_capacity B (bm_put B b xs) = bm_capacity B b"
    and "bm_capacity B (snd (bm_split B b)) = bm_capacity B b - length (bm_data B b)"
    and "bm_capacity B (bm_clear B b) = bm_capacity B b"
  using assms unfolding bytes_mut_ok_def by blast+

section \<open>The accumulator\<close>

record 'b buf_message =
  buf_expected :: u8
  buffer :: 'b

definition buf_message_new :: "'b bytes_mut \<Rightarrow> 'b buf_message" where
  "buf_message_new B = \<lparr>buf_expected = 0, buffer = bm_new B\<rparr>"

definition buf_start ::
    "'b bytes_mut \<Rightarrow> bool \<Rightarrow> 'b buf_message \<Rightarrow> message_segment \<Rightarrow> 'b buf_message run" where
  "buf_start B dbg m s =
     (if buf_expected m = 0 \<and> remaining_segments s > 0
      then run_bind (u8_add dbg (remaining_segments s) 1) (\<lambda>n.
             let estimated = unat n * MAX_MESSAGE_SIZE in
             Ran (m\<lparr>buf_expected := n, buffer := bm_reserve B (buffer m) estimated\<rparr>))
      else Ran m)"

definition buf_check ::
    "'b bytes_mut \<Rightarrow> bool \<Rightarrow> 'b buf_message \<Rightarrow> message_segment \<Rightarrow>
     (nethernet_error \<times> 'b buf_message + 'b buf_message) run" where
  "buf_check B dbg m s =
     (if buf_expected m > 0 then
        run_bind (u8_sub dbg (buf_expected m) 1) (\<lambda>expected_remaining.
          if expected_remaining \<noteq> remaining_segments s
          then Ran (Inl (sequence_error expected_remaining (remaining_segments s),
                 m\<lparr>buffer := bm_clear B (buffer m), buf_expected := 0\<rparr>))
          else run_bind (u8_sub dbg (buf_expected m) 1)
                 (\<lambda>n. Ran (Inr (m\<lparr>buf_expected := n\<rparr>))))
      else Ran (Inr m))"

definition buf_finish ::
    "'b bytes_mut \<Rightarrow> 'b buf_message \<Rightarrow> message_segment \<Rightarrow> bytes option res \<times> 'b buf_message" where
  "buf_finish B m s =
     (let m = m\<lparr>buffer := bm_put B (buffer m) (seg_data s)\<rparr> in
      if remaining_segments s = 0
      then (let (data, rest) = bm_split B (buffer m)
            in (Inr (Some data), m\<lparr>buffer := rest, buf_expected := 0\<rparr>))
      else (Inr None, m))"

definition buf_add_segment ::
    "'b bytes_mut \<Rightarrow> bool \<Rightarrow> 'b buf_message \<Rightarrow> message_segment \<Rightarrow>
     (bytes option res \<times> 'b buf_message) run" where
  "buf_add_segment B dbg m s =
     run_bind (buf_start B dbg m s) (\<lambda>m.
     run_bind (buf_check B dbg m s) (\<lambda>c.
       case c of
         Inl (e, m) \<Rightarrow> Ran (Inl e, m)
       | Inr m \<Rightarrow> Ran (buf_finish B m s)))"

text \<open>The accumulator it implements.\<close>

definition message_of :: "'b bytes_mut \<Rightarrow> 'b buf_message \<Rightarrow> message" where
  "message_of B m = \<lparr>expected_segments = buf_expected m, msg_data = bm_data B (buffer m)\<rparr>"

definition map_run :: "('a \<Rightarrow> 'c) \<Rightarrow> 'a run \<Rightarrow> 'c run" where
  "map_run f r = run_bind r (\<lambda>x. Ran (f x))"

lemma map_run_simps [simp]: "map_run f Panic = Panic" "map_run f (Ran x) = Ran (f x)"
  by (simp_all add: map_run_def)

text \<open>The capacity after each segment.\<close>

fun capacity_trace ::
    "'b bytes_mut \<Rightarrow> bool \<Rightarrow> 'b buf_message \<Rightarrow> message_segment list \<Rightarrow> usize list run" where
  "capacity_trace B dbg m [] = Ran []"
| "capacity_trace B dbg m (s # ss) =
     run_bind (buf_add_segment B dbg m s) (\<lambda>(r, m).
     run_bind (capacity_trace B dbg m ss) (\<lambda>cs. Ran (bm_capacity B (buffer m) # cs)))"

section \<open>Refinement\<close>

lemma start_refines:
  assumes "bytes_mut_ok B"
  shows "map_run (message_of B) (buf_start B dbg m s) = start_message dbg (message_of B m) s"
  by (cases "u8_add dbg (remaining_segments s) 1")
    (auto simp: buf_start_def start_message_def message_of_def bytes_mut_data [OF assms] Let_def)

lemma check_refines:
  assumes "bytes_mut_ok B"
  shows "map_run (map_sum (map_prod id (message_of B)) (message_of B)) (buf_check B dbg m s) =
     check_sequence dbg (message_of B m) s"
  by (cases "u8_sub dbg (buf_expected m) 1")
    (auto simp: buf_check_def check_sequence_def message_of_def bytes_mut_data [OF assms])

lemma finish_refines:
  assumes "bytes_mut_ok B"
  shows "map_prod id (message_of B) (buf_finish B m s) = finish_segment (message_of B m) s"
  by (simp add: buf_finish_def finish_segment_def message_of_def bytes_mut_data [OF assms] Let_def split_beta)

lemma add_refines:
  assumes "bytes_mut_ok B"
  shows "map_run (map_prod id (message_of B)) (buf_add_segment B dbg m s) = add_segment dbg (message_of B m) s"
proof (cases "buf_start B dbg m s")
  case Panic
  with start_refines [OF assms, of dbg m s, symmetric] show ?thesis
    by (simp add: buf_add_segment_def add_segment_def)
next
  case (Ran m1)
  note start = start_refines [OF assms, of dbg m s, symmetric]
  note check = check_refines [OF assms, of dbg m1 s, symmetric]
  show ?thesis
    by (cases "buf_check B dbg m1 s")
      (auto simp: buf_add_segment_def add_segment_def start Ran check finish_refines [OF assms]
        split: sum.split)
qed

section \<open>Room for the whole message\<close>

lemma add_expected:
  assumes "buf_expected m = e" and "e \<noteq> 0" and "remaining_segments s = e - 1"
  shows "buf_add_segment B dbg m s = Ran (buf_finish B (m\<lparr>buf_expected := e - 1\<rparr>) s)"
  using assms by (simp add: buf_add_segment_def buf_start_def buf_check_def u8_sub_pos u8_ne_0_iff)

lemma number_down_remaining:
  assumes "length cs \<le> 254"
  shows "word_of_nat (Suc (length cs)) \<noteq> (0 :: u8)"
    and "word_of_nat (length cs) = (word_of_nat (Suc (length cs)) :: u8) - 1"
    and "word_of_nat (length cs) = (0 :: u8) \<longleftrightarrow> cs = []"
proof -
  show "word_of_nat (Suc (length cs)) \<noteq> (0 :: u8)"
    using assms by (auto simp: word_of_nat_eq_0_iff dest: dvd_imp_le simp del: of_nat_Suc)
  show "word_of_nat (length cs) = (word_of_nat (Suc (length cs)) :: u8) - 1" by simp
  show "word_of_nat (length cs) = (0 :: u8) \<longleftrightarrow> cs = []"
    using assms by (cases cs) (auto simp: word_of_nat_eq_0_iff dest: dvd_imp_le simp del: of_nat_Suc)
qed

text \<open>Segments that are expected and have their room.\<close>

lemma trace_expected:
  assumes B: "bytes_mut_ok B" and "cs \<noteq> []" and "length cs \<le> 255"
    and "buf_expected m = word_of_nat (length cs)"
    and "length (bm_data B (buffer m)) + length (concat cs) \<le> bm_capacity B (buffer m)"
  shows "capacity_trace B dbg m (number_down cs) =
    Ran (replicate (length cs - 1) (bm_capacity B (buffer m)) @
      [bm_capacity B (buffer m) - (length (bm_data B (buffer m)) + length (concat cs))])"
  using assms(2-)
proof (induction cs arbitrary: m)
  case Nil
  then show ?case by simp
next
  case (Cons c cs)
  let ?s = "segment_new (word_of_nat (length cs)) c"
  let ?m = "m\<lparr>buf_expected := word_of_nat (length cs), buffer := bm_put B (buffer m) c\<rparr>"
  have small: "length cs \<le> 254" using Cons.prems(2) by simp
  have room: "length (bm_data B (buffer m)) + length c \<le> bm_capacity B (buffer m)"
    using Cons.prems(4) by simp
  note keeps = bytes_mut_capacity(2) [OF B room]
  have "buf_add_segment B dbg m ?s = Ran (buf_finish B (m\<lparr>buf_expected := word_of_nat (length cs)\<rparr>) ?s)"
    using add_expected [of m "word_of_nat (Suc (length cs))" ?s B dbg] Cons.prems(3)
      number_down_remaining(1,2) [OF small] by (simp add: segment_new_def del: of_nat_Suc)
  moreover have "capacity_trace B dbg ?m (number_down cs) =
      Ran (replicate (length cs - 1) (bm_capacity B (buffer m)) @
        [bm_capacity B (buffer m) - (length (bm_data B (buffer m)) + length c + length (concat cs))])"
    if "cs \<noteq> []"
    using Cons.IH [OF that, of ?m] Cons.prems(4) small by (simp add: keeps bytes_mut_data [OF B] add.assoc)
  ultimately show ?case
    using number_down_remaining(3) [OF small] keeps
    by (cases "cs = []")
      (auto simp: buf_finish_def segment_new_def Let_def split_beta bytes_mut_capacity(3) [OF B]
        bytes_mut_data [OF B] replicate_Suc [symmetric] simp del: replicate_Suc)
qed

lemma length_concat_le: "\<forall>c \<in> set cs. length c \<le> n \<Longrightarrow> length (concat cs) \<le> length cs * n"
  by (induction cs) auto

text \<open>A first segment that is not the only one makes its room and goes on as an expected one.\<close>

lemma add_first:
  assumes "buf_expected m = 0" and "remaining_segments s \<noteq> 0" and "remaining_segments s \<noteq> 255"
  shows "buf_add_segment B dbg m s = buf_add_segment B dbg
    (m\<lparr>buf_expected := remaining_segments s + 1,
       buffer := bm_reserve B (buffer m) ((unat (remaining_segments s) + 1) * MAX_MESSAGE_SIZE)\<rparr>) s"
proof -
  have "unat (remaining_segments s + 1) = unat (remaining_segments s) + 1"
  proof -
    have "unat (remaining_segments s) \<noteq> 255" using assms(3) by (simp add: word_unat_eq_iff)
    then have "Suc (unat (remaining_segments s)) < 256"
      using byte_bound [of "remaining_segments s"] by linarith
    then show ?thesis by (simp add: unat_word_ariths)
  qed
  moreover have "remaining_segments s + 1 \<noteq> 0" using assms(3) by (simp add: u8_plus_1_eq_0_iff)
  moreover from calculation have "u8_add dbg (remaining_segments s) 1 = Ran (remaining_segments s + 1)"
    using assms(3) u8_add_1 [of dbg "remaining_segments s"] by simp
  ultimately show ?thesis
    using assms by (simp add: buf_add_segment_def buf_start_def u8_ne_0_iff)
qed

lemma trace_first:
  assumes B: "bytes_mut_ok B" and "2 \<le> length cs" and "length cs \<le> 255"
    and "\<forall>c \<in> set cs. length c \<le> MAX_MESSAGE_SIZE" and "buf_expected m = 0" and "bm_data B (buffer m) = []"
  obtains C where "length cs * MAX_MESSAGE_SIZE \<le> C"
    and "capacity_trace B dbg m (number_down cs) =
      Ran (replicate (length cs - 1) C @ [C - length (concat cs)])"
proof -
  let ?b = "bm_reserve B (buffer m) (length cs * MAX_MESSAGE_SIZE)"
  let ?m = "m\<lparr>buf_expected := word_of_nat (length cs), buffer := ?b\<rparr>"
  from assms(2) obtain c ds where cs: "cs = c # ds" and "ds \<noteq> []"
    by (cases cs) (auto simp: Suc_le_eq)
  have C: "length cs * MAX_MESSAGE_SIZE \<le> bm_capacity B ?b"
    using bytes_mut_capacity(1) [OF B, of "buffer m"] assms(6) by simp
  have small: "length ds \<le> 254" using assms(3) cs by simp
  have "(word_of_nat (length ds) :: u8) \<noteq> 255"
    using number_down_remaining(1) [OF small] u8_plus_1_eq_0_iff [of "word_of_nat (length ds)"]
    by (simp add: add.commute)
  moreover have "unat (word_of_nat (length ds) :: u8) + 1 = length cs"
    using small cs by (simp add: unat_of_nat)
  ultimately have "capacity_trace B dbg m (number_down cs) = capacity_trace B dbg ?m (number_down cs)"
    using add_first [of m "segment_new (word_of_nat (length ds)) c" B dbg] assms(5)
      number_down_remaining(3) [OF small] \<open>ds \<noteq> []\<close>
    by (simp add: cs segment_new_def add.commute)
  moreover have "length (concat cs) \<le> length cs * MAX_MESSAGE_SIZE"
    using assms(4) by (rule length_concat_le)
  then have "capacity_trace B dbg ?m (number_down cs) =
      Ran (replicate (length cs - 1) (bm_capacity B ?b) @ [bm_capacity B ?b - length (concat cs)])"
    using trace_expected [OF B _ assms(3), of ?m dbg] C assms(6) cs by (simp add: bytes_mut_data [OF B])
  ultimately show thesis using C by (intro that [of "bm_capacity B ?b"]) simp_all
qed

section \<open>Properties\<close>

text \<open>A buffer that grows to what is asked for.\<close>

definition exact_bytes_mut :: "(bytes \<times> nat) bytes_mut" where
  "exact_bytes_mut = \<lparr>bm_new = ([], 0), bm_data = \<lambda>(d, c). take c d, bm_capacity = snd,
     bm_reserve = \<lambda>(d, c) k. (take c d, max c (length (take c d) + k)),
     bm_put = \<lambda>(d, c) xs. (take c d @ xs, max c (length (take c d) + length xs)),
     bm_clear = \<lambda>(d, c). ([], c), bm_split = \<lambda>(d, c). (take c d, ([], c - length (take c d)))\<rparr>"

lemma exact_bytes_mut_ok: "bytes_mut_ok exact_bytes_mut"
  by (auto simp: bytes_mut_ok_def exact_bytes_mut_def max_def)

text \<open>C11: The reserve on the first segment is enough, as its comment says: while the segments of a
  message of more than one segment come in, the buffer has the room of all of them from the first
  on and never grows again; when the message is handed out, what is left of it is the room the
  message did not need. A frame of two bytes is enough to make a receiver reserve 2550000 bytes.\<close>

theorem preallocation_suffices:
  assumes "bytes_mut_ok B" and "buf_expected m = 0" and "bm_data B (buffer m) = []"
  shows "(MAX_MESSAGE_SIZE < length d \<and> split_into_segments dbg d = Ran (Inr segs) \<longrightarrow>
      (\<exists>C \<ge> length segs * MAX_MESSAGE_SIZE. length d \<le> C \<and>
        capacity_trace B dbg' m segs = Ran (replicate (length segs - 1) C @ [C - length d]))) \<and>
    (\<exists>m'. buf_add_segment B dbg' m (segment_new 254 [x]) = Ran (Inr None, m') \<and>
       2550000 \<le> bm_capacity B (buffer m') \<and> bm_data B (buffer m') = [x])"
proof (intro conjI impI)
  assume d: "MAX_MESSAGE_SIZE < length d \<and> split_into_segments dbg d = Ran (Inr segs)"
  let ?cs = "chunks MAX_MESSAGE_SIZE d"
  from d have segs: "segs = number_down ?cs" and "length d \<le> MAX_SEGMENTED"
    by (auto simp: split_into_segments_eq spec_segments_def split: if_splits)
  then have n: "length segs = length ?cs" "length ?cs \<le> 255"
    by (simp_all add: length_number_down length_spec_chunks)
  have "\<not> length ?cs \<le> 1" using d by (simp add: length_chunks div_ceil_le_iff)
  then have "2 \<le> length ?cs" by simp
  moreover have short: "\<forall>c \<in> set ?cs. length c \<le> MAX_MESSAGE_SIZE" by (auto dest: length_chunks_le)
  moreover have all: "concat ?cs = d" by simp
  ultimately obtain C where C: "length ?cs * MAX_MESSAGE_SIZE \<le> C"
    "capacity_trace B dbg' m (number_down ?cs) = Ran (replicate (length ?cs - 1) C @ [C - length d])"
    using trace_first [OF assms(1) _ n(2) _ assms(2,3), of dbg'] by metis
  have "length (concat ?cs) \<le> length ?cs * MAX_MESSAGE_SIZE" using short by (rule length_concat_le)
  with C n(1) all show "\<exists>C \<ge> length segs * MAX_MESSAGE_SIZE. length d \<le> C \<and>
      capacity_trace B dbg' m segs = Ran (replicate (length segs - 1) C @ [C - length d])"
    unfolding segs [symmetric] by (intro exI [of _ C]) simp
next
  let ?s = "segment_new 254 [x]"
  let ?m = "m\<lparr>buf_expected := 255, buffer := bm_reserve B (buffer m) 2550000\<rparr>"
  have room: "2550000 \<le> bm_capacity B (buffer ?m)" "bm_data B (buffer ?m) = []"
    using bytes_mut_capacity(1) [OF assms(1), of "buffer m" 2550000] assms(3)
    by (simp_all add: bytes_mut_data [OF assms(1)])
  have "buf_add_segment B dbg' m ?s = buf_add_segment B dbg' ?m ?s"
    using add_first [of m ?s B dbg'] assms(2) by (simp add: segment_new_def MAX_MESSAGE_SIZE_def)
  also have "\<dots> = Ran (buf_finish B (?m\<lparr>buf_expected := 254\<rparr>) ?s)"
    using add_expected [of ?m 255 ?s B dbg'] by (simp add: segment_new_def)
  finally show "\<exists>m'. buf_add_segment B dbg' m ?s = Ran (Inr None, m') \<and>
       2550000 \<le> bm_capacity B (buffer m') \<and> bm_data B (buffer m') = [x]"
    using bytes_mut_capacity(2) [OF assms(1), of "buffer ?m" "[x]"] room
    by (simp add: buf_finish_def segment_new_def bytes_mut_data [OF assms(1)])
qed

text \<open>Three segments: the second and the third find their room.\<close>

theorem preallocation_suffices_witness:
  "\<exists>C \<ge> 30000. \<exists>segs. split_into_segments True (replicate 20001 7) = Ran (Inr segs) \<and> length segs = 3 \<and>
     capacity_trace exact_bytes_mut True (buf_message_new exact_bytes_mut) segs = Ran [C, C, C - 20001]"
proof -
  let ?d = "replicate 20001 (7 :: u8)"
  let ?segs = "spec_segments ?d"
  have segs: "split_into_segments True ?d = Ran (Inr ?segs)"
    by (simp add: split_into_segments_eq MAX_SEGMENTED_def MAX_MESSAGE_SIZE_def)
  have n: "length ?segs = 3" by (simp add: length_spec_segments div_ceil_def MAX_MESSAGE_SIZE_def)
  have "buf_expected (buf_message_new exact_bytes_mut) = 0"
    and "bm_data exact_bytes_mut (buffer (buf_message_new exact_bytes_mut)) = []"
    by (simp_all add: buf_message_new_def exact_bytes_mut_def)
  from preallocation_suffices [OF exact_bytes_mut_ok this, of ?d True ?segs] segs n
  obtain C where "3 * MAX_MESSAGE_SIZE \<le> C"
    "capacity_trace exact_bytes_mut True (buf_message_new exact_bytes_mut) ?segs =
      Ran (replicate 2 C @ [C - 20001])"
    by (auto simp: MAX_MESSAGE_SIZE_def)
  with segs n show ?thesis
    by (intro exI [of _ C]) (auto simp: MAX_MESSAGE_SIZE_def numeral_2_eq_2)
qed

end
