(* ===== verification/Bytes.thy ===== *)
theory Bytes
  imports Duplex
begin

text \<open>
  A stream as bytes (\<open>poll_read\<close> in src/src/transport/stream.rs): \<open>NethernetStream\<close> hands its
  \<open>SessionStream\<close> to the \<open>StreamReader\<close> of tokio-util, which cuts the messages into what its caller
  has room for. The \<open>StreamReader\<close> is a parameter with its documented behaviour. Shown is that the
  bytes read are the bytes written at the other end, and what each read returns.
\<close>

section \<open>The reader of tokio-util\<close>

text \<open>What polling the source again and again returned.\<close>

inductive polled :: "('s \<Rightarrow> bytes io_res option poll \<times> 's) \<Rightarrow> 's \<Rightarrow> bytes io_res option poll list \<Rightarrow> 's \<Rightarrow> bool"
  for next_item where
  Polled_Nil: "polled next_item s [] s"
| Polled_Cons: "next_item s = (r, s1) \<Longrightarrow> polled next_item s1 rs s2 \<Longrightarrow> polled next_item s (r # rs) s2"

text \<open>A read takes the source, the room in the caller's buffer, and the reader with the source.\<close>

record ('s, 'r) stream_reader =
  reader_new :: 'r
  reader_chunk :: "'r \<Rightarrow> bytes"
  reader_poll :: "('s \<Rightarrow> bytes io_res option poll \<times> 's) \<Rightarrow> usize \<Rightarrow> 'r \<times> 's \<Rightarrow> bytes io_res poll \<times> 'r \<times> 's"

fun read_out :: "bytes io_res poll \<Rightarrow> bytes" where
  "read_out (Ready (Inr d)) = d"
| "read_out _ = []"

text \<open>
  The documented behaviour: the bytes of the items come out in order, after those of the chunk
  that is left over, at most as many as there is room for; nothing is read at the end of the
  source only, and an error is one of the source; what is there is read at once.
\<close>

definition stream_reader_ok :: "('s, 'r) stream_reader \<Rightarrow> bool" where
  "stream_reader_ok Rd \<longleftrightarrow>
     reader_chunk Rd (reader_new Rd) = [] \<and>
     (\<forall>next_item n r s res r' s'. reader_poll Rd next_item n (r, s) = (res, r', s') \<longrightarrow>
        (\<exists>rs. polled next_item s rs s' \<and>
           read_out res @ reader_chunk Rd r' = reader_chunk Rd r @ concat (concat (map item_of rs)) \<and>
           (res = Ready (Inr []) \<and> 0 < n \<longrightarrow> Ready None \<in> set rs) \<and>
           (\<forall>e. res = Ready (Inl e) \<longrightarrow> Ready (Some (Inl e)) \<in> set rs)) \<and>
        length (read_out res) \<le> n \<and>
        (0 < n \<and> (reader_chunk Rd r \<noteq> [] \<or> (\<exists>d t. next_item s = (Ready (Some (Inr d)), t) \<and> d \<noteq> [])) \<longrightarrow>
           read_out res \<noteq> []))"

definition poll_read ::
    "(('ch, 'pc, 'q) net_stream, 'r) stream_reader \<Rightarrow> ('q, bytes) mpsc \<Rightarrow> usize \<Rightarrow>
     'r \<times> ('ch, 'pc, 'q) net_stream \<Rightarrow> bytes io_res poll \<times> 'r \<times> ('ch, 'pc, 'q) net_stream" where
  "poll_read Rd M n = reader_poll Rd (poll_next M) n"

section \<open>The reading side in bytes\<close>

text \<open>The last two fields are history: the frames that came in and the bytes that were read.\<close>

record ('ch, 'pc, 'q, 'r) byte_reading =
  byte_reader :: "'r \<times> ('ch, 'pc, 'q) net_stream"
  byte_handler :: handler
  byte_frames :: "bytes list"
  bytes_read :: bytes

definition byte_session :: "('ch, 'pc, 'q, 'r) byte_reading \<Rightarrow> ('ch, 'pc, 'q) session" where
  "byte_session b = stream_session (snd (byte_reader b))"

definition byte_start ::
    "(('ch, 'pc, 'q) net_stream, 'r) stream_reader \<Rightarrow> ('ch, 'pc, 'q) session \<Rightarrow> ('ch, 'pc, 'q, 'r) byte_reading" where
  "byte_start Rd s = \<lparr>byte_reader = (reader_new Rd, from_session s), byte_handler = Idle,
     byte_frames = [], bytes_read = []\<rparr>"

definition with_session ::
    "('ch, 'pc, 'q) session \<Rightarrow> 'r \<times> ('ch, 'pc, 'q) net_stream \<Rightarrow> 'r \<times> ('ch, 'pc, 'q) net_stream" where
  "with_session s p = (fst p, (snd p)\<lparr>stream_session := s\<rparr>)"

inductive byte_step ::
    "bool \<Rightarrow> ('w, 'ch, 'pc) rtc \<Rightarrow> ('q, bytes) mpsc \<Rightarrow> (('ch, 'pc, 'q) net_stream, 'r) stream_reader \<Rightarrow>
     ('ch, 'pc, 'q, 'r) byte_reading \<Rightarrow> ('ch, 'pc, 'q, 'r) byte_reading \<Rightarrow> bool"
  for dbg R M Rd where
  Byte_Frame: "byte_handler b = Idle \<Longrightarrow> session_on_message dbg (byte_session b) data = Ran (out, s) \<Longrightarrow>
    byte_step dbg R M Rd b (b\<lparr>byte_reader := with_session s (byte_reader b),
      byte_handler := handler_after out, byte_frames := byte_frames b @ [data]\<rparr>)"
| Byte_Panic: "byte_handler b = Idle \<Longrightarrow> session_on_message dbg (byte_session b) data = Panic \<Longrightarrow>
    byte_step dbg R M Rd b (b\<lparr>byte_handler := Crashed, byte_frames := byte_frames b @ [data]\<rparr>)"
| Byte_Forward: "byte_handler b = Sending d \<Longrightarrow> session_forward M (byte_session b) d = Ready s \<Longrightarrow>
    byte_step dbg R M Rd b (b\<lparr>byte_reader := with_session s (byte_reader b), byte_handler := Idle\<rparr>)"
| Byte_Read: "poll_read Rd M n (byte_reader b) = (res, p) \<Longrightarrow>
    byte_step dbg R M Rd b (b\<lparr>byte_reader := p, bytes_read := bytes_read b @ read_out res\<rparr>)"
| Byte_Close: "stream_close R (snd (byte_reader b)) w = (r, st, w') \<Longrightarrow>
    byte_step dbg R M Rd b (b\<lparr>byte_reader := (fst (byte_reader b), st)\<rparr>)"

section \<open>It simulates the reading of items\<close>

lemma polled_steps:
  assumes "polled (poll_next M) (read_stream x) rs st"
  shows "(reader_step dbg R M)\<^sup>*\<^sup>* x (x\<lparr>read_stream := st, read_items := read_items x @ concat (map item_of rs)\<rparr>)"
  using assms
proof (induction "read_stream x" rs st arbitrary: x rule: polled.induct)
  case Polled_Nil
  show ?case by simp
next
  case (Polled_Cons r s1 rs s2)
  let ?y = "x\<lparr>read_stream := s1, read_items := read_items x @ item_of r\<rparr>"
  have "reader_step dbg R M x ?y" using Polled_Cons(1) by (rule Polled)
  moreover have "(reader_step dbg R M)\<^sup>*\<^sup>* ?y (x\<lparr>read_stream := s2,
      read_items := read_items x @ concat (map item_of (r # rs))\<rparr>)"
    using Polled_Cons(3) [of ?y] by simp
  ultimately show ?case by (rule converse_rtranclp_into_rtranclp)
qed

text \<open>The items read so far, of which a part of the last chunk may be left over.\<close>

definition byte_sim ::
    "(('ch, 'pc, 'q) net_stream, 'r) stream_reader \<Rightarrow> ('ch, 'pc, 'q, 'r) byte_reading \<Rightarrow> ('ch, 'pc, 'q) reading \<Rightarrow> bool" where
  "byte_sim Rd b x \<longleftrightarrow>
     read_stream x = snd (byte_reader b) \<and> read_handler x = byte_handler b \<and>
     read_frames x = byte_frames b \<and>
     bytes_read b @ reader_chunk Rd (fst (byte_reader b)) = concat (read_items x)"

lemma byte_step_sim:
  assumes Rd: "stream_reader_ok Rd" and "byte_step dbg R M Rd b c" and sim: "byte_sim Rd b x"
  obtains y where "(reader_step dbg R M)\<^sup>*\<^sup>* x y" and "byte_sim Rd c y"
  using assms(2)
proof cases
  case (Byte_Frame data out s)
  then show thesis
    using sim Incoming [of x dbg data out s R M]
    by (intro that [OF r_into_rtranclp]) (auto simp: byte_sim_def byte_session_def with_session_def)
next
  case (Byte_Panic data)
  then show thesis
    using sim Incoming_Panic [of x dbg data R M]
    by (intro that [OF r_into_rtranclp]) (auto simp: byte_sim_def byte_session_def)
next
  case (Byte_Forward d s)
  then show thesis
    using sim Forwarded [of x d M s dbg R]
    by (intro that [OF r_into_rtranclp]) (auto simp: byte_sim_def byte_session_def with_session_def)
next
  case (Byte_Read n res p)
  obtain r st r' st' where p: "byte_reader b = (r, st)" "p = (r', st')"
    by (cases "byte_reader b"; cases p) auto
  from Byte_Read(2) have "reader_poll Rd (poll_next M) n (r, st) = (res, r', st')"
    by (simp add: p poll_read_def)
  with Rd obtain rs where rs: "polled (poll_next M) st rs st'"
    and out: "read_out res @ reader_chunk Rd r' = reader_chunk Rd r @ concat (concat (map item_of rs))"
    unfolding stream_reader_ok_def by blast
  from sim p have x: "read_stream x = st" by (simp add: byte_sim_def)
  from sim p have "bytes_read b @ reader_chunk Rd r = concat (read_items x)" by (simp add: byte_sim_def)
  then have "(bytes_read b @ read_out res) @ reader_chunk Rd r' =
      concat (read_items x) @ concat (concat (map item_of rs))"
    using out by (metis append.assoc)
  with sim have "byte_sim Rd c (x\<lparr>read_stream := st', read_items := read_items x @ concat (map item_of rs)\<rparr>)"
    by (simp add: byte_sim_def Byte_Read(1) p)
  with polled_steps [of M x rs st' dbg R] rs x show thesis by (intro that) auto
next
  case (Byte_Close w r st w')
  then show thesis
    using sim Closed_Directly [of R x w r st w' dbg M]
    by (intro that [OF r_into_rtranclp]) (auto simp: byte_sim_def)
qed

lemma byte_reach:
  assumes Rd: "stream_reader_ok Rd" and "(byte_step dbg R M Rd)\<^sup>*\<^sup>* (byte_start Rd s) b"
  shows "\<exists>x. (reader_step dbg R M)\<^sup>*\<^sup>* (reading_start s) x \<and> byte_sim Rd b x"
  using assms(2)
proof (induction rule: rtranclp_induct)
  case base
  have "byte_sim Rd (byte_start Rd s) (reading_start s)"
    using Rd by (simp add: byte_sim_def byte_start_def reading_start_def stream_reader_ok_def)
  then show ?case by blast
next
  case (step b c)
  then obtain x where x: "(reader_step dbg R M)\<^sup>*\<^sup>* (reading_start s) x" "byte_sim Rd b x" by blast
  from byte_step_sim [OF Rd step(2) x(2)] obtain y where "(reader_step dbg R M)\<^sup>*\<^sup>* x y" "byte_sim Rd c y" .
  with x(1) show ?case by (meson rtranclp_trans)
qed

section \<open>What a read returns\<close>

lemma poll_next_result:
  assumes M: "mpsc_ok M queued cap" and poll: "poll_next M st = (r, st')"
  shows "closed (stream_session st') = closed (stream_session st)"
    and "r \<noteq> Ready (Some (Inl e))"
    and "r = Ready None \<Longrightarrow> closed (stream_session st)"
    and "queued (packet_channel (stream_session st)) = [] \<Longrightarrow> recv_waiting st \<or> \<not> closed (stream_session st) \<Longrightarrow>
      r = Pending \<and> st' = st\<lparr>recv_waiting := True\<rparr>"
proof -
  let ?s = "stream_session st"
  have wait: "\<exists>q d. session_recv_wait M ?s = Ready (Inr (Some d), ?s\<lparr>packet_channel := q\<rparr>)"
    if "session_recv_wait M ?s \<noteq> Pending"
  proof -
    from that obtain res s where ready: "session_recv_wait M ?s = Ready (res, s)"
      by (cases "session_recv_wait M ?s") auto
    moreover from M ready obtain d where "res = Inr (Some d)" by (rule recv_wait_Ready)
    ultimately show ?thesis by (auto simp: session_recv_wait_def)
  qed
  consider (pending) "session_recv_wait M ?s = Pending"
    | (ready) q d where "session_recv_wait M ?s = Ready (Inr (Some d), ?s\<lparr>packet_channel := q\<rparr>)"
    using wait by blast
  then have "closed (stream_session st') = closed ?s \<and> r \<noteq> Ready (Some (Inl e)) \<and>
      (r = Ready None \<longrightarrow> closed ?s)"
    using poll by cases (auto simp: poll_next_def session_recv_def split: if_splits)
  then show "closed (stream_session st') = closed ?s" "r \<noteq> Ready (Some (Inl e))"
    "r = Ready None \<Longrightarrow> closed ?s" by blast+
  show "r = Pending \<and> st' = st\<lparr>recv_waiting := True\<rparr>"
    if "queued (packet_channel ?s) = []" "recv_waiting st \<or> \<not> closed ?s"
    using poll that(2) mpsc_recv_empty [OF M that(1)]
    by (cases "recv_waiting st") (auto simp: poll_next_def session_recv_def session_recv_wait_def)
qed

lemma polled_result:
  assumes M: "mpsc_ok M queued cap" and "polled (poll_next M) st rs st'"
  shows "Ready (Some (Inl e)) \<notin> set rs"
    and "Ready None \<in> set rs \<Longrightarrow> closed (stream_session st)"
    and "queued (packet_channel (stream_session st)) = [] \<Longrightarrow> recv_waiting st \<or> \<not> closed (stream_session st) \<Longrightarrow>
      set rs \<subseteq> {Pending}"
proof -
  have "Ready (Some (Inl e)) \<notin> set rs \<and> (Ready None \<in> set rs \<longrightarrow> closed (stream_session st)) \<and>
      (queued (packet_channel (stream_session st)) = [] \<and> (recv_waiting st \<or> \<not> closed (stream_session st)) \<longrightarrow>
       set rs \<subseteq> {Pending})"
    using assms(2)
  proof induction
    case (Polled_Cons st r st1 rs st2)
    note step = poll_next_result [OF M Polled_Cons(1)]
    from Polled_Cons.IH step(1-3) step(2) [of e]
    have "Ready (Some (Inl e)) \<notin> set (r # rs)"
      and "Ready None \<in> set (r # rs) \<longrightarrow> closed (stream_session st)" by auto
    moreover have "set (r # rs) \<subseteq> {Pending}"
      if "queued (packet_channel (stream_session st)) = []" "recv_waiting st \<or> \<not> closed (stream_session st)"
      using step(4) [OF that] Polled_Cons.IH that by auto
    ultimately show ?case by blast
  qed simp
  then show "Ready (Some (Inl e)) \<notin> set rs"
    and "Ready None \<in> set rs \<Longrightarrow> closed (stream_session st)"
    and "queued (packet_channel (stream_session st)) = [] \<Longrightarrow> recv_waiting st \<or> \<not> closed (stream_session st) \<Longrightarrow>
      set rs \<subseteq> {Pending}" by blast+
qed

lemma poll_next_queued:
  assumes "mpsc_ok M queued cap" and "queued (packet_channel (stream_session st)) = d # ds"
    and "recv_waiting st \<or> \<not> closed (stream_session st)"
  shows "\<exists>t. poll_next M st = (Ready (Some (Inr d)), t)"
proof -
  from assms(1,2) obtain q where "mpsc_recv M (packet_channel (stream_session st)) = Ready (Some d, q)"
    by (rule mpsc_recv_some)
  with assms(3) show ?thesis by (auto simp: poll_next_def session_recv_def session_recv_wait_def)
qed

text \<open>A read fails or ends never while the session is open.\<close>

lemma poll_read_open:
  assumes "stream_reader_ok Rd" and "mpsc_ok M queued cap" and "poll_read Rd M n p = (res, p')"
  shows "res \<noteq> Ready (Inl e)" and "res = Ready (Inr []) \<Longrightarrow> 0 < n \<Longrightarrow> closed (stream_session (snd p))"
    and "length (read_out res) \<le> n"
proof -
  obtain r st r' st' where p: "p = (r, st)" "p' = (r', st')" by (metis surj_pair)
  with assms(3) have poll: "reader_poll Rd (poll_next M) n (r, st) = (res, r', st')" by (simp add: poll_read_def)
  with assms(1) obtain rs where rs: "polled (poll_next M) st rs st'"
    and eof: "res = Ready (Inr []) \<and> 0 < n \<longrightarrow> Ready None \<in> set rs"
    and err: "\<forall>e. res = Ready (Inl e) \<longrightarrow> Ready (Some (Inl e)) \<in> set rs"
    unfolding stream_reader_ok_def by blast
  from assms(1) poll show "length (read_out res) \<le> n" unfolding stream_reader_ok_def by blast
  note result = polled_result [OF assms(2) rs]
  show "res \<noteq> Ready (Inl e)" using err result(1) by blast
  show "res = Ready (Inr []) \<Longrightarrow> 0 < n \<Longrightarrow> closed (stream_session (snd p))" using eof result(2) p by simp
qed

section \<open>What the reader keeps\<close>

lemma poll_read_keeps:
  assumes "stream_reader_ok Rd" and "poll_read Rd M n p = (res, p')"
  shows "send_future (snd p') = send_future (snd p) \<and>
    closed (stream_session (snd p')) = closed (stream_session (snd p)) \<and>
    reliable_channel (stream_session (snd p')) = reliable_channel (stream_session (snd p))"
proof -
  obtain r st r' st' where p: "p = (r, st)" "p' = (r', st')" by (metis surj_pair)
  with assms obtain rs where "polled (poll_next M) st rs st'"
    unfolding stream_reader_ok_def poll_read_def by blast
  then have "send_future st' = send_future st \<and> closed (stream_session st') = closed (stream_session st) \<and>
    reliable_channel (stream_session st') = reliable_channel (stream_session st)"
    by induction (auto dest: poll_next_keeps)
  with p show ?thesis by simp
qed

text \<open>The bytes that were read, and the messages of the session they come from.\<close>

definition reading_inv ::
    "bool \<Rightarrow> ('q \<Rightarrow> bytes list) \<Rightarrow> ('q \<Rightarrow> nat) \<Rightarrow> nat \<Rightarrow> (('ch, 'pc, 'q) net_stream, 'r) stream_reader \<Rightarrow>
     ('ch, 'pc, 'q, 'r) byte_reading \<Rightarrow> bool" where
  "reading_inv dbg queued cap n Rd b \<longleftrightarrow>
     (\<exists>x. byte_sim Rd b x \<and> session_inv dbg queued cap n (running_of x))"

lemma reading_start_inv:
  assumes "mpsc_ok M queued cap" and "session_with_capacity M pc n = Ran t" and "stream_reader_ok Rd"
  shows "reading_inv dbg queued cap n Rd (byte_start Rd (set_reliable_channel t ch))"
proof -
  let ?s = "set_reliable_channel t ch"
  have "byte_sim Rd (byte_start Rd ?s) (reading_start ?s)"
    using assms(3) by (simp add: byte_sim_def byte_start_def reading_start_def stream_reader_ok_def)
  moreover have "session_inv dbg queued cap n (running_of (reading_start ?s))"
    using session_inv_start [OF assms(1,2), of dbg]
    by (simp add: running_start_of running_start_def session_inv_def accumulator_def set_reliable_channel_def)
  ultimately show ?thesis unfolding reading_inv_def by blast
qed

lemma reader_steps_session:
  assumes M: "mpsc_ok M queued cap" and "(reader_step dbg R M)\<^sup>*\<^sup>* x y"
  shows "(session_step dbg R M)\<^sup>*\<^sup>* (running_of x) (running_of y)"
  using assms(2)
proof induction
  case (step y z)
  with reader_step_refines [OF M step(2)] show ?case by (meson rtranclp_trans)
qed simp

lemma reading_step:
  assumes M: "mpsc_ok M queued cap" and Rd: "stream_reader_ok Rd" and step: "byte_step dbg R M Rd b b'"
    and "reading_inv dbg queued cap n Rd b"
  shows "reading_inv dbg queued cap n Rd b'"
proof -
  from assms(4) obtain x where x: "byte_sim Rd b x" "session_inv dbg queued cap n (running_of x)"
    by (auto simp: reading_inv_def)
  from byte_step_sim [OF Rd step x(1)] obtain y where "(reader_step dbg R M)\<^sup>*\<^sup>* x y" and y: "byte_sim Rd b' y" .
  with session_steps_inv [OF M x(2) reader_steps_session [OF M]] show ?thesis by (auto simp: reading_inv_def)
qed

text \<open>What the writer does on the stream does not concern the reader.\<close>

definition with_stream ::
    "('ch, 'pc, 'q) net_stream \<Rightarrow> ('ch, 'pc, 'q, 'r) byte_reading \<Rightarrow> ('ch, 'pc, 'q, 'r) byte_reading" where
  "with_stream st b = b\<lparr>byte_reader := (fst (byte_reader b), st)\<rparr>"

lemma reading_with_stream:
  assumes "reading_inv dbg queued cap n Rd b"
    and "stream_session st = (stream_session (snd (byte_reader b)))\<lparr>closed := z\<rparr>"
    and "recv_waiting st = recv_waiting (snd (byte_reader b))"
  shows "reading_inv dbg queued cap n Rd (with_stream st b)"
proof -
  from assms(1) obtain x where x: "byte_sim Rd b x" "session_inv dbg queued cap n (running_of x)"
    by (auto simp: reading_inv_def)
  then have "byte_sim Rd (with_stream st b) (x\<lparr>read_stream := st\<rparr>)" by (simp add: byte_sim_def with_stream_def)
  moreover have "session_inv dbg queued cap n (running_of (x\<lparr>read_stream := st\<rparr>))"
    using x assms(2,3) by (simp add: byte_sim_def running_of_def session_inv_def accumulator_def)
  ultimately show ?thesis unfolding reading_inv_def by blast
qed

text \<open>What was read, in terms of the messages the other side sent.\<close>

lemma reading_prefix:
  assumes "reading_inv dbg queued cap n Rd b" and "prefix (byte_frames b) (concat (map message_frames ds))"
    and "list_all (\<lambda>d. length d \<le> MAX_SEGMENTED) ds" and "[] \<notin> set ds"
  shows "prefix (bytes_read b) (concat ds)"
proof -
  from assms(1) obtain x where x: "byte_sim Rd b x" "session_inv dbg queued cap n (running_of x)"
    by (auto simp: reading_inv_def)
  from assms(2) x(1) obtain rest where "concat (map message_frames ds) = frames_in (running_of x) @ rest"
    by (auto simp: prefix_def byte_sim_def running_of_def)
  from receives_prefix [OF x(2) frames_of_sendable [OF assms(3,4), folded message_frames_def] this] obtain more where
    "received (running_of x) @ more = ds" by auto
  then have "prefix (concat (read_items x)) (concat ds)" by (auto simp: running_of_def)
  with x(1) show ?thesis unfolding byte_sim_def by (metis append_prefixD)
qed

section \<open>Properties\<close>

text \<open>C2: The two ends as bytes: one end writes through polls that do not fail, the other has taken in
  some of the frames on the wire and reads into buffers of any sizes. In every reachable state the
  bytes read, followed by the rest of the chunk the reader holds, the messages that are queued and
  the one the handler holds, are a prefix of the bytes that were accepted; it is all of them when
  nothing is pending at the writer and all frames have been taken in. (As for messages, no accepted
  buffer is empty.)\<close>

theorem bytes_end_to_end:
  assumes "polled_wire_ok P wire" and "mpsc_ok M queued cap" and "stream_reader_ok Rd"
    and "reliable_channel s = Some ch" and "wire ch w0 = []"
    and "(writer_step dbg P M')\<^sup>*\<^sup>* (from_session s, w0, []) (st, w, acc)"
    and "[] \<notin> set acc" and "session_with_capacity M pc n = Ran t"
    and "(byte_step dbg' R M Rd)\<^sup>*\<^sup>* (byte_start Rd t) b" and "wire ch w = byte_frames b @ rest"
  shows "\<exists>left. bytes_read b @ reader_chunk Rd (fst (byte_reader b)) @
      concat (queued (packet_channel (byte_session b))) @ concat (in_handler (byte_handler b)) @ left =
      concat acc \<and>
    (rest = [] \<and> send_future st = None \<longrightarrow> left = [])"
proof -
  from byte_reach [OF assms(3,9)] obtain x where
    x: "(reader_step dbg' R M)\<^sup>*\<^sup>* (reading_start t) x" and sim: "byte_sim Rd b x" by blast
  then have frames: "wire ch w = read_frames x @ rest" using assms(10) by (simp add: byte_sim_def)
  from reader_delivers [OF assms(1,2,4-8) x frames] obtain more where
    "read_items x @ queued (packet_channel (byte_session b)) @ in_handler (byte_handler b) @ more = acc"
    and all: "rest = [] \<and> send_future st = None \<longrightarrow> more = []"
    using sim by (auto simp: byte_sim_def byte_session_def)
  then have "concat acc = concat (read_items x) @ concat (queued (packet_channel (byte_session b))) @
      concat (in_handler (byte_handler b)) @ concat more" by auto
  with sim all show ?thesis by (intro exI [of _ "concat more"]) (simp add: byte_sim_def flip: append_assoc)
qed

text \<open>C12: What a read returns (into a buffer with room): bytes when there are some, in the reader or
  in the message at the head of the queue; it waits when there are none, as long as the session is
  not closed; it never fails; and it returns 0 bytes, the end of the stream, only when this end has
  closed the session. So a reader whose peer has closed the connection waits for ever.\<close>

theorem poll_read_result:
  assumes "stream_reader_ok Rd" and "mpsc_ok M queued cap" and "0 < n"
    and "poll_read Rd M n (r, st) = (res, r', st')"
  shows "length (read_out res) \<le> n \<and> (\<forall>e. res \<noteq> Ready (Inl e)) \<and>
    (reader_chunk Rd r \<noteq> [] \<longrightarrow> read_out res \<noteq> []) \<and>
    (res = Ready (Inr []) \<longrightarrow> closed (stream_session st)) \<and>
    (recv_waiting st \<or> \<not> closed (stream_session st) \<longrightarrow>
      (case queued (packet_channel (stream_session st)) of
         d # _ \<Rightarrow> d \<noteq> [] \<longrightarrow> read_out res \<noteq> []
       | [] \<Rightarrow> reader_chunk Rd r = [] \<longrightarrow> res = Pending))"
proof -
  from assms(4) have poll: "reader_poll Rd (poll_next M) n (r, st) = (res, r', st')"
    by (simp add: poll_read_def)
  with assms(1) obtain rs where rs: "polled (poll_next M) st rs st'"
    and out: "read_out res @ reader_chunk Rd r' = reader_chunk Rd r @ concat (concat (map item_of rs))"
    and eof: "res = Ready (Inr []) \<and> 0 < n \<longrightarrow> Ready None \<in> set rs"
    unfolding stream_reader_ok_def by blast
  from assms(1) poll have some: "0 < n \<and> (reader_chunk Rd r \<noteq> [] \<or> (\<exists>d t. poll_next M st = (Ready (Some (Inr d)), t) \<and> d \<noteq> [])) \<longrightarrow>
      read_out res \<noteq> []"
    unfolding stream_reader_ok_def by blast
  note result = polled_result [OF assms(2) rs] and opened = poll_read_open [OF assms(1,2,4)]
  have no_err: "\<forall>e. res \<noteq> Ready (Inl e)" and small: "length (read_out res) \<le> n" using opened(1,3) by blast+
  have end_of_stream: "res = Ready (Inr []) \<longrightarrow> closed (stream_session st)"
    using opened(2) assms(3) by simp
  have "case queued (packet_channel (stream_session st)) of
         d # _ \<Rightarrow> d \<noteq> [] \<longrightarrow> read_out res \<noteq> []
       | [] \<Rightarrow> reader_chunk Rd r = [] \<longrightarrow> res = Pending"
    if live: "recv_waiting st \<or> \<not> closed (stream_session st)"
  proof (cases "queued (packet_channel (stream_session st))")
    case Nil
    have "set rs \<subseteq> {Pending}" using result(3) Nil live .
    then have "concat (map item_of rs) = []" and "Ready None \<notin> set rs" by (auto simp: concat_eq_Nil_conv)
    with out eof assms(3) have "reader_chunk Rd r = [] \<longrightarrow> read_out res = [] \<and> res \<noteq> Ready (Inr [])" by auto
    with no_err Nil show ?thesis by (cases res rule: read_out.cases) auto
  next
    case (Cons d ds)
    from poll_next_queued [OF assms(2) Cons live] some assms(3) Cons show ?thesis by auto
  qed
  with small no_err end_of_stream some assms(3) show ?thesis by blast
qed

text \<open>A reader that polls its source once. An empty message makes it say that it has to be polled
  again.\<close>

definition demo_reader :: "('s, bytes) stream_reader" where
  "demo_reader = \<lparr>reader_new = [], reader_chunk = id, reader_poll = (\<lambda>next_item n (r, s).
     if r \<noteq> [] then (Ready (Inr (take n r)), drop n r, s)
     else
       case next_item s of
         (Pending, s) \<Rightarrow> (Pending, [], s)
       | (Ready None, s) \<Rightarrow> (Ready (Inr []), [], s)
       | (Ready (Some (Inl e)), s) \<Rightarrow> (Ready (Inl e), [], s)
       | (Ready (Some (Inr d)), s) \<Rightarrow> (if d = [] then Pending else Ready (Inr (take n d)), drop n d, s))\<rparr>"

lemma polled_once: "next_item s = (r, s') \<Longrightarrow> polled next_item s [r] s'"
  by (rule Polled_Cons, assumption, rule Polled_Nil)

lemma demo_reader_ok: "stream_reader_ok demo_reader"
proof -
  have "(\<exists>rs. polled next_item s rs s' \<and> read_out res @ r' = r @ concat (concat (map item_of rs)) \<and>
         (res = Ready (Inr []) \<and> 0 < n \<longrightarrow> Ready None \<in> set rs) \<and>
         (\<forall>e. res = Ready (Inl e) \<longrightarrow> Ready (Some (Inl e)) \<in> set rs)) \<and>
        length (read_out res) \<le> n \<and>
        (0 < n \<and> (r \<noteq> [] \<or> (\<exists>d t. next_item s = (Ready (Some (Inr d)), t) \<and> d \<noteq> [])) \<longrightarrow> read_out res \<noteq> [])"
    if read: "reader_poll demo_reader next_item n (r, s) = (res, r', s')"
    for next_item n and r r' :: bytes and s s' :: 'a and res
  proof (cases "r = []")
    case False
    with read show ?thesis
      by (auto simp: demo_reader_def intro: exI [of _ "[]"] Polled_Nil)
  next
    case True
    obtain x t where item: "next_item s = (x, t)" by force
    from True read item show ?thesis
      by (cases x rule: item_of.cases)
        (auto simp: demo_reader_def split: if_splits intro!: exI [of _ "[x]"] polled_once)
  qed
  then show ?thesis by (simp add: stream_reader_ok_def) (simp add: demo_reader_def)
qed

theorem poll_read_result_witness:
  "poll_read demo_reader list_mpsc 2 ([], (from_session demo_session)
      \<lparr>stream_session := demo_session\<lparr>packet_channel := ([[1, 2, 3]], 4)\<rparr>\<rparr>) =
     (Ready (Inr [1, 2]), [3], from_session demo_session) \<and>
   read_out (Ready (Inr [1 :: u8, 2])) \<noteq> []"
proof -
  let ?st = "(from_session demo_session)\<lparr>stream_session := demo_session\<lparr>packet_channel := ([[1, 2, 3 :: u8]], 4)\<rparr>\<rparr>"
  have read: "poll_read demo_reader list_mpsc 2 ([], ?st) = (Ready (Inr [1, 2]), [3], from_session demo_session)"
    by (simp add: poll_read_def demo_reader_def poll_next_def session_recv_def session_recv_wait_def
        list_mpsc_def demo_session_def from_session_def)
  from poll_read_result [OF demo_reader_ok list_mpsc_ok _ read] read show ?thesis
    by (simp add: from_session_def demo_session_def)
qed

theorem bytes_end_to_end_witness:
  "\<exists>b. (byte_step True demo_rtc list_mpsc demo_reader)\<^sup>*\<^sup>*
      (byte_start demo_reader (demo_session\<lparr>reliable_channel := None\<rparr>)) b \<and>
    bytes_read b = [1] \<and> (\<exists>left. [1] @ [2] @ left = concat [[1 :: u8, 2]])"
proof -
  let ?s = "demo_session\<lparr>reliable_channel := None\<rparr>"
  let ?q = "?s\<lparr>packet_channel := ([[1, 2]], 4)\<rparr>"
  let ?b = "\<lambda>s h fs r d. \<lparr>byte_reader = (r, from_session s), byte_handler = h, byte_frames = fs, bytes_read = d\<rparr>"
  let ?step = "byte_step True demo_rtc list_mpsc demo_reader"
  have frame: "session_on_message True ?s [0, 1, 2] = Ran (Some [1, 2], ?s)"
    by (simp add: session_on_message_eq frame_step_def segment_decode_def add_segment_eq
        accept_segment_def demo_session_def message_new_def)
  have 1: "?step (?b ?s Idle [] [] []) (?b ?s (Sending [1, 2]) [[0, 1, 2]] [] [])"
    using Byte_Frame [of "?b ?s Idle [] [] []" True "[0, 1, 2]" "Some [1, 2]" ?s demo_rtc list_mpsc demo_reader] frame
    by (simp add: handler_after_def from_session_def byte_session_def with_session_def)
  have 2: "?step (?b ?s (Sending [1, 2]) [[0, 1, 2]] [] []) (?b ?q Idle [[0, 1, 2]] [] [])"
    using Byte_Forward [of "?b ?s (Sending [1, 2]) [[0, 1, 2]] [] []" "[1, 2]" list_mpsc ?q]
    by (simp add: session_forward_def list_mpsc_def demo_session_def from_session_def byte_session_def with_session_def)
  have 3: "?step (?b ?q Idle [[0, 1, 2]] [] []) (?b ?s Idle [[0, 1, 2]] [2] [1])"
    using Byte_Read [of demo_reader list_mpsc 1 "?b ?q Idle [[0, 1, 2]] [] []" "Ready (Inr [1])" "([2], from_session ?s)"]
    by (simp add: poll_read_def demo_reader_def poll_next_def session_recv_def session_recv_wait_def
        list_mpsc_def demo_session_def from_session_def)
  note run = converse_rtranclp_into_rtranclp [OF 1 converse_rtranclp_into_rtranclp [OF 2
      r_into_rtranclp [of ?step, OF 3]]]
  have start: "byte_start demo_reader ?s = ?b ?s Idle [] [] []" by (simp add: byte_start_def demo_reader_def)
  have "reliable_channel demo_session = Some True" by (simp add: demo_session_def)
  from bytes_end_to_end [OF lazy_rtc_ok list_mpsc_ok demo_reader_ok this _ demo_writer_run _ demo_with_capacity
      run [folded start], of "[]"]
  have "\<exists>left. [1] @ [2] @ left = concat [[1 :: u8, 2]]"
    by (simp add: demo_reader_def byte_session_def from_session_def demo_session_def)
  with run show ?thesis unfolding start by (intro exI [of _ "?b ?s Idle [[0, 1, 2]] [2] [1]"]) simp
qed

end
