(* ===== verification/Client.thy ===== *)
theory Client
  imports Bytes Lan "HOL-Library.Sublist"
begin

text \<open>
  The example client (src/examples/client.rs): it picks a discovered server, connects, and exchanges
  eleven messages with it over a \<open>NethernetStream\<close>. Its calls are polled on the stream of theories Stream
  and Bytes, while the handler of its session takes in frames. Shown is the invariant of its course:
  what it has written, read and has still to do. Logging, the set-up of tracing and the pauses are left out.
\<close>

section \<open>The way to the server\<close>

text \<open>
  An error that ends the program. For the two errors that \<open>write_all\<close> and \<open>read_exact\<close> of tokio add,
  \<open>WriteZero\<close> and \<open>UnexpectedEof\<close>, the text is not documented.
\<close>

datatype client_error = Client_Io io_error | Client_Error nethernet_error | Client_Write_Zero | Client_Eof

text \<open>The seconds to wait for servers, from the environment variable.\<close>

definition discovery_timeout_secs :: "string option \<Rightarrow> u64" where
  "discovery_timeout_secs var =
     (case var of
        None \<Rightarrow> 3
      | Some s \<Rightarrow> (case parse_u64 s of Inl e \<Rightarrow> 3 | Inr secs \<Rightarrow> secs))"

text \<open>The choice of a server: the first that was discovered, with its address.\<close>

definition client_server ::
    "(u64 \<times> server_data) list \<Rightarrow> (u64 \<Rightarrow> socket_addr option) \<Rightarrow> (string \<times> socket_addr) option io_res" where
  "client_server servers address_of =
     (case servers of
        [] \<Rightarrow> Inr None
      | (server_network_id, _) # _ \<Rightarrow>
          (case address_of server_network_id of
             None \<Rightarrow> Inl (Io_Error NotFound (''Address not found for network ID '' @ u64_to_string server_network_id))
           | Some addr \<Rightarrow> Inr (Some (u64_to_string server_network_id, addr))))"

text \<open>
  The program up to the connected stream. Its signaling runs while it sleeps; \<open>listing\<close> is the order in
  which the table of servers is iterated over. The result is \<open>None\<close> when there was no server.
\<close>

definition client_connect ::
    "lan_task res \<Rightarrow> (lan_task \<Rightarrow> lan_task) \<Rightarrow> ((u64 \<rightharpoonup> server_data) \<Rightarrow> (u64 \<times> server_data) list) \<Rightarrow>
     (string \<Rightarrow> socket_addr \<Rightarrow> 's res) \<Rightarrow> client_error + 's option" where
  "client_connect new sleep listing connect_to =
     (case new of
        Inl e \<Rightarrow> Inl (Client_Error e)
      | Inr t \<Rightarrow>
          let l = lan (sleep t); servers = listing (discovered_servers l) in
          case client_server servers (get_address l) of
            Inl e \<Rightarrow> Inl (Client_Io e)
          | Inr None \<Rightarrow> Inr None
          | Inr (Some (server_id, server_addr)) \<Rightarrow>
              (case connect_to server_id server_addr of
                 Inl e \<Rightarrow> Inl (Client_Error e)
               | Inr stream \<Rightarrow> Inr (Some stream)))"

text \<open>A client that gets a stream has connected it to a server that is known, under its id, at its address.\<close>

lemma client_connected:
  assumes "client_connect new sleep listing connect_to = Inr (Some stream)"
    and "\<And>f. set (listing f) = {(k, sd). f k = Some sd}"
  obtains t k sd addr where "new = Inr t" and "discovered_servers (lan (sleep t)) k = Some sd"
    and "get_address (lan (sleep t)) k = Some addr" and "connect_to (u64_to_string k) addr = Inr stream"
proof -
  from assms(1) obtain t where t: "new = Inr t" by (auto simp: client_connect_def split: sum.splits)
  show thesis
  proof (cases "listing (discovered_servers (lan (sleep t)))")
    case Nil
    with assms(1) t show thesis by (simp add: client_connect_def client_server_def)
  next
    case (Cons p ps)
    obtain k sd where p: "p = (k, sd)" by force
    with Cons assms(2) [of "discovered_servers (lan (sleep t))"] have "discovered_servers (lan (sleep t)) k = Some sd" by auto
    with assms(1) t Cons p that show thesis
      by (auto simp: client_connect_def client_server_def split: option.splits sum.splits)
  qed
qed

section \<open>The exchange\<close>

definition client_packet :: "nat \<Rightarrow> bytes" where
  "client_packet i = as_bytes (''Hello from client, packet #'' @ show_nat i)"

definition large_data :: bytes where
  "large_data = replicate 20000 0xAB"

text \<open>
  The calls on the stream, with the state in which they are polled again: \<open>write_all\<close> with the rest of
  its buffer, \<open>read\<close> with the size of its buffer, \<open>read_exact\<close> with what it has to fill and has
  filled, and the future of \<open>close\<close>. As documented, \<open>write_all\<close>, \<open>flush\<close>, \<open>read\<close> and \<open>read_exact\<close> call
  \<open>poll_write\<close>, \<open>poll_flush\<close> and \<open>poll_read\<close> until they are done.
\<close>

datatype 'ch client_call =
    Call_Write bytes
  | Call_Flush
  | Call_Read usize
  | Call_Read_Exact usize bytes
  | Call_Close "'ch close_state"

definition client_turn :: "nat \<Rightarrow> 'ch client_call list" where
  "client_turn i = [Call_Write (client_packet i), Call_Flush, Call_Read 1024]"

definition client_tail :: "'ch client_call list" where
  "client_tail = [Call_Write large_data, Call_Flush, Call_Read_Exact 20000 [], Call_Close Close_Start]"

definition client_program :: "'ch client_call list" where
  "client_program = concat (map client_turn [1..<11]) @ client_tail"

text \<open>
  The running program: its stream with the session's handler, what is left to do, and how it ended. The
  last two fields are history: what the stream accepted, and what the reads returned.
\<close>

record ('w, 'ch, 'pc, 'q, 'r) client =
  client_reading :: "('ch, 'pc, 'q, 'r) byte_reading"
  client_world :: 'w
  todo :: "'ch client_call list"
  outcome :: "(client_error + unit) option"
  written :: "bytes list"
  replies :: "bytes list"

definition client_start ::
    "(('ch, 'pc, 'q) net_stream, 'r) stream_reader \<Rightarrow> ('ch, 'pc, 'q) session \<Rightarrow> 'w \<Rightarrow> ('w, 'ch, 'pc, 'q, 'r) client" where
  "client_start Rd s w = \<lparr>client_reading = byte_start Rd s, client_world = w, todo = client_program,
     outcome = None, written = [], replies = []\<rparr>"

text \<open>What the results of the polls do; the rest of the program is \<open>calls\<close>.\<close>

definition client_fails :: "client_error \<Rightarrow> ('w, 'ch, 'pc, 'q, 'r) client \<Rightarrow> ('w, 'ch, 'pc, 'q, 'r) client" where
  "client_fails e c = c\<lparr>outcome := Some (Inl e)\<rparr>"

definition client_wrote ::
    "bytes \<Rightarrow> 'ch client_call list \<Rightarrow> usize io_res poll \<Rightarrow> ('w, 'ch, 'pc, 'q, 'r) client \<Rightarrow> ('w, 'ch, 'pc, 'q, 'r) client" where
  "client_wrote buf calls r c =
     (case r of
        Pending \<Rightarrow> c
      | Ready (Inl e) \<Rightarrow> client_fails (Client_Io e) c
      | Ready (Inr n) \<Rightarrow>
          if n = 0 then client_fails Client_Write_Zero c
          else c\<lparr>todo := Call_Write (drop n buf) # calls, written := written c @ [take n buf]\<rparr>)"

definition client_flushed ::
    "'ch client_call list \<Rightarrow> unit io_res poll \<Rightarrow> ('w, 'ch, 'pc, 'q, 'r) client \<Rightarrow> ('w, 'ch, 'pc, 'q, 'r) client" where
  "client_flushed calls r c =
     (case r of
        Pending \<Rightarrow> c
      | Ready (Inl e) \<Rightarrow> client_fails (Client_Io e) c
      | Ready (Inr _) \<Rightarrow> c\<lparr>todo := calls\<rparr>)"

text \<open>A read of 0 bytes breaks the loop over the packets.\<close>

definition client_read ::
    "'ch client_call list \<Rightarrow> bytes io_res poll \<Rightarrow> ('w, 'ch, 'pc, 'q, 'r) client \<Rightarrow> ('w, 'ch, 'pc, 'q, 'r) client" where
  "client_read calls r c =
     (case r of
        Pending \<Rightarrow> c
      | Ready (Inl e) \<Rightarrow> client_fails (Client_Io e) c
      | Ready (Inr d) \<Rightarrow>
          if d = [] then c\<lparr>todo := client_tail\<rparr> else c\<lparr>todo := calls, replies := replies c @ [d]\<rparr>)"

definition client_read_more ::
    "usize \<Rightarrow> bytes \<Rightarrow> 'ch client_call list \<Rightarrow> bytes io_res poll \<Rightarrow>
     ('w, 'ch, 'pc, 'q, 'r) client \<Rightarrow> ('w, 'ch, 'pc, 'q, 'r) client" where
  "client_read_more n got calls r c =
     (case r of
        Pending \<Rightarrow> c
      | Ready (Inl e) \<Rightarrow> client_fails (Client_Io e) c
      | Ready (Inr d) \<Rightarrow>
          if d = [] then client_fails Client_Eof c else c\<lparr>todo := Call_Read_Exact n (got @ d) # calls\<rparr>)"

definition client_closed ::
    "'ch client_call list \<Rightarrow> (unit res, 'ch close_state) progress \<Rightarrow>
     ('w, 'ch, 'pc, 'q, 'r) client \<Rightarrow> ('w, 'ch, 'pc, 'q, 'r) client" where
  "client_closed calls p c =
     (case p of
        Waiting fut \<Rightarrow> c\<lparr>todo := Call_Close fut # calls\<rparr>
      | Done (Inl e) \<Rightarrow> client_fails (Client_Error e) c
      | Done (Inr _) \<Rightarrow> c\<lparr>todo := calls\<rparr>)"

definition client_stream :: "('w, 'ch, 'pc, 'q, 'r) client \<Rightarrow> ('ch, 'pc, 'q) net_stream" where
  "client_stream c = snd (byte_reader (client_reading c))"

definition with_read ::
    "bytes io_res poll \<Rightarrow> 'r \<times> ('ch, 'pc, 'q) net_stream \<Rightarrow> ('ch, 'pc, 'q, 'r) byte_reading \<Rightarrow> ('ch, 'pc, 'q, 'r) byte_reading" where
  "with_read r p b = b\<lparr>byte_reader := p, bytes_read := bytes_read b @ read_out r\<rparr>"

text \<open>One poll of the program.\<close>

fun client_poll ::
    "bool \<Rightarrow> ('w, 'ch, 'pc) polled_rtc \<Rightarrow> ('q, bytes) mpsc \<Rightarrow> (('ch, 'pc, 'q) net_stream, 'r) stream_reader \<Rightarrow>
     'ch client_call list \<Rightarrow> ('w, 'ch, 'pc, 'q, 'r) client \<Rightarrow> ('w, 'ch, 'pc, 'q, 'r) client run" where
  "client_poll dbg P M Rd [] c = Ran (c\<lparr>outcome := Some (Inr ())\<rparr>)"
| "client_poll dbg P M Rd (Call_Write buf # calls) c =
     (if buf = [] then Ran (c\<lparr>todo := calls\<rparr>)
      else
        run_bind (poll_write dbg P (client_stream c) buf (client_world c)) (\<lambda>(r, st, w).
          Ran (client_wrote buf calls r
            (c\<lparr>client_reading := with_stream st (client_reading c), client_world := w\<rparr>))))"
| "client_poll dbg P M Rd (Call_Flush # calls) c =
     run_bind (poll_flush dbg P (client_stream c) (client_world c)) (\<lambda>(r, st, w).
       Ran (client_flushed calls r
         (c\<lparr>client_reading := with_stream st (client_reading c), client_world := w\<rparr>)))"
| "client_poll dbg P M Rd (Call_Read n # calls) c =
     (let (r, p) = poll_read Rd M n (byte_reader (client_reading c)) in
      Ran (client_read calls r (c\<lparr>client_reading := with_read r p (client_reading c)\<rparr>)))"
| "client_poll dbg P M Rd (Call_Read_Exact n got # calls) c =
     (if length got = n then Ran (c\<lparr>todo := calls, replies := replies c @ [got]\<rparr>)
      else
        let (r, p) = poll_read Rd M (n - length got) (byte_reader (client_reading c)) in
        Ran (client_read_more n got calls r (c\<lparr>client_reading := with_read r p (client_reading c)\<rparr>)))"
| "client_poll dbg P M Rd (Call_Close fut # calls) c =
     (let (p, s, w) = poll_close P (stream_session (client_stream c)) fut (client_world c) in
      Ran (client_closed calls p
        (c\<lparr>client_reading := with_stream ((client_stream c)\<lparr>stream_session := s\<rparr>) (client_reading c),
          client_world := w\<rparr>)))"

inductive client_step ::
    "bool \<Rightarrow> ('w, 'ch, 'pc) polled_rtc \<Rightarrow> ('q, bytes) mpsc \<Rightarrow> (('ch, 'pc, 'q) net_stream, 'r) stream_reader \<Rightarrow>
     ('w, 'ch, 'pc, 'q, 'r) client \<Rightarrow> ('w, 'ch, 'pc, 'q, 'r) client \<Rightarrow> bool"
  for dbg P M Rd where
  Client_Poll: "outcome c = None \<Longrightarrow> client_poll dbg P M Rd (todo c) c = Ran c' \<Longrightarrow> client_step dbg P M Rd c c'"
| Client_Frame: "outcome c = None \<Longrightarrow> b = client_reading c \<Longrightarrow> byte_handler b = Idle \<Longrightarrow>
    session_on_message dbg (byte_session b) data = Ran (out, s) \<Longrightarrow>
    client_step dbg P M Rd c (c\<lparr>client_reading := b\<lparr>byte_reader := with_session s (byte_reader b),
      byte_handler := handler_after out, byte_frames := byte_frames b @ [data]\<rparr>\<rparr>)"
| Client_Panic: "outcome c = None \<Longrightarrow> b = client_reading c \<Longrightarrow> byte_handler b = Idle \<Longrightarrow>
    session_on_message dbg (byte_session b) data = Panic \<Longrightarrow>
    client_step dbg P M Rd c (c\<lparr>client_reading := b\<lparr>byte_handler := Crashed,
      byte_frames := byte_frames b @ [data]\<rparr>\<rparr>)"
| Client_Forward: "outcome c = None \<Longrightarrow> b = client_reading c \<Longrightarrow> byte_handler b = Sending d \<Longrightarrow>
    session_forward M (byte_session b) d = Ready s \<Longrightarrow>
    client_step dbg P M Rd c (c\<lparr>client_reading := b\<lparr>byte_reader := with_session s (byte_reader b),
      byte_handler := Idle\<rparr>\<rparr>)"

section \<open>The course of the client\<close>

text \<open>What the calls that are left have still to write and to read, and what a read has to return.\<close>

datatype request = Up_To usize | Exactly usize

fun fits :: "request \<Rightarrow> bytes \<Rightarrow> bool" where
  "fits (Up_To n) d \<longleftrightarrow> d \<noteq> [] \<and> length d \<le> n"
| "fits (Exactly n) d \<longleftrightarrow> length d = n"

fun to_write :: "'ch client_call \<Rightarrow> bytes list" where
  "to_write (Call_Write buf) = (if buf = [] then [] else [buf])"
| "to_write _ = []"

fun requested :: "'ch client_call \<Rightarrow> request list" where
  "requested (Call_Read n) = [Up_To n]"
| "requested (Call_Read_Exact n _) = [Exactly n]"
| "requested _ = []"

fun partly_read :: "'ch client_call \<Rightarrow> bytes" where
  "partly_read (Call_Read_Exact _ got) = got"
| "partly_read _ = []"

fun call_ok :: "'ch client_call \<Rightarrow> bool" where
  "call_ok (Call_Read n) \<longleftrightarrow> 0 < n"
| "call_ok (Call_Read_Exact n got) \<longleftrightarrow> length got \<le> n"
| "call_ok _ \<longleftrightarrow> True"

fun is_close :: "'ch client_call \<Rightarrow> bool" where
  "is_close (Call_Close _) \<longleftrightarrow> True"
| "is_close _ \<longleftrightarrow> False"

fun closes_last :: "'ch client_call list \<Rightarrow> bool" where
  "closes_last [] \<longleftrightarrow> True"
| "closes_last (call # calls) \<longleftrightarrow> (if is_close call then calls = [] else closes_last calls)"

definition client_messages :: "bytes list" where
  "client_messages = map client_packet [1..<11] @ [large_data]"

definition client_requests :: "request list" where
  "client_requests = replicate 10 (Up_To 1024) @ [Exactly 20000]"

lemma client_packet_ne: "client_packet i \<noteq> []"
  by (simp add: client_packet_def as_bytes_def)

lemma client_packet_small: "\<forall>i \<in> set [1..<11]. length (client_packet i) \<le> 1024"
  by code_simp

lemma client_messages_ok:
  "[] \<notin> set client_messages" "list_all (\<lambda>d. length d \<le> MAX_SEGMENTED) client_messages" "length client_messages = 11"
proof -
  have "length d \<le> MAX_SEGMENTED" if "d \<in> set (map client_packet [1..<11])" for d
  proof -
    from that client_packet_small have "length d \<le> 1024" by (auto simp del: upt_rec_numeral)
    then show ?thesis by (simp add: MAX_SEGMENTED_eq)
  qed
  moreover have "length large_data \<le> MAX_SEGMENTED" by (simp add: large_data_def MAX_SEGMENTED_eq)
  ultimately show "list_all (\<lambda>d. length d \<le> MAX_SEGMENTED) client_messages"
    by (auto simp: client_messages_def list_all_iff simp del: upt_rec_numeral)
  show "[] \<notin> set client_messages" "length client_messages = 11"
    by (auto simp: client_messages_def large_data_def client_packet_ne [symmetric] simp del: upt_rec_numeral
        dest: sym)
qed

text \<open>The course of the program, and its relation to what it has written and read.\<close>

definition client_plan :: "('w, 'ch, 'pc, 'q, 'r) client \<Rightarrow> bool" where
  "client_plan c \<longleftrightarrow>
     written c @ concat (map to_write (todo c)) = client_messages \<and>
     bytes_read (client_reading c) = concat (replies c) @ concat (map partly_read (todo c)) \<and>
     concat (map partly_read (tl (todo c))) = [] \<and>
     (\<exists>reqs. reqs @ concat (map requested (todo c)) = client_requests \<and> list_all2 fits reqs (replies c)) \<and>
     list_all call_ok (todo c) \<and> closes_last (todo c) \<and>
     (closed (stream_session (client_stream c)) \<longrightarrow> list_all is_close (todo c)) \<and>
     (outcome c = Some (Inr ()) \<longrightarrow> todo c = [])"

text \<open>While it has not failed, the writer is as theory Stream has it; the errors are those of WebRTC.\<close>

definition webrtc_failure :: "client_error \<Rightarrow> bool" where
  "webrtc_failure e \<longleftrightarrow> (\<exists>t. e = Client_Io (io_other (DataChannel t)) \<or> e = Client_Error (WebRtc t))"

definition client_writes ::
    "('ch \<Rightarrow> 'w \<Rightarrow> bytes list) \<Rightarrow> 'ch \<Rightarrow> ('w, 'ch, 'pc, 'q, 'r) client \<Rightarrow> bool" where
  "client_writes wire ch c \<longleftrightarrow>
     (case outcome c of
        Some (Inl e) \<Rightarrow> webrtc_failure e \<and> prefix (wire ch (client_world c)) (concat (map message_frames client_messages))
      | _ \<Rightarrow> writer_inv wire ch (client_stream c, client_world c, written c))"

definition client_inv ::
    "('ch \<Rightarrow> 'w \<Rightarrow> bytes list) \<Rightarrow> 'ch \<Rightarrow> bool \<Rightarrow> ('q \<Rightarrow> bytes list) \<Rightarrow> ('q \<Rightarrow> nat) \<Rightarrow> nat \<Rightarrow>
     (('ch, 'pc, 'q) net_stream, 'r) stream_reader \<Rightarrow> ('w, 'ch, 'pc, 'q, 'r) client \<Rightarrow> bool" where
  "client_inv wire ch dbg queued cap n Rd c \<longleftrightarrow>
     reading_inv dbg queued cap n Rd (client_reading c) \<and> client_writes wire ch c \<and> client_plan c"

lemma quiet_tl: "\<forall>call \<in> set calls. partly_read call = [] \<Longrightarrow> call \<in> set (tl calls) \<Longrightarrow> partly_read call = []"
  by (cases calls) auto

lemma closes_last_tail: "closes_last (call # calls) \<Longrightarrow> closes_last calls"
  by (auto split: if_splits)

lemma client_turns:
  "concat (map to_write (concat (map client_turn is))) = map client_packet is"
  "concat (map requested (concat (map client_turn is))) = replicate (length is) (Up_To 1024)"
  "concat (map partly_read (concat (map client_turn is))) = []"
  "list_all call_ok (concat (map client_turn is))"
  "closes_last (concat (map client_turn is) @ calls) = closes_last calls"
  by (induction "is") (simp_all add: client_turn_def client_packet_ne)

lemma client_tails:
  "concat (map to_write client_tail) = [large_data]" "concat (map requested client_tail) = [Exactly 20000]"
  "concat (map partly_read client_tail) = []" "list_all call_ok client_tail" "closes_last client_tail"
  by (simp_all add: client_tail_def large_data_def)

lemma client_program_quiet: "concat (map partly_read (tl client_program)) = []"
proof -
  have "concat (map partly_read client_program) = []"
    by (simp add: client_program_def client_turns client_tails del: upt_rec_numeral concat_eq_Nil_conv One_nat_def)
  then show ?thesis by (auto simp: concat_eq_Nil_conv intro: quiet_tl)
qed

lemma client_start_plan:
  assumes "\<not> closed s"
  shows "client_plan (client_start Rd s w)"
proof -
  have "length [1 ..< (11 :: nat)] = 10" by simp
  then show ?thesis
    using assms client_program_quiet
    by (simp add: client_plan_def client_start_def client_program_def client_messages_def client_requests_def
        byte_start_def client_stream_def from_session_def client_turns client_tails
        del: upt_rec_numeral concat_eq_Nil_conv One_nat_def)
qed

lemma client_writes_prefix:
  assumes "client_inv wire ch dbg queued cap n Rd c"
  shows "prefix (wire ch (client_world c)) (concat (map message_frames client_messages))"
proof -
  from assms have writes: "client_writes wire ch c" and plan: "written c @ concat (map to_write (todo c)) = client_messages"
    by (simp_all add: client_inv_def client_plan_def)
  show ?thesis
  proof (cases "\<exists>e. outcome c = Some (Inl e)")
    case True
    with writes show ?thesis by (auto simp: client_writes_def)
  next
    case False
    with writes have "writer_inv wire ch (client_stream c, client_world c, written c)"
      by (auto simp: client_writes_def split: option.splits sum.splits)
    then obtain fs where "wire ch (client_world c) @ fs = concat (map message_frames (written c))"
      by (auto simp: writer_inv_def)
    with plan show ?thesis by (metis concat_append map_append prefixI prefix_prefix)
  qed
qed

section \<open>It keeps its course\<close>

lemma with_simps [simp]:
  "byte_reader (with_stream st b) = (fst (byte_reader b), st)" "bytes_read (with_stream st b) = bytes_read b"
  "byte_reader (with_read r p b) = p" "bytes_read (with_read r p b) = bytes_read b @ read_out r"
  "byte_frames (with_stream st b) = byte_frames b" "byte_frames (with_read r p b) = byte_frames b"
  "byte_handler (with_stream st b) = byte_handler b" "byte_handler (with_read r p b) = byte_handler b"
  by (simp_all add: with_stream_def with_read_def)

lemma client_stream_simps [simp]:
  "client_stream (c\<lparr>client_reading := with_stream st b, client_world := w\<rparr>) = st"
  "client_stream (c\<lparr>todo := calls\<rparr>) = client_stream c"
  "client_stream (c\<lparr>todo := calls, written := ds\<rparr>) = client_stream c"
  "client_stream (c\<lparr>todo := calls, replies := ds\<rparr>) = client_stream c"
  "client_stream (c\<lparr>outcome := r\<rparr>) = client_stream c"
  "client_stream (c\<lparr>client_reading := with_read q p b\<rparr>) = snd p"
  by (simp_all add: client_stream_def)

lemma unfailed:
  "outcome c = None \<Longrightarrow> client_writes wire ch c \<longleftrightarrow> writer_inv wire ch (client_stream c, client_world c, written c)"
  by (simp add: client_writes_def)

lemma client_write_inv:
  assumes P: "polled_wire_whole P wire" and inv: "client_inv wire ch dbg queued cap n Rd c" and on: "outcome c = None"
    and calls: "todo c = Call_Write buf # calls" and "buf \<noteq> []"
    and poll: "poll_write dbg P (client_stream c) buf (client_world c) = Ran (r, st, w)"
  shows "client_inv wire ch dbg queued cap n Rd
    (client_wrote buf calls r (c\<lparr>client_reading := with_stream st (client_reading c), client_world := w\<rparr>))"
proof -
  from inv on have writer: "writer_inv wire ch (client_stream c, client_world c, written c)"
    and plan: "client_plan c" and reading: "reading_inv dbg queued cap n Rd (client_reading c)"
    by (simp_all add: client_inv_def unfailed)
  from plan calls \<open>buf \<noteq> []\<close> have msgs: "(written c @ [buf]) @ concat (map to_write calls) = client_messages"
    by (simp add: client_plan_def)
  then have small: "length buf \<le> MAX_SEGMENTED" using client_messages_ok(2) by (auto simp flip: msgs)
  have live: "\<not> closed (stream_session (client_stream c))" using plan calls by (auto simp: client_plan_def)
  note keeps = write_keeps [OF poll]
  have "stream_session st = (stream_session (snd (byte_reader (client_reading c))))\<lparr>closed := closed (stream_session st)\<rparr>"
    using keeps by (simp add: client_stream_def)
  from reading_with_stream [OF reading this] keeps
  have reading': "reading_inv dbg queued cap n Rd (with_stream st (client_reading c))" by (simp add: client_stream_def)
  show ?thesis
  proof (cases "\<exists>e. r = Ready (Inl e)")
    case True
    then obtain e where r: "r = Ready (Inl e)" by blast
    from write_part [OF P writer poll [unfolded r] live small]
    have part: "prefix (wire ch w) (concat (map message_frames (written c @ [buf])))"
      and err: "\<exists>t. e = io_other (DataChannel t)" by blast+
    from part have "prefix (wire ch w) (concat (map message_frames client_messages))"
      by (simp only: msgs [symmetric] map_append [of _ "written c @ [buf]"] concat_append prefix_prefix)
    with reading' plan keeps err r show ?thesis
      by (auto simp: client_inv_def client_wrote_def client_fails_def client_writes_def webrtc_failure_def client_plan_def)
  next
    case False
    then have ok: "\<forall>e. r \<noteq> Ready (Inl e)" by blast
    note after = write_inv [OF polled_wire_wholeD(1) [OF P] writer poll this]
    show ?thesis
    proof (cases r)
      case Pending
      with after reading' plan keeps on show ?thesis
        by (simp add: client_inv_def client_wrote_def unfailed client_plan_def)
    next
      case (Ready x)
      with after have x: "r = Ready (Inr (length buf))" and w: "writer_inv wire ch (st, w, written c @ [buf])" by auto
      show ?thesis
        using x w reading' plan keeps on calls \<open>buf \<noteq> []\<close> live
        by (auto simp: client_inv_def client_wrote_def unfailed client_plan_def)
    qed
  qed
qed

lemma client_flush_inv:
  assumes P: "polled_wire_whole P wire" and inv: "client_inv wire ch dbg queued cap n Rd c" and on: "outcome c = None"
    and calls: "todo c = Call_Flush # calls"
    and poll: "poll_flush dbg P (client_stream c) (client_world c) = Ran (r, st, w)"
  shows "client_inv wire ch dbg queued cap n Rd
    (client_flushed calls r (c\<lparr>client_reading := with_stream st (client_reading c), client_world := w\<rparr>))"
proof -
  from inv on have writer: "writer_inv wire ch (client_stream c, client_world c, written c)"
    and plan: "client_plan c" and reading: "reading_inv dbg queued cap n Rd (client_reading c)"
    by (simp_all add: client_inv_def unfailed)
  note keeps = flush_keeps [OF poll]
  have "stream_session st = (stream_session (snd (byte_reader (client_reading c))))\<lparr>closed := closed (stream_session st)\<rparr>"
    using keeps by (simp add: client_stream_def)
  from reading_with_stream [OF reading this] keeps
  have reading': "reading_inv dbg queued cap n Rd (with_stream st (client_reading c))" by (simp add: client_stream_def)
  show ?thesis
  proof (cases "\<exists>e. r = Ready (Inl e)")
    case True
    then obtain e where r: "r = Ready (Inl e)" by blast
    from flush_part [OF P writer poll [unfolded r]]
    have part: "prefix (wire ch w) (concat (map message_frames (written c)))"
      and err: "\<exists>t. e = io_other (DataChannel t)" by blast+
    from plan have "written c @ concat (map to_write (todo c)) = client_messages" by (simp add: client_plan_def)
    with part have "prefix (wire ch w) (concat (map message_frames client_messages))"
      by (metis concat_append map_append prefix_prefix)
    with reading' plan keeps err r show ?thesis
      by (auto simp: client_inv_def client_flushed_def client_fails_def client_writes_def webrtc_failure_def client_plan_def)
  next
    case False
    then have ok: "\<forall>e. r \<noteq> Ready (Inl e)" by blast
    with flush_inv [OF polled_wire_wholeD(1) [OF P] writer poll this] reading' plan keeps on calls show ?thesis
      by (auto simp: client_inv_def client_flushed_def unfailed client_plan_def dest: quiet_tl split: poll.split sum.split)
  qed
qed

lemma client_read_keeps:
  assumes M: "mpsc_ok M queued cap" and Rd: "stream_reader_ok Rd"
    and inv: "client_inv wire ch dbg queued cap n Rd c" and on: "outcome c = None"
    and poll: "poll_read Rd M k (byte_reader (client_reading c)) = (r, p)"
  shows "reading_inv dbg queued cap n Rd (with_read r p (client_reading c))"
    and "writer_inv wire ch (snd p, client_world c, written c)"
    and "closed (stream_session (snd p)) = closed (stream_session (client_stream c))"
proof -
  from inv on have writer: "writer_inv wire ch (client_stream c, client_world c, written c)"
    and reading: "reading_inv dbg queued cap n Rd (client_reading c)" by (simp_all add: client_inv_def unfailed)
  from Byte_Read [OF poll, of dbg undefined] have "byte_step dbg undefined M Rd (client_reading c) (with_read r p (client_reading c))"
    by (simp add: with_read_def)
  from reading_step [OF M Rd this reading] show "reading_inv dbg queued cap n Rd (with_read r p (client_reading c))" .
  note keeps = poll_read_keeps [OF Rd poll]
  with writer show "writer_inv wire ch (snd p, client_world c, written c)" by (simp add: writer_inv_def client_stream_def)
  from keeps show "closed (stream_session (snd p)) = closed (stream_session (client_stream c))" by (simp add: client_stream_def)
qed

lemma client_read_inv:
  assumes M: "mpsc_ok M queued cap" and Rd: "stream_reader_ok Rd"
    and inv: "client_inv wire ch dbg queued cap n Rd c" and on: "outcome c = None"
    and calls: "todo c = Call_Read k # calls"
    and poll: "poll_read Rd M k (byte_reader (client_reading c)) = (r, p)"
  shows "client_inv wire ch dbg queued cap n Rd
    (client_read calls r (c\<lparr>client_reading := with_read r p (client_reading c)\<rparr>))"
proof -
  from inv have plan: "client_plan c" by (simp add: client_inv_def)
  note keeps = client_read_keeps [OF M Rd inv on poll]
  from plan calls have "0 < k" and live: "\<not> closed (stream_session (client_stream c))"
    and quiet: "concat (map partly_read calls) = []" by (auto simp: client_plan_def)
  with poll_read_open [OF Rd M poll] have res: "\<forall>e. r \<noteq> Ready (Inl e)" "r \<noteq> Ready (Inr [])" "length (read_out r) \<le> k"
    by (auto simp: client_stream_def)
  show ?thesis
  proof (cases r)
    case Pending
    with keeps plan on calls show ?thesis
      by (simp add: client_inv_def client_read_def unfailed client_plan_def)
  next
    case (Ready x)
    with res obtain d where d: "r = Ready (Inr d)" "d \<noteq> []" "length d \<le> k" by (cases x) auto
    from plan calls obtain reqs where "reqs @ Up_To k # concat (map requested calls) = client_requests"
      and "list_all2 fits reqs (replies c)" by (auto simp: client_plan_def)
    with d have "(reqs @ [Up_To k]) @ concat (map requested calls) = client_requests"
      and "list_all2 fits (reqs @ [Up_To k]) (replies c @ [d])" by (simp_all add: list_all2_appendI)
    then have "\<exists>reqs. reqs @ concat (map requested calls) = client_requests \<and> list_all2 fits reqs (replies c @ [d])" by blast
    moreover have "concat (map partly_read (tl calls)) = []" using quiet by (cases calls) auto
    moreover have "bytes_read (client_reading c) = concat (replies c)" using plan calls quiet by (simp add: client_plan_def)
    ultimately show ?thesis
      using keeps plan on calls live quiet d closes_last_tail [of "Call_Read k" calls]
      by (simp add: client_inv_def client_read_def unfailed client_plan_def)
  qed
qed

lemma client_read_more_inv:
  assumes M: "mpsc_ok M queued cap" and Rd: "stream_reader_ok Rd"
    and inv: "client_inv wire ch dbg queued cap n Rd c" and on: "outcome c = None"
    and calls: "todo c = Call_Read_Exact k got # calls" and "length got \<noteq> k"
    and poll: "poll_read Rd M (k - length got) (byte_reader (client_reading c)) = (r, p)"
  shows "client_inv wire ch dbg queued cap n Rd
    (client_read_more k got calls r (c\<lparr>client_reading := with_read r p (client_reading c)\<rparr>))"
proof -
  from inv have plan: "client_plan c" by (simp add: client_inv_def)
  note keeps = client_read_keeps [OF M Rd inv on poll]
  from plan calls \<open>length got \<noteq> k\<close> have "0 < k - length got" and live: "\<not> closed (stream_session (client_stream c))"
    and quiet: "concat (map partly_read calls) = []" by (auto simp: client_plan_def)
  with poll_read_open [OF Rd M poll] have res: "\<forall>e. r \<noteq> Ready (Inl e)" "r \<noteq> Ready (Inr [])"
    "length (read_out r) \<le> k - length got"
    by (auto simp: client_stream_def)
  show ?thesis
  proof (cases r)
    case Pending
    with keeps plan on calls show ?thesis
      by (simp add: client_inv_def client_read_more_def unfailed client_plan_def)
  next
    case (Ready x)
    with res \<open>0 < k - length got\<close> obtain d where d: "r = Ready (Inr d)" "d \<noteq> []" "length got + length d \<le> k"
      by (cases x) auto
    have "bytes_read (client_reading c) = concat (replies c) @ got" using plan calls quiet by (simp add: client_plan_def)
    then show ?thesis
      using keeps plan on calls live quiet d
      by (simp add: client_inv_def client_read_more_def unfailed client_plan_def)
  qed
qed

lemma client_exact_inv:
  assumes inv: "client_inv wire ch dbg queued cap n Rd c" and on: "outcome c = None"
    and calls: "todo c = Call_Read_Exact k got # calls" and "length got = k"
  shows "client_inv wire ch dbg queued cap n Rd (c\<lparr>todo := calls, replies := replies c @ [got]\<rparr>)"
proof -
  from inv have plan: "client_plan c" by (simp add: client_inv_def)
  from plan calls have quiet: "concat (map partly_read calls) = []" by (simp add: client_plan_def)
  then have "concat (map partly_read (tl calls)) = []" by (cases calls) auto
  moreover from plan calls obtain reqs where "reqs @ Exactly k # concat (map requested calls) = client_requests"
    and "list_all2 fits reqs (replies c)" by (auto simp: client_plan_def)
  with \<open>length got = k\<close> have "(reqs @ [Exactly k]) @ concat (map requested calls) = client_requests"
    and "list_all2 fits (reqs @ [Exactly k]) (replies c @ [got])" by (simp_all add: list_all2_appendI)
  then have "\<exists>reqs. reqs @ concat (map requested calls) = client_requests \<and> list_all2 fits reqs (replies c @ [got])" by blast
  ultimately show ?thesis
    using inv on calls quiet closes_last_tail [of "Call_Read_Exact k got" calls]
    by (simp add: client_inv_def unfailed client_plan_def)
qed

lemma client_close_inv:
  assumes P: "polled_wire_whole P wire" and inv: "client_inv wire ch dbg queued cap n Rd c" and on: "outcome c = None"
    and calls: "todo c = Call_Close fut # calls"
    and poll: "poll_close P (stream_session (client_stream c)) fut (client_world c) = (q, s, w)"
  shows "client_inv wire ch dbg queued cap n Rd (client_closed calls q
    (c\<lparr>client_reading := with_stream ((client_stream c)\<lparr>stream_session := s\<rparr>) (client_reading c), client_world := w\<rparr>))"
proof -
  from inv on have writer: "writer_inv wire ch (client_stream c, client_world c, written c)"
    and plan: "client_plan c" and reading: "reading_inv dbg queued cap n Rd (client_reading c)"
    by (simp_all add: client_inv_def unfailed)
  from plan calls have last: "calls = []" and msgs: "written c = client_messages" by (auto simp: client_plan_def)
  from poll_close_wire [OF polled_wire_wholeD(1) [OF P] poll] have s: "wire ch w = wire ch (client_world c)"
    "s = (stream_session (client_stream c))\<lparr>closed := closed (stream_session (client_stream c)) \<or> fut = Close_Start\<rparr>"
    by blast+
  from reading_with_stream [OF reading, of "(client_stream c)\<lparr>stream_session := s\<rparr>"] s(2)
  have reading': "reading_inv dbg queued cap n Rd (with_stream ((client_stream c)\<lparr>stream_session := s\<rparr>) (client_reading c))"
    by (simp add: client_stream_def)
  have writer': "writer_inv wire ch ((client_stream c)\<lparr>stream_session := s\<rparr>, w, written c)"
    using writer s by (simp add: writer_inv_def)
  then have part: "prefix (wire ch w) (concat (map message_frames client_messages))"
    using msgs by (auto simp: writer_inv_def intro: prefixI [OF sym])
  show ?thesis
    using reading' writer' part plan calls last on poll_close_error [of P _ fut _ _ s w] poll
    by (auto simp: client_inv_def client_closed_def unfailed client_plan_def client_fails_def client_writes_def
        webrtc_failure_def split: progress.split sum.split)
qed

lemma client_poll_inv:
  assumes P: "polled_wire_whole P wire" and M: "mpsc_ok M queued cap" and Rd: "stream_reader_ok Rd"
    and inv: "client_inv wire ch dbg queued cap n Rd c" and on: "outcome c = None"
    and poll: "client_poll dbg P M Rd (todo c) c = Ran c'"
  shows "client_inv wire ch dbg queued cap n Rd c'"
proof (cases "todo c")
  case Nil
  with poll inv on show ?thesis by (auto simp: client_inv_def client_writes_def client_plan_def)
next
  case (Cons call calls)
  show ?thesis
  proof (cases call)
    case (Call_Write buf)
    show ?thesis
    proof (cases "buf = []")
      case True
      with poll inv on Cons Call_Write closes_last_tail [of call calls] show ?thesis
        by (cases calls) (auto simp: client_inv_def client_writes_def client_plan_def)
    next
      case False
      with poll Cons Call_Write client_write_inv [OF P inv on Cons [unfolded Call_Write] False] show ?thesis
        by (auto simp: run_bind_Ran_iff)
    qed
  next
    case Call_Flush
    with poll Cons client_flush_inv [OF P inv on Cons [unfolded Call_Flush]] show ?thesis
      by (auto simp: run_bind_Ran_iff)
  next
    case (Call_Read k)
    with poll Cons client_read_inv [OF M Rd inv on Cons [unfolded Call_Read]] show ?thesis
      by (auto split: prod.splits)
  next
    case (Call_Read_Exact k got)
    with poll Cons client_read_more_inv [OF M Rd inv on Cons [unfolded Call_Read_Exact]]
      client_exact_inv [OF inv on Cons [unfolded Call_Read_Exact]] show ?thesis
      by (auto split: prod.splits if_splits)
  next
    case (Call_Close fut)
    with poll Cons client_close_inv [OF P inv on Cons [unfolded Call_Close]] show ?thesis
      by (auto split: prod.splits)
  qed
qed

text \<open>A step of the handler.\<close>

lemma client_handler_inv:
  assumes "client_inv wire ch dbg queued cap n Rd c" and "outcome c = None"
    and "reading_inv dbg queued cap n Rd b" and "bytes_read b = bytes_read (client_reading c)"
    and "send_future (snd (byte_reader b)) = send_future (client_stream c)"
    and "reliable_channel (stream_session (snd (byte_reader b))) = reliable_channel (stream_session (client_stream c))"
    and "closed (stream_session (snd (byte_reader b))) = closed (stream_session (client_stream c))"
  shows "client_inv wire ch dbg queued cap n Rd (c\<lparr>client_reading := b\<rparr>)"
  using assms by (simp add: client_inv_def unfailed client_plan_def client_stream_def writer_inv_def)

lemma client_step_inv:
  assumes P: "polled_wire_whole P wire" and M: "mpsc_ok M queued cap" and Rd: "stream_reader_ok Rd"
    and "client_step dbg P M Rd c c'" and inv: "client_inv wire ch dbg queued cap n Rd c"
  shows "client_inv wire ch dbg queued cap n Rd c'"
  using assms(4)
proof cases
  case Client_Poll
  with client_poll_inv [OF P M Rd inv] show ?thesis by blast
next
  case (Client_Frame b data out s)
  from inv Client_Frame(3) have "reading_inv dbg queued cap n Rd b" by (simp add: client_inv_def)
  note read = reading_step [OF M Rd Byte_Frame [OF Client_Frame(4,5), of undefined M Rd] this]
  show ?thesis
    unfolding Client_Frame(1)
    by (rule client_handler_inv [OF inv Client_Frame(2) read])
      (use Client_Frame(3) session_ops_channel(1) [OF Client_Frame(5)] session_ops_closed(1) [OF Client_Frame(5)] in
        \<open>simp_all add: with_session_def byte_session_def client_stream_def\<close>)
next
  case (Client_Panic b data)
  from inv Client_Panic(3) have "reading_inv dbg queued cap n Rd b" by (simp add: client_inv_def)
  note read = reading_step [OF M Rd Byte_Panic [OF Client_Panic(4,5), of undefined M Rd] this]
  show ?thesis
    unfolding Client_Panic(1)
    by (rule client_handler_inv [OF inv Client_Panic(2) read])
      (use Client_Panic in \<open>auto simp: client_stream_def\<close>)
next
  case (Client_Forward b d s)
  from inv Client_Forward(3) have "reading_inv dbg queued cap n Rd b" by (simp add: client_inv_def)
  note read = reading_step [OF M Rd Byte_Forward [OF Client_Forward(4,5), of dbg undefined Rd] this]
  show ?thesis
    unfolding Client_Forward(1)
    by (rule client_handler_inv [OF inv Client_Forward(2) read])
      (use Client_Forward(3) session_ops_channel(2) [OF Client_Forward(5)] session_ops_closed(2) [OF Client_Forward(5)] in
        \<open>simp_all add: with_session_def byte_session_def client_stream_def\<close>)
qed

end
