(* ===== verification/Example_Run.thy ===== *)
theory Example_Run
  imports Client Echo
begin

text \<open>
  The two example programs (src/examples/client.rs, src/examples/server.rs) together: the client of
  theory Client over its stream and the task of the server of theory Echo over its session. The frames
  each side takes in are those the other side has put on the wire, in order. Shown is that in every
  reachable state the client's replies are its own messages, and a run in which it gets all of them.
\<close>

section \<open>Both programs\<close>

text \<open>Each side takes in, in order, what is on the wire of the other side's channel.\<close>

inductive example_step ::
    "bool \<Rightarrow> ('w, 'ch, 'pc) polled_rtc \<Rightarrow> ('q, bytes) mpsc \<Rightarrow> (('ch, 'pc, 'q) net_stream, 'r) stream_reader \<Rightarrow>
     bool \<Rightarrow> ('w2, 'ch2, 'pc2) rtc \<Rightarrow> ('w \<Rightarrow> bytes list) \<Rightarrow> ('w2 \<Rightarrow> bytes list) \<Rightarrow>
     ('w, 'ch, 'pc, 'q, 'r) client \<times> ('w2, 'ch2, 'pc2, 'q) echo \<Rightarrow>
     ('w, 'ch, 'pc, 'q, 'r) client \<times> ('w2, 'ch2, 'pc2, 'q) echo \<Rightarrow> bool"
  for dbg P M Rd dbg' R to_server to_client where
  At_Client: "client_step dbg P M Rd c c' \<Longrightarrow>
    prefix (byte_frames (client_reading c')) (to_client (echo_world x)) \<Longrightarrow>
    example_step dbg P M Rd dbg' R to_server to_client (c, x) (c', x)"
| At_Server: "echo_step dbg' R M x x' \<Longrightarrow>
    prefix (frames_in (echo_session x')) (to_server (client_world c)) \<Longrightarrow>
    example_step dbg P M Rd dbg' R to_server to_client (c, x) (c, x')"

section \<open>The programs together\<close>

lemma frames_mono: "prefix ds es \<Longrightarrow> prefix (concat (map message_frames ds)) (concat (map message_frames es))"
  by (auto simp: prefix_def)

lemma echo_received_grows: "echo_step dbg R M x y \<Longrightarrow> prefix (received (echo_session x)) (received (echo_session y))"
  by (induction rule: echo_step.induct)
    (auto simp: echo_received_def echo_sent_def Let_def split: sum.split option.split run.split)

definition example_inv ::
    "('w \<Rightarrow> bytes list) \<Rightarrow> (('w, 'ch, 'pc, 'q, 'r) client \<Rightarrow> bool) \<Rightarrow> (('w2, 'ch2, 'pc2, 'q) echo \<Rightarrow> bool) \<Rightarrow>
     ('w, 'ch, 'pc, 'q, 'r) client \<times> ('w2, 'ch2, 'pc2, 'q) echo \<Rightarrow> bool" where
  "example_inv to_server at_client at_server = (\<lambda>(c, x).
     at_client c \<and> at_server x \<and>
     prefix (frames_in (echo_session x)) (concat (map message_frames client_messages)) \<and>
     prefix (byte_frames (client_reading c)) (concat (map message_frames (received (echo_session x)))))"

definition server_inv ::
    "('ch \<Rightarrow> 'w \<Rightarrow> bytes list) \<Rightarrow> 'ch \<Rightarrow> bool \<Rightarrow> ('q \<Rightarrow> bytes list) \<Rightarrow> ('q \<Rightarrow> nat) \<Rightarrow> nat \<Rightarrow> ('w, 'ch, 'pc, 'q) echo \<Rightarrow> bool" where
  "server_inv wire ch dbg queued cap n x \<longleftrightarrow>
     echo_inv wire ch x \<and> session_inv dbg queued cap n (echo_session x)"

lemma server_inv_start:
  assumes "mpsc_ok M queued cap" and "session_with_capacity M pc n = Ran t" and "wire ch w = []"
  shows "server_inv wire ch dbg queued cap n (echo_start (set_reliable_channel t ch) w)"
  using session_inv_start [OF assms(1,2), of dbg] assms(3)
  by (simp add: server_inv_def echo_inv_def echo_start_def running_start_def set_reliable_channel_def
      in_echo_def session_inv_def accumulator_def)

lemma server_step_inv:
  assumes R: "wire_whole R wire" and M: "mpsc_ok M queued cap" and step: "echo_step dbg R M x y"
    and inv: "server_inv wire ch dbg queued cap n x"
  shows "server_inv wire ch dbg queued cap n y"
  using echo_step_inv [OF R step] session_steps_inv [OF M _ echo_step_refines [OF M step]] inv
  by (simp add: server_inv_def)

lemma example_reach_inv:
  assumes P: "polled_wire_whole P wire1" and R: "wire_whole R wire2" and M: "mpsc_ok M queued cap"
    and Rd: "stream_reader_ok Rd" and t: "session_with_capacity M pc n = Ran t"
    and u: "session_with_capacity M pc' n' = Ran u" and "wire1 ch1 w1 = []" and "wire2 ch2 w2 = []"
    and "(example_step dbg P M Rd dbg' R (wire1 ch1) (wire2 ch2))\<^sup>*\<^sup>*
      (client_start Rd (set_reliable_channel t ch1) w1, echo_start (set_reliable_channel u ch2) w2) cx"
  shows "example_inv (wire1 ch1) (client_inv wire1 ch1 dbg queued cap n Rd)
    (server_inv wire2 ch2 dbg' queued cap n') cx"
  using assms(9)
proof induction
  case base
  from t have "\<not> closed t" by (auto simp: session_with_capacity_def run_bind_Ran_iff)
  then have "client_plan (client_start Rd (set_reliable_channel t ch1) w1)"
    by (intro client_start_plan) (simp add: set_reliable_channel_def)
  moreover have "client_writes wire1 ch1 (client_start Rd (set_reliable_channel t ch1) w1)"
    using assms(7) by (simp add: client_writes_def client_start_def writer_inv_def client_stream_def byte_start_def
        from_session_def set_reliable_channel_def)
  ultimately show ?case
    using reading_start_inv [OF M t Rd] server_inv_start [OF M u, of wire2 ch2 w2] assms(8)
    by (simp add: example_inv_def client_inv_def)
      (simp add: client_start_def echo_start_def running_start_def byte_start_def)
next
  case (step y z)
  from step(2) show ?case
  proof cases
    case (At_Client c c' x)
    with step(3) have inv: "client_inv wire1 ch1 dbg queued cap n Rd c" "server_inv wire2 ch2 dbg' queued cap n' x"
      by (simp_all add: example_inv_def)
    from inv(2) have "prefix (wire2 ch2 (echo_world x)) (concat (map message_frames (received (echo_session x))))"
      by (simp add: server_inv_def echo_inv_def)
    with At_Client(4) have "prefix (byte_frames (client_reading c')) (concat (map message_frames (received (echo_session x))))"
      by (rule prefix_order.order_trans)
    with client_step_inv [OF P M Rd At_Client(3) inv(1)] step(3) At_Client(1,2) show ?thesis
      by (simp add: example_inv_def)
  next
    case (At_Server x x' c)
    with step(3) have inv: "client_inv wire1 ch1 dbg queued cap n Rd c" "server_inv wire2 ch2 dbg' queued cap n' x"
      and old: "prefix (byte_frames (client_reading c)) (concat (map message_frames (received (echo_session x))))"
      by (simp_all add: example_inv_def)
    from At_Server(4) client_writes_prefix [OF inv(1)]
    have "prefix (frames_in (echo_session x')) (concat (map message_frames client_messages))"
      by (rule prefix_order.order_trans)
    moreover from old frames_mono [OF echo_received_grows [OF At_Server(3)]]
    have "prefix (byte_frames (client_reading c)) (concat (map message_frames (received (echo_session x'))))"
      by (rule prefix_order.order_trans)
    ultimately show ?thesis
      using server_step_inv [OF R M At_Server(3) inv(2)] inv(1) At_Server(1,2) by (simp add: example_inv_def)
  qed
qed

text \<open>What this says of the server's task, and of the client.\<close>

lemma served:
  assumes inv: "server_inv wire ch dbg queued cap n x"
    and there: "prefix (frames_in (echo_session x)) (concat (map message_frames client_messages))"
  shows "prefix (received (echo_session x)) client_messages" and "echo_phase x \<noteq> Echo_Panicked"
    and "sint (packet_count x) = int (length (received (echo_session x)))"
proof -
  note msgs = client_messages_ok
  from inv have srv: "echo_inv wire ch x" "session_inv dbg queued cap n (echo_session x)" by (simp_all add: server_inv_def)
  from there obtain rest where "concat (map message_frames client_messages) = frames_in (echo_session x) @ rest"
    by (auto simp: prefix_def)
  from receives_prefix [OF srv(2) frames_of_sendable [OF msgs(2,1), folded message_frames_def] this] obtain more where
    "received (echo_session x) @ more = client_messages" by auto
  then show got: "prefix (received (echo_session x)) client_messages" by (metis prefixI)
  then have few: "length (received (echo_session x)) \<le> 11" using msgs(3) by (metis prefix_length_le)
  with srv(1) show "echo_phase x \<noteq> Echo_Panicked" by (auto simp: echo_inv_def)
  with srv(1) have "packet_count x = word_of_nat (length (received (echo_session x)))" by (simp add: echo_inv_def)
  with few show "sint (packet_count x) = int (length (received (echo_session x)))"
    by (simp add: signed_of_nat signed_take_bit_int_eq_self)
qed

lemma client_replies:
  assumes "client_plan c"
  shows "list_all2 fits (take (length (replies c)) client_requests) (replies c)"
    and "outcome c = Some (Inr ()) \<Longrightarrow> written c = client_messages \<and> list_all2 fits client_requests (replies c) \<and>
      length (replies c) = 11 \<and> length (last (replies c)) = 20000"
proof -
  from assms obtain reqs where
    reqs: "reqs @ concat (map requested (todo c)) = client_requests" "list_all2 fits reqs (replies c)"
    by (auto simp: client_plan_def)
  then show "list_all2 fits (take (length (replies c)) client_requests) (replies c)"
    by (metis append_eq_conv_conj list_all2_lengthD)
  assume "outcome c = Some (Inr ())"
  with assms have "todo c = []" by (simp add: client_plan_def)
  with assms reqs have "written c = client_messages" and fit: "list_all2 fits client_requests (replies c)"
    by (simp_all add: client_plan_def)
  moreover from fit obtain ds d where "replies c = ds @ [d]" "length ds = 10" "length d = 20000"
    unfolding client_requests_def by (auto simp: list_all2_append1 list_all2_Cons1 dest: list_all2_lengthD)
  ultimately show "written c = client_messages \<and> list_all2 fits client_requests (replies c) \<and>
    length (replies c) = 11 \<and> length (last (replies c)) = 20000" by simp
qed

section \<open>A run to the end\<close>

text \<open>Channels that take every frame at once: the world is the list of the frames.\<close>

definition prompt_rtc :: "(bytes list, bool, unit) polled_rtc" where
  "prompt_rtc = \<lparr>poll_dc_send = \<lambda>ch b w. (Ready (Inr ()), w @ [b]), poll_dc_close = \<lambda>ch w. (Ready (Inr ()), w),
     poll_pc_close = \<lambda>_ w. (Ready (Inr ()), w)\<rparr>"

definition prompt_send :: "(bytes list, bool, unit) rtc" where
  "prompt_send = \<lparr>dc_send = \<lambda>ch b w. (Inr (), w @ [b]), dc_close = \<lambda>ch w. (Inr (), w), pc_close = \<lambda>_ w. (Inr (), w),
     ice_connection_state = \<lambda>_ _. IceConnected, sleep_ms = \<lambda>_ w. w\<rparr>"

lemma prompt_ok: "polled_wire_whole prompt_rtc (\<lambda>_ w. w)" "wire_whole prompt_send (\<lambda>_ w. w)"
  by (simp_all add: polled_wire_whole_def polled_wire_ok_def wire_whole_def wire_ok_def prompt_rtc_def prompt_send_def)

text \<open>The states of the run.\<close>

definition run_session :: "message \<Rightarrow> bytes list \<Rightarrow> (bool, unit, bytes list \<times> nat) session" where
  "run_session m q = demo_session\<lparr>message_buffer := m, packet_channel := (q, 4)\<rparr>"

definition run_client ::
    "message \<Rightarrow> bytes list \<Rightarrow> handler \<Rightarrow> bytes list \<Rightarrow> bytes \<Rightarrow> bytes list \<Rightarrow> bool client_call list \<Rightarrow> bytes list \<Rightarrow>
     bytes list \<Rightarrow> (bytes list, bool, unit, bytes list \<times> nat, bytes) client" where
  "run_client m q h fs rd w calls wr rp =
     \<lparr>client_reading = \<lparr>byte_reader = ([], from_session (run_session m q)), byte_handler = h, byte_frames = fs, bytes_read = rd\<rparr>,
      client_world = w, todo = calls, outcome = None, written = wr, replies = rp\<rparr>"

definition run_server ::
    "message \<Rightarrow> bytes list \<Rightarrow> handler \<Rightarrow> bytes list \<Rightarrow> bytes list \<Rightarrow> bytes list \<Rightarrow> echo_phase \<Rightarrow> nat \<Rightarrow> bytes list \<Rightarrow>
     (bytes list, bool, unit, bytes list \<times> nat) echo" where
  "run_server m q h fs got w p k ec =
     \<lparr>echo_session = \<lparr>sess = run_session m q, handler = h, waiting = 0, frames_in = fs, received = got\<rparr>,
      echo_world = w, echo_phase = p, packet_count = word_of_nat k, echoed = ec\<rparr>"

definition run_step ::
    "(bytes list, bool, unit, bytes list \<times> nat, bytes) client \<times> (bytes list, bool, unit, bytes list \<times> nat) echo \<Rightarrow>
     (bytes list, bool, unit, bytes list \<times> nat, bytes) client \<times> (bytes list, bool, unit, bytes list \<times> nat) echo \<Rightarrow> bool" where
  "run_step = example_step True prompt_rtc list_mpsc demo_reader True prompt_send (\<lambda>w. w) (\<lambda>w. w)"

lemmas run_defs = run_client_def run_server_def run_session_def demo_session_def from_session_def

text \<open>The frames of a message: only the last one completes it.\<close>

fun carries :: "message \<Rightarrow> bytes list \<Rightarrow> bytes \<Rightarrow> bool" where
  "carries m [] d \<longleftrightarrow> False"
| "carries m [f] d \<longleftrightarrow> frame_step True (Ran m) f = ([d], Ran message_new)"
| "carries m (f # g # fs) d \<longleftrightarrow> (\<exists>m'. frame_step True (Ran m) f = ([], Ran m') \<and> carries m' (g # fs) d)"

lemma message_carried:
  assumes "d \<noteq> []" and "length d \<le> 20000"
  shows "carries message_new (message_frames d) d"
proof (cases "length d \<le> 10000")
  case True
  with assms(1) have "spec_segments d = [segment_new 0 d]"
    by (simp add: spec_segments_def chunks_short MAX_MESSAGE_SIZE_def)
  with assms(1) show ?thesis
    by (simp add: message_frames_def frame_step_def segment_decode_encode segment_new_def add_segment_eq
        accept_segment_def message_new_def)
next
  case False
  then have ne: "take 10000 d \<noteq> []" "drop 10000 d \<noteq> []" by auto
  from False assms(2) have "spec_segments d = [segment_new 1 (take 10000 d), segment_new 0 (drop 10000 d)]"
    by (intro spec_segments_two) simp_all
  with ne show ?thesis
    by (simp add: message_frames_def frame_step_def segment_decode_encode segment_new_def add_segment_eq
        accept_segment_def message_new_def del: take_eq_Nil drop_eq_Nil)
qed

text \<open>A side takes in the frames of a message.\<close>

lemma on_frame:
  "frame_step True (Ran m) f = (out, Ran m') \<Longrightarrow>
    session_on_message True (run_session m q) f = Ran (if out = [] then None else Some (hd out), run_session m' q)"
  by (simp add: session_on_message_eq run_session_def)

lemma server_takes:
  assumes "carries m fs d" and "prefix (fi @ fs) (client_world c)"
  shows "run_step\<^sup>*\<^sup>* (c, run_server m [] Idle fi got w Receiving k ec)
    (c, run_server message_new [] (Sending d) (fi @ fs) got w Receiving k ec)"
  using assms
proof (induction m fs d arbitrary: fi rule: carries.induct)
  case (2 m f d)
  let ?x = "run_server m [] Idle fi got w Receiving k ec"
  from on_frame [of m f "[d]" message_new "[]"] 2
  have "echo_step True prompt_send list_mpsc ?x (run_server message_new [] (Sending d) (fi @ [f]) got w Receiving k ec)"
    using Echo_Frame [of ?x True f "Some d" "run_session message_new []" prompt_send list_mpsc]
    by (simp add: run_server_def handler_after_def)
  with 2(2) show ?case
    by (intro r_into_rtranclp) (simp add: run_step_def example_step.At_Server run_server_def)
next
  case (3 m f g fs d)
  then obtain m' where m': "frame_step True (Ran m) f = ([], Ran m')" "carries m' (g # fs) d" by auto
  let ?x = "run_server m [] Idle fi got w Receiving k ec" and ?y = "run_server m' [] Idle (fi @ [f]) got w Receiving k ec"
  from on_frame [OF m'(1), of "[]"] have "echo_step True prompt_send list_mpsc ?x ?y"
    using Echo_Frame [of ?x True f None "run_session m' []" prompt_send list_mpsc]
    by (simp add: run_server_def handler_after_def)
  moreover from 3(3) have "prefix (fi @ [f]) (client_world c)" by (auto simp: prefix_def)
  ultimately have "run_step (c, ?x) (c, ?y)" by (simp add: run_step_def example_step.At_Server run_server_def)
  moreover from 3(1) [OF m'(2), of "fi @ [f]"] 3(3) have "run_step\<^sup>*\<^sup>* (c, ?y)
      (c, run_server message_new [] (Sending d) (fi @ f # g # fs) got w Receiving k ec)" by simp
  ultimately show ?case by (rule converse_rtranclp_into_rtranclp)
qed simp

lemma client_takes:
  assumes "carries m fs d" and "prefix (bf @ fs) (echo_world x)"
  shows "run_step\<^sup>*\<^sup>* (run_client m [] Idle bf rd w calls wr rp, x)
    (run_client message_new [] (Sending d) (bf @ fs) rd w calls wr rp, x)"
  using assms
proof (induction m fs d arbitrary: bf rule: carries.induct)
  case (2 m f d)
  let ?c = "run_client m [] Idle bf rd w calls wr rp"
  from on_frame [of m f "[d]" message_new "[]"] 2
  have "client_step True prompt_rtc list_mpsc demo_reader ?c (run_client message_new [] (Sending d) (bf @ [f]) rd w calls wr rp)"
    using Client_Frame [of ?c "client_reading ?c" True f "Some d" "run_session message_new []" prompt_rtc list_mpsc demo_reader]
    by (simp add: run_client_def handler_after_def byte_session_def with_session_def from_session_def)
  with 2(2) show ?case
    by (intro r_into_rtranclp) (simp add: run_step_def example_step.At_Client run_client_def)
next
  case (3 m f g fs d)
  then obtain m' where m': "frame_step True (Ran m) f = ([], Ran m')" "carries m' (g # fs) d" by auto
  let ?c = "run_client m [] Idle bf rd w calls wr rp" and ?c' = "run_client m' [] Idle (bf @ [f]) rd w calls wr rp"
  from on_frame [OF m'(1), of "[]"] have "client_step True prompt_rtc list_mpsc demo_reader ?c ?c'"
    using Client_Frame [of ?c "client_reading ?c" True f None "run_session m' []" prompt_rtc list_mpsc demo_reader]
    by (simp add: run_client_def handler_after_def byte_session_def with_session_def from_session_def)
  moreover from 3(3) have "prefix (bf @ [f]) (echo_world x)" by (auto simp: prefix_def)
  ultimately have "run_step (?c, x) (?c', x)" by (simp add: run_step_def example_step.At_Client run_client_def)
  moreover from 3(1) [OF m'(2), of "bf @ [f]"] 3(3) have "run_step\<^sup>*\<^sup>* (?c', x)
      (run_client message_new [] (Sending d) (bf @ f # g # fs) rd w calls wr rp, x)" by simp
  ultimately show ?case by (rule converse_rtranclp_into_rtranclp)
qed simp

text \<open>The server sends a message back.\<close>

lemma server_step:
  "echo_step True prompt_send list_mpsc x y \<Longrightarrow> prefix (frames_in (echo_session y)) (client_world c) \<Longrightarrow> run_step (c, x) (c, y)"
  by (simp add: run_step_def example_step.At_Server)

lemma prompt_segments: "send_segments prompt_send ch segs w = (Inr (), w @ map segment_encode segs)"
  by (induction segs arbitrary: w) (simp_all add: prompt_send_def)

lemma server_answers:
  assumes "length d \<le> 20000" and "prefix fi (client_world c)" and "k < 100"
  shows "run_step\<^sup>*\<^sup>* (c, run_server message_new [] (Sending d) fi got w Receiving k ec)
    (c, run_server message_new [] Idle fi (got @ [d]) (w @ message_frames d) Receiving (Suc k) (ec @ [d]))"
proof -
  let ?x = "run_server message_new"
  have 1: "run_step (c, ?x [] (Sending d) fi got w Receiving k ec) (c, ?x [d] Idle fi got w Receiving k ec)"
    using assms(2) Echo_Forward [of "?x [] (Sending d) fi got w Receiving k ec" d list_mpsc "run_session message_new [d]"]
    by (intro server_step) (simp_all add: run_server_def session_forward_def list_mpsc_def run_session_def)
  have "sint (word_of_nat k :: i32) = int k"
    using assms(3) by (simp add: signed_of_nat signed_take_bit_int_eq_self)
  then have count: "i32_increment True (word_of_nat k) = Ran (word_of_nat (Suc k))"
    using assms(3) by (simp add: i32_increment_def add.commute)
  have 2: "run_step (c, ?x [d] Idle fi got w Receiving k ec) (c, ?x [] Idle fi (got @ [d]) w (Echoing d) (Suc k) ec)"
    using assms(2) count Echo_Recv [of "?x [d] Idle fi got w Receiving k ec" list_mpsc "Inr (Some d)" "run_session message_new []"
        True prompt_send]
    by (intro server_step) (simp_all add: run_server_def echo_received_def session_recv_def session_recv_wait_def
        list_mpsc_def run_session_def demo_session_def del: of_nat_Suc)
  have send: "session_send True prompt_send (run_session message_new []) d w = Ran (Inr (), w @ message_frames d)"
    using assms(1) by (simp add: session_send_eq run_session_def demo_session_def prompt_segments message_frames_def MAX_SEGMENTED_eq)
  have 3: "run_step (c, ?x [] Idle fi (got @ [d]) w (Echoing d) (Suc k) ec)
      (c, ?x [] Idle fi (got @ [d]) (w @ message_frames d) Receiving (Suc k) (ec @ [d]))"
    using assms(2) send Echo_Send [of "?x [] Idle fi (got @ [d]) w (Echoing d) (Suc k) ec" d True prompt_send "Inr ()"
        "w @ message_frames d" list_mpsc]
    by (intro server_step) (simp_all add: run_server_def echo_sent_def)
  from 1 2 3 show ?thesis by (meson converse_rtranclp_into_rtranclp rtranclp.rtrancl_refl)
qed

text \<open>The client sends a message, and gets one.\<close>

lemma client_polls:
  assumes "client_poll True prompt_rtc list_mpsc demo_reader (todo c) c = Ran c'" and "outcome c = None"
    and "byte_frames (client_reading c') = byte_frames (client_reading c)"
    and "prefix (byte_frames (client_reading c)) (echo_world x)"
  shows "run_step (c, x) (c', x)"
  using assms by (simp add: run_step_def example_step.At_Client client_step.Client_Poll)

lemma prompt_poll: "poll_segments prompt_rtc ch segs w = (Done (Inr ()), w @ map segment_encode segs)"
  by (induction segs arbitrary: w) (simp_all add: prompt_rtc_def)

lemma client_sends:
  assumes "d \<noteq> []" and "length d \<le> 20000" and "prefix bf (echo_world x)"
  shows "run_step\<^sup>*\<^sup>* (run_client message_new [] Idle bf rd w (Call_Write d # Call_Flush # calls) wr rp, x)
    (run_client message_new [] Idle bf rd (w @ message_frames d) calls (wr @ [d]) rp, x)"
proof -
  let ?c = "\<lambda>w calls wr. run_client message_new [] Idle bf rd w calls wr rp"
  have 1: "run_step (?c w (Call_Write d # Call_Flush # calls) wr, x)
      (?c (w @ message_frames d) (Call_Write [] # Call_Flush # calls) (wr @ [d]), x)"
    using assms by (intro client_polls)
      (simp_all add: run_defs client_stream_def poll_write_def start_send_def poll_send_start prompt_poll message_frames_def
        MAX_SEGMENTED_eq client_wrote_def with_stream_def del: poll_send.simps)
  have 2: "run_step (?c w' (Call_Write [] # Call_Flush # calls) wr', x) (?c w' (Call_Flush # calls) wr', x)" for w' wr'
    using assms(3) by (intro client_polls) (simp_all add: run_defs)
  have 3: "run_step (?c w' (Call_Flush # calls) wr', x) (?c w' calls wr', x)" for w' wr'
    using assms(3) by (intro client_polls)
      (simp_all add: run_defs client_stream_def poll_flush_def client_flushed_def with_stream_def)
  from 1 2 3 show ?thesis by (meson converse_rtranclp_into_rtranclp rtranclp.rtrancl_refl)
qed

lemma client_queues:
  assumes "prefix bf (echo_world x)"
  shows "run_step (run_client message_new [] (Sending d) bf rd w calls wr rp, x)
    (run_client message_new [d] Idle bf rd w calls wr rp, x)"
proof -
  let ?c = "run_client message_new [] (Sending d) bf rd w calls wr rp"
  have "client_step True prompt_rtc list_mpsc demo_reader ?c (run_client message_new [d] Idle bf rd w calls wr rp)"
    using Client_Forward [of ?c "client_reading ?c" d list_mpsc "run_session message_new [d]" True prompt_rtc demo_reader]
    by (simp add: run_client_def session_forward_def list_mpsc_def run_session_def byte_session_def with_session_def from_session_def)
  with assms show ?thesis by (simp add: run_step_def example_step.At_Client run_client_def)
qed

lemma demo_read:
  assumes "d \<noteq> []" and "length d \<le> n"
  shows "poll_read demo_reader list_mpsc n ([], from_session (run_session message_new [d])) =
    (Ready (Inr d), [], from_session (run_session message_new []))"
  using assms
  by (simp add: poll_read_def demo_reader_def poll_next_def session_recv_def session_recv_wait_def list_mpsc_def
      from_session_def run_session_def demo_session_def)

lemma client_gets:
  assumes "d \<noteq> []" and "length d \<le> n" and "prefix bf (echo_world x)"
  shows "run_step\<^sup>*\<^sup>* (run_client message_new [] (Sending d) bf rd w (Call_Read n # calls) wr rp, x)
    (run_client message_new [] Idle bf (rd @ d) w calls wr (rp @ [d]), x)"
proof -
  have "run_step (run_client message_new [d] Idle bf rd w (Call_Read n # calls) wr rp, x)
      (run_client message_new [] Idle bf (rd @ d) w calls wr (rp @ [d]), x)"
    using assms by (intro client_polls) (simp_all add: run_client_def demo_read client_read_def with_read_def)
  with client_queues [OF assms(3)] show ?thesis by (meson converse_rtranclp_into_rtranclp r_into_rtranclp)
qed

lemma client_gets_all:
  assumes "d \<noteq> []" and "prefix bf (echo_world x)"
  shows "run_step\<^sup>*\<^sup>* (run_client message_new [] (Sending d) bf rd w (Call_Read_Exact (length d) [] # calls) wr rp, x)
    (run_client message_new [] Idle bf (rd @ d) w calls wr (rp @ [d]), x)"
proof -
  let ?exact = "Call_Read_Exact (length d)"
  have 1: "run_step (run_client message_new [d] Idle bf rd w (?exact [] # calls) wr rp, x)
      (run_client message_new [] Idle bf (rd @ d) w (?exact d # calls) wr rp, x)"
    using assms by (intro client_polls) (simp_all add: run_client_def demo_read client_read_more_def with_read_def)
  have 2: "run_step (run_client message_new [] Idle bf (rd @ d) w (?exact d # calls) wr rp, x)
      (run_client message_new [] Idle bf (rd @ d) w calls wr (rp @ [d]), x)"
    using assms(2) by (intro client_polls) (simp_all add: run_client_def)
  from client_queues [OF assms(2)] 1 2 show ?thesis by (meson converse_rtranclp_into_rtranclp r_into_rtranclp)
qed

text \<open>A message goes there and back: between two messages everything has arrived.\<close>

definition between :: "bytes list \<Rightarrow> bool client_call list \<Rightarrow>
    (bytes list, bool, unit, bytes list \<times> nat, bytes) client \<times> (bytes list, bool, unit, bytes list \<times> nat) echo" where
  "between ms calls = (let fs = concat (map message_frames ms) in
     (run_client message_new [] Idle fs (concat ms) fs calls ms ms,
      run_server message_new [] Idle fs ms fs Receiving (length ms) ms))"

lemma half_round:
  assumes "d \<noteq> []" and "length d \<le> 20000" and "length ms < 100"
  defines "fs \<equiv> concat (map message_frames ms)" and "gs \<equiv> concat (map message_frames (ms @ [d]))"
  shows "run_step\<^sup>*\<^sup>* (between ms (Call_Write d # Call_Flush # calls))
    (run_client message_new [] (Sending d) gs (concat ms) gs calls (ms @ [d]) ms,
     run_server message_new [] Idle gs (ms @ [d]) gs Receiving (length (ms @ [d])) (ms @ [d]))"
proof -
  have gs: "gs = fs @ message_frames d" by (simp add: fs_def gs_def)
  let ?c = "run_client message_new [] Idle fs (concat ms)"
  have 1: "run_step\<^sup>*\<^sup>* (between ms (Call_Write d # Call_Flush # calls))
      (?c gs calls (ms @ [d]) ms, run_server message_new [] Idle fs ms fs Receiving (length ms) ms)"
    using assms(1,2) unfolding between_def Let_def fs_def [symmetric] gs
    by (intro client_sends) (simp_all add: run_server_def)
  have 2: "run_step\<^sup>*\<^sup>* (?c gs calls (ms @ [d]) ms, run_server message_new [] Idle fs ms fs Receiving (length ms) ms)
      (?c gs calls (ms @ [d]) ms, run_server message_new [] (Sending d) gs ms fs Receiving (length ms) ms)"
    unfolding gs using message_carried [OF assms(1,2)] by (intro server_takes) (simp_all add: run_client_def)
  have 3: "run_step\<^sup>*\<^sup>* (?c gs calls (ms @ [d]) ms, run_server message_new [] (Sending d) gs ms fs Receiving (length ms) ms)
      (?c gs calls (ms @ [d]) ms, run_server message_new [] Idle gs (ms @ [d]) gs Receiving (length (ms @ [d])) (ms @ [d]))"
    using server_answers [OF assms(2) _ assms(3), of gs "?c gs calls (ms @ [d]) ms" ms fs ms]
    by (simp add: run_client_def gs)
  have 4: "run_step\<^sup>*\<^sup>* (?c gs calls (ms @ [d]) ms, x)
      (run_client message_new [] (Sending d) gs (concat ms) gs calls (ms @ [d]) ms, x)" if "echo_world x = gs" for x
    using client_takes [OF message_carried [OF assms(1,2)], of fs x] that by (simp add: gs)
  show ?thesis
    by (rule rtranclp_trans [OF rtranclp_trans [OF rtranclp_trans [OF 1 2] 3] 4]) (simp add: run_server_def)
qed

lemma client_round:
  assumes "d \<noteq> []" and "length d \<le> 1024" and "length ms < 100"
  shows "run_step\<^sup>*\<^sup>* (between ms (Call_Write d # Call_Flush # Call_Read 1024 # calls)) (between (ms @ [d]) calls)"
proof -
  let ?gs = "concat (map message_frames (ms @ [d]))"
  let ?x = "run_server message_new [] Idle ?gs (ms @ [d]) ?gs Receiving (length (ms @ [d])) (ms @ [d])"
  have "prefix ?gs (echo_world ?x)" by (simp add: run_server_def)
  from client_gets [OF assms(1,2) this, of "concat ms" ?gs calls "ms @ [d]" ms]
  have "run_step\<^sup>*\<^sup>* (run_client message_new [] (Sending d) ?gs (concat ms) ?gs (Call_Read 1024 # calls) (ms @ [d]) ms, ?x)
      (between (ms @ [d]) calls)" by (simp add: between_def Let_def)
  moreover from assms(2) have "length d \<le> 20000" by simp
  ultimately show ?thesis using half_round [OF assms(1) _ assms(3)] by (blast intro: rtranclp_trans)
qed

lemma client_turns_run:
  assumes "\<forall>i \<in> set is. length (client_packet i) \<le> 1024" and "length ms + length is \<le> 100"
  shows "run_step\<^sup>*\<^sup>* (between ms (concat (map client_turn is) @ calls)) (between (ms @ map client_packet is) calls)"
  using assms
proof (induction "is" arbitrary: ms)
  case (Cons i js)
  from Cons.prems have "run_step\<^sup>*\<^sup>* (between ms (client_turn i @ concat (map client_turn js) @ calls))
      (between (ms @ [client_packet i]) (concat (map client_turn js) @ calls))"
    unfolding client_turn_def using client_round [OF client_packet_ne, of i ms] by simp
  with Cons.IH [of "ms @ [client_packet i]"] Cons.prems show ?case by (simp add: rtranclp_trans)
qed simp

lemma client_finishes:
  assumes "prefix bf (echo_world x)"
  shows "\<exists>c. run_step\<^sup>*\<^sup>* (run_client message_new [] Idle bf rd w [Call_Close Close_Start] wr rp, x) (c, x) \<and>
    outcome c = Some (Inr ()) \<and> replies c = rp"
proof -
  let ?c = "run_client message_new [] Idle bf rd w [Call_Close Close_Start] wr rp"
  let ?s = "(run_session message_new [])\<lparr>closed := True\<rparr>"
  let ?d = "?c\<lparr>client_reading := with_stream (from_session ?s) (client_reading ?c), todo := []\<rparr>"
  have "run_step (?c, x) (?d, x)"
    using assms by (intro client_polls)
      (simp_all add: run_defs client_stream_def poll_close_def poll_close_reliable_def poll_after_reliable_def
        poll_close_peer_def prompt_rtc_def map_err_def client_closed_def with_stream_def)
  moreover have "run_step (?d, x) (?d\<lparr>outcome := Some (Inr ())\<rparr>, x)"
    using assms by (intro client_polls) (simp_all add: run_client_def)
  ultimately have "run_step\<^sup>*\<^sup>* (?c, x) (?d\<lparr>outcome := Some (Inr ())\<rparr>, x)" by auto
  then show ?thesis by (intro exI [of _ "?d\<lparr>outcome := Some (Inr ())\<rparr>"]) (simp add: run_client_def)
qed

text \<open>The whole run.\<close>

lemma example_run:
  obtains c x where "run_step\<^sup>*\<^sup>* (client_start demo_reader demo_session [], echo_start demo_session []) (c, x)"
    and "outcome c = Some (Inr ())" and "replies c = client_messages"
proof -
  let ?ms = "map client_packet [1..<11]" and ?gs = "concat (map message_frames client_messages)"
  have start: "(client_start demo_reader demo_session [], echo_start demo_session []) = between [] client_program"
    by (simp add: between_def client_start_def echo_start_def run_defs byte_start_def running_start_def demo_reader_def)
  have 1: "run_step\<^sup>*\<^sup>* (between [] client_program) (between ?ms client_tail)"
    unfolding client_program_def using client_turns_run [OF client_packet_small, of "[]"] by (simp del: upt_rec_numeral)
  have large: "large_data \<noteq> []" "length large_data = 20000" by (simp_all add: large_data_def)
  let ?x = "run_server message_new [] Idle ?gs client_messages ?gs Receiving 11 client_messages"
  have 2: "run_step\<^sup>*\<^sup>* (between ?ms client_tail)
      (run_client message_new [] (Sending large_data) ?gs (concat ?ms) ?gs [Call_Read_Exact 20000 [], Call_Close Close_Start]
        client_messages ?ms, ?x)"
    unfolding client_tail_def client_messages_def
    using half_round [OF large(1) _, of ?ms "[Call_Read_Exact 20000 [], Call_Close Close_Start]"] large(2)
    by (simp del: upt_rec_numeral)
  have at: "prefix ?gs (echo_world ?x)" by (simp add: run_server_def)
  from client_gets_all [OF large(1) at, of "concat ?ms" ?gs "[Call_Close Close_Start]" client_messages ?ms] large(2)
  have 3: "run_step\<^sup>*\<^sup>* (run_client message_new [] (Sending large_data) ?gs (concat ?ms) ?gs
        [Call_Read_Exact 20000 [], Call_Close Close_Start] client_messages ?ms, ?x)
      (run_client message_new [] Idle ?gs (concat client_messages) ?gs [Call_Close Close_Start] client_messages client_messages, ?x)"
    by (simp add: client_messages_def del: upt_rec_numeral)
  from client_finishes [OF at] obtain c where "run_step\<^sup>*\<^sup>* (run_client message_new [] Idle ?gs (concat client_messages) ?gs
      [Call_Close Close_Start] client_messages client_messages, ?x) (c, ?x)" "outcome c = Some (Inr ())"
    "replies c = client_messages" by blast
  with rtranclp_trans [OF rtranclp_trans [OF rtranclp_trans [OF 1 2] 3]] start that show thesis by metis
qed

section \<open>Properties\<close>

text \<open>C8: The two example programs together, whatever order their polls, their handlers and the frames
  between them take. In every reachable state, also when one of the programs has failed: the frames the client has put on the
  wire are a prefix of those of its eleven messages; the server's task has received a prefix of these
  messages, has counted them right, and did not panic; the bytes of the client's replies are a prefix of
  the bytes of the messages, in order, nothing lost or doubled; each reply fits its read. The client
  can only fail with an error of WebRTC: its stream neither ends nor refuses a message. When it has
  succeeded, it has written all eleven messages, has read eleven times, and the last reply has 20000 bytes.\<close>

theorem echo_round_trip:
  assumes "polled_wire_whole P wire1" and "wire_whole R wire2" and "mpsc_ok M queued cap"
    and "stream_reader_ok Rd" and "session_with_capacity M pc n = Ran t"
    and "session_with_capacity M pc' n' = Ran u" and "wire1 ch1 w1 = []" and "wire2 ch2 w2 = []"
    and "(example_step dbg P M Rd dbg' R (wire1 ch1) (wire2 ch2))\<^sup>*\<^sup>*
      (client_start Rd (set_reliable_channel t ch1) w1, echo_start (set_reliable_channel u ch2) w2) (c, x)"
  shows "prefix (wire1 ch1 (client_world c)) (concat (map message_frames client_messages)) \<and>
    prefix (received (echo_session x)) client_messages \<and>
    echo_phase x \<noteq> Echo_Panicked \<and> sint (packet_count x) = int (length (received (echo_session x))) \<and>
    prefix (concat (replies c)) (concat client_messages) \<and>
    list_all2 fits (take (length (replies c)) client_requests) (replies c) \<and>
    (\<forall>e. outcome c = Some (Inl e) \<longrightarrow>
      (\<exists>t. e = Client_Io (io_other (DataChannel t)) \<or> e = Client_Error (WebRtc t))) \<and>
    (outcome c = Some (Inr ()) \<longrightarrow> written c = client_messages \<and> list_all2 fits client_requests (replies c) \<and>
      length (replies c) = 11 \<and> length (last (replies c)) = 20000)"
proof -
  from example_reach_inv [OF assms] have inv: "client_inv wire1 ch1 dbg queued cap n Rd c"
    and srv: "server_inv wire2 ch2 dbg' queued cap n' x"
    and there: "prefix (frames_in (echo_session x)) (concat (map message_frames client_messages))"
    and home: "prefix (byte_frames (client_reading c)) (concat (map message_frames (received (echo_session x))))"
    by (simp_all add: example_inv_def)
  from inv have plan: "client_plan c" and writes: "client_writes wire1 ch1 c"
    and reading: "reading_inv dbg queued cap n Rd (client_reading c)" by (simp_all add: client_inv_def)
  note server = served [OF srv there]
  from server(1) obtain more where more: "client_messages = received (echo_session x) @ more" by (rule prefixE)
  from client_messages_ok(1,2) have "list_all (\<lambda>d. length d \<le> MAX_SEGMENTED) (received (echo_session x))"
    "[] \<notin> set (received (echo_session x))" by (simp_all add: more)
  from reading_prefix [OF reading home this]
  have "prefix (bytes_read (client_reading c)) (concat (received (echo_session x)))" .
  moreover have "prefix (concat (received (echo_session x))) (concat client_messages)" by (simp add: more)
  ultimately have "prefix (bytes_read (client_reading c)) (concat client_messages)" by (rule prefix_order.order_trans)
  with plan have reply: "prefix (concat (replies c)) (concat client_messages)"
    unfolding client_plan_def by (metis append_prefixD)
  have failed: "\<exists>t. e = Client_Io (io_other (DataChannel t)) \<or> e = Client_Error (WebRtc t)"
    if "outcome c = Some (Inl e)" for e
    using writes that by (simp add: client_writes_def webrtc_failure_def)
  from client_writes_prefix [OF inv] server reply client_replies [OF plan] failed show ?thesis by blast
qed

text \<open>The run above: the client ends with success, and its replies are its messages.\<close>

theorem echo_round_trip_witness:
  "\<exists>c x. (example_step True prompt_rtc list_mpsc demo_reader True prompt_send (\<lambda>w. w) (\<lambda>w. w))\<^sup>*\<^sup>*
      (client_start demo_reader demo_session [], echo_start demo_session []) (c, x) \<and>
    outcome c = Some (Inr ()) \<and> replies c = client_messages \<and> written c = client_messages \<and>
    sint (packet_count x) = int (length (received (echo_session x)))"
proof -
  have start: "set_reliable_channel (demo_session\<lparr>reliable_channel := None\<rparr>) True = demo_session"
    by (simp add: set_reliable_channel_def demo_session_def)
  obtain c x where run: "(example_step True prompt_rtc list_mpsc demo_reader True prompt_send (\<lambda>w. w) (\<lambda>w. w))\<^sup>*\<^sup>*
      (client_start demo_reader demo_session [], echo_start demo_session []) (c, x)"
    and fin: "outcome c = Some (Inr ())" "replies c = client_messages"
    using example_run unfolding run_step_def by blast
  note result = echo_round_trip [where ?wire1.0 = "\<lambda>_ w. w" and ?wire2.0 = "\<lambda>_ w. w" and ?ch1.0 = True and ?ch2.0 = True
      and ?w1.0 = "[]" and ?w2.0 = "[]", OF prompt_ok list_mpsc_ok demo_reader_ok demo_with_capacity demo_with_capacity refl refl,
      unfolded start, OF run]
  from result fin(1) have "written c = client_messages" "sint (packet_count x) = int (length (received (echo_session x)))" by simp_all
  with run fin show ?thesis by blast
qed

end
