(* ===== verification/Unit_Tests.thy ===== *)
theory Unit_Tests
  imports Buffers Negotiation Discovery Server_Data
begin

text \<open>
  The unit tests of the crate on the model: each \<open>#[test]\<close> function is a truth value, which is
  false where the test would panic (an \<open>unwrap\<close> of an error, a failed assertion), and a lemma that
  it is true. Tests that use the ciphers have the crates as a parameter.
\<close>

section \<open>Assertions\<close>

text \<open>\<open>unwrap\<close>, then the rest of the test.\<close>

definition unwrap_in :: "'e + 'a \<Rightarrow> ('a \<Rightarrow> bool) \<Rightarrow> bool" where
  "unwrap_in r k = (case r of Inl _ \<Rightarrow> False | Inr x \<Rightarrow> k x)"

definition no_panic :: "'a run \<Rightarrow> ('a \<Rightarrow> bool) \<Rightarrow> bool" where
  "no_panic r k = (case r of Panic \<Rightarrow> False | Ran x \<Rightarrow> k x)"

lemma unwrap_in_simps [simp]:
  "unwrap_in (Inr x) k = k x" "unwrap_in (Inl e) k = False"
  by (simp_all add: unwrap_in_def)

lemma no_panic_simps [simp]:
  "no_panic (Ran x) k = k x" "no_panic Panic k = False"
  by (simp_all add: no_panic_def)

section \<open>Integers and byte arrays\<close>

text \<open>What is written is read back.\<close>

definition reads_back ::
    "(bytes \<Rightarrow> 'a \<Rightarrow> 'e + bytes) \<Rightarrow> (bytes \<Rightarrow> 'f + ('a \<times> bytes)) \<Rightarrow> 'a \<Rightarrow> bool" where
  "reads_back write read value =
     unwrap_in (write [] value) (\<lambda>buf. unwrap_in (read buf) (\<lambda>(decoded, _). decoded = value))"

context roundtrip_codec
begin

lemma reads_back: "ok x \<Longrightarrow> reads_back put get x"
  using write_ok [of x "[]"] read_enc [of x "[]"] by (simp add: reads_back_def)

end

definition u16le_roundtrip :: bool where
  "u16le_roundtrip = reads_back u16le_write u16le_read 0xABCD"

definition u32le_roundtrip :: bool where
  "u32le_roundtrip = reads_back u32le_write u32le_read 0x12345678"

definition u64le_roundtrip :: bool where
  "u64le_roundtrip = reads_back u64le_write u64le_read 0x123456789ABCDEF0"

definition u16le_edge_cases :: bool where
  "u16le_edge_cases = list_all (reads_back u16le_write u16le_read) [0, 0xFFFF]"

definition u32le_edge_cases :: bool where
  "u32le_edge_cases = list_all (reads_back u32le_write u32le_read) [0, 0xFFFFFFFF]"

definition u64le_edge_cases :: bool where
  "u64le_edge_cases = list_all (reads_back u64le_write u64le_read) [0, 0xFFFFFFFFFFFFFFFF]"

definition u8_roundtrip :: bool where
  "u8_roundtrip = reads_back write_u8 read_u8 0x42"

definition bytes_u8_roundtrip :: bool where
  "bytes_u8_roundtrip = reads_back write_bytes_u8 read_bytes_u8 [1, 2, 3, 4, 5]"

definition bytes_u32_roundtrip :: bool where
  "bytes_u32_roundtrip = reads_back write_bytes_u32 read_bytes_u32 [1, 2, 3, 4, 5, 6, 7, 8, 9, 10]"

lemma wire_tests:
  u16le_roundtrip u32le_roundtrip u64le_roundtrip
  u16le_edge_cases u32le_edge_cases u64le_edge_cases
  u8_roundtrip bytes_u8_roundtrip bytes_u32_roundtrip
  by (simp_all add: u16le_roundtrip_def u32le_roundtrip_def u64le_roundtrip_def u16le_edge_cases_def
      u32le_edge_cases_def u64le_edge_cases_def u8_roundtrip_def bytes_u8_roundtrip_def
      bytes_u32_roundtrip_def u8c.reads_back u16c.reads_back u32c.reads_back u64c.reads_back
      bytes8.reads_back bytes32.reads_back MAX_BYTES_eq)

section \<open>Segments\<close>

definition test_single_segment :: "bool \<Rightarrow> bool" where
  "test_single_segment dbg =
     (let data = as_bytes ''Hello, World!'' in
      no_panic (split_into_segments dbg data) (\<lambda>r. unwrap_in r (\<lambda>segments.
        length segments = 1 \<and> remaining_segments (segments ! 0) = 0 \<and> seg_data (segments ! 0) = data)))"

definition test_multiple_segments :: "bool \<Rightarrow> bool" where
  "test_multiple_segments dbg =
     (let data = replicate (MAX_MESSAGE_SIZE * 2 + 100) 0 in
      no_panic (split_into_segments dbg data) (\<lambda>r. unwrap_in r (\<lambda>segments.
        length segments = 3 \<and> remaining_segments (segments ! 0) = 2 \<and>
        remaining_segments (segments ! 1) = 1 \<and> remaining_segments (segments ! 2) = 0)))"

text \<open>The loop of the reassembly test, over the segments that are left.\<close>

fun reassembles :: "bool \<Rightarrow> bytes \<Rightarrow> message \<Rightarrow> message_segment list \<Rightarrow> bool" where
  "reassembles dbg data m [] = True"
| "reassembles dbg data m (segment # segments) =
     no_panic (add_segment dbg m segment) (\<lambda>(r, m). unwrap_in r (\<lambda>result.
       (if segments \<noteq> [] then result = None else result = Some data) \<and>
       reassembles dbg data m segments))"

definition test_reassembly :: "bool \<Rightarrow> bool" where
  "test_reassembly dbg =
     (let original_data = replicate (MAX_MESSAGE_SIZE * 2 + 100) 1 in
      no_panic (split_into_segments dbg original_data) (\<lambda>r. unwrap_in r (\<lambda>segments.
        reassembles dbg original_data message_new segments)))"

definition contains_text :: "string \<Rightarrow> string \<Rightarrow> bool" where
  "contains_text msg pat \<longleftrightarrow>
     list_ex (\<lambda>i. take (length pat) (drop i msg) = pat) [0..<Suc (length msg)]"

definition test_out_of_order_segments_error :: "bool \<Rightarrow> bool" where
  "test_out_of_order_segments_error dbg =
     (let data = replicate (MAX_MESSAGE_SIZE * 2 + 100) 42 in
      no_panic (split_into_segments dbg data) (\<lambda>r. unwrap_in r (\<lambda>segments.
        length segments \<ge> 3 \<and>
        no_panic (add_segment dbg message_new (segments ! 1)) (\<lambda>(result, message).
          unwrap_in result (\<lambda>x. x = None) \<and>
          no_panic (add_segment dbg message (segments ! 0)) (\<lambda>(result, message).
            case result of
              Inl (MessageParse msg) \<Rightarrow> contains_text msg ''Invalid segment sequence''
            | _ \<Rightarrow> False)))))"

lemma spec_segments_3:
  assumes "2 * MAX_MESSAGE_SIZE < length d" and "length d \<le> 3 * MAX_MESSAGE_SIZE"
  shows "spec_segments d =
    [segment_new 2 (take MAX_MESSAGE_SIZE d),
     segment_new 1 (take MAX_MESSAGE_SIZE (drop MAX_MESSAGE_SIZE d)),
     segment_new 0 (drop (2 * MAX_MESSAGE_SIZE) d)]"
proof -
  let ?n = MAX_MESSAGE_SIZE
  have "chunks ?n d = [take ?n d, take ?n (drop ?n d), drop ?n (drop ?n d)]"
    using assms by (simp add: chunks_long chunks_short)
  moreover have "d \<noteq> []" using assms by auto
  ultimately show ?thesis by (simp add: spec_segments_def numeral_2_eq_2 [symmetric] mult_2)
qed

lemma split_3:
  assumes "2 * MAX_MESSAGE_SIZE < length d" and "length d \<le> 3 * MAX_MESSAGE_SIZE"
  shows "split_into_segments dbg d = Ran (Inr
    [segment_new 2 (take MAX_MESSAGE_SIZE d),
     segment_new 1 (take MAX_MESSAGE_SIZE (drop MAX_MESSAGE_SIZE d)),
     segment_new 0 (drop (2 * MAX_MESSAGE_SIZE) d)])"
  using assms spec_segments_3 [OF assms]
  by (simp add: split_into_segments_eq MAX_SEGMENTED_def MAX_MESSAGE_SIZE_def)

lemma contains_prefix: "contains_text (pat @ s) pat"
proof -
  have "take (length pat) (drop 0 (pat @ s)) = pat" by simp
  moreover have "0 \<in> set [0..<Suc (length (pat @ s))]" by simp
  ultimately show ?thesis unfolding contains_text_def list_ex_iff by blast
qed

lemma sequence_error_text:
  "(case sequence_error e g of MessageParse msg \<Rightarrow> contains_text msg ''Invalid segment sequence'' | _ \<Rightarrow> False)"
  using contains_prefix [of "''Invalid segment sequence''"] by (simp add: sequence_error_def)

lemma segment_tests:
  "test_single_segment dbg" "test_multiple_segments dbg" "test_reassembly dbg"
  "test_out_of_order_segments_error dbg"
proof -
  show "test_single_segment dbg"
    by (simp add: test_single_segment_def split_into_segments_def MAX_MESSAGE_SIZE_def segment_new_def
        as_bytes_def)
  note split = split_3 [of "replicate (MAX_MESSAGE_SIZE * 2 + 100) x" for x]
  have len: "2 * MAX_MESSAGE_SIZE < length (replicate (MAX_MESSAGE_SIZE * 2 + 100) x)"
    "length (replicate (MAX_MESSAGE_SIZE * 2 + 100) x) \<le> 3 * MAX_MESSAGE_SIZE" for x :: u8
    by (simp_all add: MAX_MESSAGE_SIZE_def)
  show "test_multiple_segments dbg"
    unfolding test_multiple_segments_def Let_def split_3 [OF len] by (simp add: segment_new_def)
  show "test_reassembly dbg"
    unfolding test_reassembly_def Let_def split_3 [OF len]
    by (simp add: segment_new_def add_segment_eq accept_segment_def message_new_def
        replicate_add [symmetric] mult_2_right)
  show "test_out_of_order_segments_error dbg"
    unfolding test_out_of_order_segments_error_def Let_def split_3 [OF len]
    using sequence_error_text [of 0 2]
    by (simp add: segment_new_def add_segment_eq accept_segment_def message_new_def)
qed

text \<open>The test on the capacity, over what is assumed of the buffer.\<close>

definition test_memory_efficient_allocation :: "'b bytes_mut \<Rightarrow> bool \<Rightarrow> bool" where
  "test_memory_efficient_allocation B dbg =
     (let segment_data = replicate 100 0; segment = segment_new 9 segment_data in
      no_panic (buf_add_segment B dbg (buf_message_new B) segment) (\<lambda>(r, message). unwrap_in r (\<lambda>_.
        let capacity = bm_capacity B (buffer message) in
        capacity \<ge> 1000 \<and> capacity \<le> 10 * MAX_MESSAGE_SIZE)))"

text \<open>The lower bound is documented behaviour, the upper bound is the allocator's.\<close>

lemma allocation_test:
  assumes "bytes_mut_ok B"
  shows "test_memory_efficient_allocation B dbg \<longleftrightarrow> bm_capacity B (bm_reserve B (bm_new B) 100000) \<le> 100000"
proof -
  let ?b = "bm_reserve B (bm_new B) 100000" and ?s = "segment_new 9 (replicate 100 0)"
  have room: "100000 \<le> bm_capacity B ?b" "bm_data B ?b = []"
    using bytes_mut_capacity(1) [OF assms, of "bm_new B" 100000] by (simp_all add: bytes_mut_data [OF assms])
  have "buf_add_segment B dbg (buf_message_new B) ?s =
      Ran (Inr None, \<lparr>buf_expected = 9, buffer = bm_put B ?b (replicate 100 0)\<rparr>)"
    using add_first [of "buf_message_new B" ?s B dbg]
      add_expected [of "\<lparr>buf_expected = 10, buffer = ?b\<rparr>" 10 ?s B dbg]
    by (simp add: buf_message_new_def segment_new_def MAX_MESSAGE_SIZE_def buf_finish_def)
  then show ?thesis
    using room bytes_mut_capacity(2) [OF assms, of ?b "replicate 100 0"]
    by (simp add: test_memory_efficient_allocation_def Let_def MAX_MESSAGE_SIZE_def)
qed

lemma allocation_test_exact: "test_memory_efficient_allocation exact_bytes_mut dbg"
  by (simp add: allocation_test [OF exact_bytes_mut_ok]) (simp add: exact_bytes_mut_def)

section \<open>Error numbers\<close>

definition test_connect_error_to_signal_error_code :: bool where
  "test_connect_error_to_signal_error_code =
     list_all (\<lambda>variant. connect_error_of_signal (signal_error_of_connect variant) = variant)
       all_connect_errors"

definition test_signal_error_code_to_connect_error :: bool where
  "test_signal_error_code_to_connect_error =
     list_all (\<lambda>variant. signal_error_of_connect (connect_error_of_signal variant) = variant)
       all_signal_error_codes"

definition test_discriminant_gap_handling :: bool where
  "test_discriminant_gap_handling \<longleftrightarrow>
     connect_error_code C_SignalingBroadcastDeliveryFailed = 0x15 \<and>
     connect_error_code C_SignalingUnicastMessageDeliveryFailed = 0x13 \<and>
     connect_error_from_code 0x14 = None"

definition test_discriminant_values :: bool where
  "test_discriminant_values \<longleftrightarrow>
     (let signal_broadcast = S_SignalingBroadcastDeliveryFailed;
          connect_broadcast = connect_error_of_signal signal_broadcast
      in signal_error_to_u32 signal_broadcast = 20 \<and> connect_error_code connect_broadcast = 0x15 \<and>
         signal_error_of_connect connect_broadcast = signal_broadcast)"

lemma error_tests:
  test_connect_error_to_signal_error_code test_signal_error_code_to_connect_error
  test_discriminant_gap_handling test_discriminant_values
  by code_simp+

section \<open>Negotiation messages\<close>

definition parses_back :: "negotiation_message \<Rightarrow> bool" where
  "parses_back msg = unwrap_in (negotiation_parse (negotiation_fmt msg)) (\<lambda>parsed. msg = parsed)"

definition test_connect_request_roundtrip :: bool where
  "test_connect_request_roundtrip = parses_back (ConnectRequest 12345
     (''v=0'' @ [CHR 0x0D, CHR 0x0A] @ ''o=- 123456789 2 IN IP4 127.0.0.1''))"

definition test_connect_response_roundtrip :: bool where
  "test_connect_response_roundtrip = parses_back (ConnectResponse 67890
     (''v=0'' @ [CHR 0x0D, CHR 0x0A] @ ''o=- 987654321 2 IN IP4 192.168.1.1''))"

definition test_candidate_add_roundtrip :: bool where
  "test_candidate_add_roundtrip = parses_back (CandidateAdd 11111
     ''candidate:1234567890 1 udp 2130706431 192.168.1.100 54321 typ host'')"

definition test_connect_error_roundtrip :: bool where
  "test_connect_error_roundtrip = parses_back (ConnectErr 99999 C_NegotiationTimeout)"

definition test_invalid_format :: bool where
  "test_invalid_format \<longleftrightarrow>
     \<not> is_ok (negotiation_parse ''INVALID'') \<and> \<not> is_ok (negotiation_parse ''CONNECTREQUEST'') \<and>
     \<not> is_ok (negotiation_parse ''CONNECTREQUEST abc'')"

lemma negotiation_tests:
  test_connect_request_roundtrip test_connect_response_roundtrip test_candidate_add_roundtrip
  test_connect_error_roundtrip test_invalid_format
proof -
  have parses: "\<not> trim_is_empty (negotiation_payload m) \<Longrightarrow> parses_back m" for m
    by (simp add: parses_back_def negotiation_parse_fmt)
  have not_blank: "\<not> trim_is_empty (c # cs)" if "byte_of_char c < 0x80" "\<not> ws1 (byte_of_char c)" for c cs
    using that by (simp add: trim_is_empty_def as_bytes_def all_ws_ascii_head)
  have "byte_of_char CHR ''v'' < 0x80 \<and> \<not> ws1 (byte_of_char CHR ''v'')"
    "byte_of_char CHR ''c'' < 0x80 \<and> \<not> ws1 (byte_of_char CHR ''c'')" by code_simp+
  then show test_connect_request_roundtrip test_connect_response_roundtrip test_candidate_add_roundtrip
    by (simp_all add: test_connect_request_roundtrip_def test_connect_response_roundtrip_def
        test_candidate_add_roundtrip_def parses not_blank)
  show test_connect_error_roundtrip
    unfolding test_connect_error_roundtrip_def by (rule parses) simp
  have "parse_uint m ''abc'' = Inl InvalidDigit" for m by (simp add: parse_uint_def to_digit_def)
  moreover have "splitn 3 CHR '' '' ''INVALID'' = [''INVALID'']"
    "splitn 3 CHR '' '' ''CONNECTREQUEST'' = [''CONNECTREQUEST'']"
    "splitn 3 CHR '' '' ''CONNECTREQUEST abc'' = [''CONNECTREQUEST'', ''abc'']" by code_simp+
  ultimately show test_invalid_format
    by (simp add: test_invalid_format_def negotiation_parse_def parse_u64_def)
qed

section \<open>Discovery\<close>

definition test_server_data_roundtrip :: bool where
  "test_server_data_roundtrip =
     (let original = \<lparr>server_name = ''Test Server'', level_name = ''My World'', game_type = 0,
            player_count = 3, max_player_count = 10, editor_world = False, hardcore = False,
            transport_layer = 2, connection_type = 4\<rparr>
      in unwrap_in (server_data_marshal original) (\<lambda>encoded.
         unwrap_in (server_data_unmarshal encoded) (\<lambda>decoded. original = decoded)))"

definition test_version_mismatch :: bool where
  "test_version_mismatch \<longleftrightarrow> \<not> is_ok (server_data_unmarshal [5])"

definition test_header_roundtrip :: bool where
  "test_header_roundtrip = reads_back (\<lambda>w h. header_write h w) header_read
     \<lparr>header_packet_id = 1, header_sender_id = 0x1234567890abcdef\<rparr>"

lemma discovery_tests:
  test_server_data_roundtrip test_version_mismatch test_header_roundtrip
proof -
  show test_header_roundtrip unfolding test_header_roundtrip_def by (rule header.reads_back) simp
  show test_version_mismatch by code_simp
  let ?sd = "\<lparr>server_name = ''Test Server'', level_name = ''My World'', game_type = 0,
    player_count = 3, max_player_count = 10, editor_world = False, hardcore = False,
    transport_layer = 2, connection_type = 4\<rparr>"
  have "encodable ?sd" "valid_server_data ?sd" by code_simp+
  then show test_server_data_roundtrip
    by (simp only: test_server_data_roundtrip_def Let_def marshal_ok unmarshal_enc unwrap_in_simps)
qed

definition test_encrypt_decrypt :: "crates \<Rightarrow> bool" where
  "test_encrypt_decrypt D =
     (let data = as_bytes ''Hello, NetherNet!'' in
      unwrap_in (encrypt D data) (\<lambda>buf. unwrap_in (decrypt D buf) (\<lambda>buf. data = buf)))"

definition test_checksum :: "crates \<Rightarrow> bool" where
  "test_checksum D \<longleftrightarrow>
     (let data = as_bytes ''Test data for checksum''; checksum = compute_checksum D data
      in verify_checksum D data checksum \<and> \<not> verify_checksum D data (replicate 32 0))"

lemma encryption_test: "aes_ok D \<Longrightarrow> test_encrypt_decrypt D"
  using decrypt_encrypt [of D "as_bytes ''Hello, NetherNet!''"]
  by (simp add: test_encrypt_decrypt_def Let_def encrypt_def)

text \<open>No law says that a tag is not all zeros: the second half of the test is about SHA-256.\<close>

lemma checksum_test:
  "hmac_ok D \<Longrightarrow>
    test_checksum D \<longleftrightarrow> compute_checksum D (as_bytes ''Test data for checksum'') \<noteq> replicate 32 0"
  by (auto simp: test_checksum_def verify_checksum_iff)

end
