(* ===== verification/Spec2Isabelle.thy ===== *)
theory Spec2Isabelle
  imports Prelude Rust_Str Rust_Text Errors Connect_Error Wire Segments Signals Negotiation
    Server_Data Crypto Packets Discovery Effects Session Signaling Lan Stream
    Duplex Recv_Lock Connect Listener Listener_Laws Handshake Lan_Network Echo
    Buffers Bytes Client Example_Run Unit_Tests
begin

text \<open>
  NetherNet in Rust (the crate under src/src/): nodes on a LAN find each other by encrypted UDP
  broadcasts, negotiate a WebRTC connection by exchanging signals over the same socket, and then
  send messages, cut into segments, over a reliable data channel. This development models the
  crate from the bytes on the wire up to the two ends of a connection.

  \<^bold>\<open>The parts, from the bottom up\<close>

  \<^item> Prelude, Rust_Str, Rust_Text: machine integers as words, \<open>Result\<close> as a sum with the error on
    the left, \<open>?\<close> as \<open>and_then\<close>, computations that may panic as \<open>run\<close>; strings as lists of bytes
    with UTF-8 validity, decimal numbers and \<open>splitn\<close> as in the standard library.
  \<^item> Errors, Connect_Error (error/mod.rs, protocol/webrtc/error.rs): the error enums with their
    texts and the two numberings of signaling errors.
  \<^item> Wire (protocol/constants.rs, protocol/types): integers and byte arrays as readers and
    writers, each an interpretation of the codec locales stated there.
  \<^item> Segments (protocol/message.rs): \<open>split_into_segments\<close>, \<open>segment_encode\<close>, \<open>segment_decode\<close> and
    the reassembly \<open>add_segment\<close>. The profile \<open>dbg\<close> decides whether the one overflow that is
    possible panics or wraps. The locale \<open>framing\<close> is the contract between cutting and
    reassembling; Session interprets it for a session's frames.
  \<^item> Buffers (protocol/message.rs): the same accumulator with the \<open>BytesMut\<close> it keeps and its
    capacity, which refines the one of Segments.
  \<^item> Signals, Negotiation (protocol/signal.rs, protocol/webrtc/negotiation.rs): the two views of a
    signaling line and their parsers.
  \<^item> Server_Data (protocol/packet/discovery/server_data.rs, builders/motd.rs), Crypto (crypto.rs),
    Packets (request.rs, response.rs, message.rs) and Discovery (packet.rs): the content, the
    encryption, the packets and their marshalling.
  \<^item> Effects: what the code asks of WebRTC and of tokio's channel, as records of operations with
    the documented behaviour the theorems assume (\<open>wire_ok\<close>, \<open>polled_wire_ok\<close>, \<open>mpsc_ok\<close>; with
    sends that may fail also \<open>wire_whole\<close>, \<open>polled_wire_whole\<close>), and instances that have it.
  \<^item> Session (session/mod.rs): the methods as functions, and a running session as the step
    relation \<open>session_step\<close>.
  \<^item> Recv_Lock (session/mod.rs, transport/stream.rs): the mutex of the packet receiver and any
    number of calls of \<open>recv\<close>, among them the future that a stream keeps, as \<open>lock_step\<close>.
  \<^item> Signaling, Lan (signaling/mod.rs, signaling/lan.rs): the trait as the locale \<open>signaling\<close>, and
    its implementation: the handling of a datagram, the tick, and the loop as \<open>lan_step\<close>.
  \<^item> Stream, Duplex (transport/stream.rs): the futures of send and close as states that are
    polled, \<open>poll_write\<close>, \<open>poll_flush\<close>, \<open>poll_shutdown\<close> and \<open>poll_next\<close>; the writing side as
    \<open>writer_step\<close> and the reading side as \<open>reader_step\<close>, which refines \<open>session_step\<close>.
  \<^item> Bytes (transport/stream.rs): \<open>poll_read\<close>, the reading side in bytes as \<open>byte_step\<close>, which
    \<open>reader_step\<close> simulates.
  \<^item> Connect (\<open>NethernetStream::connect\<close> in transport/stream.rs): the client's handshake as a
    function from what the environment answers to the actions it takes, in order, and its result.
  \<^item> Listener, Listener_Laws (transport/listener.rs): the signal handler, the tasks and callbacks
    of every offered connection, the two maps they share, and accept; \<open>task_step\<close> is what the
    tasks do by themselves, \<open>listener_step\<close> everything.
  \<^item> Handshake: client and listener joined over any signaling that keeps the contract, and hence
    over LAN signaling.
  \<^item> Lan_Network: any number of nodes with LAN signaling on a network that loses, doubles,
    reorders and misdelivers datagrams, as the step relation \<open>net_step\<close> on all nodes and all
    datagrams that were ever sent.
  \<^item> Echo (examples/server.rs): the accept loop of the example server and its task for each session
    as \<open>echo_step\<close>, which refines \<open>session_step\<close>.
  \<^item> Client (examples/client.rs): the choice of the server, and the exchange as a program of calls
    that are polled on the stream, \<open>client_step\<close>.
  \<^item> Example_Run: both examples, joined by the frames they put on the wire, as \<open>example_step\<close>.
  \<^item> Unit_Tests: the tests of the crate as predicates on the model, which hold of it.

  \<^bold>\<open>What is shown\<close>

  End to end: what one stream accepts is what the other reads, as messages (Duplex) and as bytes in
  reads of any size (Bytes); a connection is negotiated over LAN signaling, returned by \<open>connect\<close> and
  accepted (Handshake); servers are discovered (Lan); on a network of nodes nothing is published or
  listed that the node it names did not send (Lan_Network); what the example client sends
  comes back to it, in every reachable state of both programs (Example_Run).
  Round trips with their exact domains: segments, signals, negotiation messages, server data,
  packets, encryption. Safety of input: a delivered message is a complete run of segments, an
  accepted datagram carries its checksum, and the tables of LAN signaling hold only decoded data of
  other nodes. Invariants of all reachable states: session, writer, LAN signaling and listener.
  Liveness and termination: a session that is open can always be drained of all its messages, a
  dropped call of \<open>recv\<close> loses none and passes its lock on, a stream is flushed before it is closed,
  and the tasks of the listener end with every answered session queued. Error paths: every branch of
  the parsers, of \<open>accept\<close> and of the waits.

  Some theorems describe behaviour that is hardly intended: segment number 255; an empty message;
  two concurrent sends of one session; the two numberings of signaling errors; signals above 4031
  bytes, which do not fit the receiver's buffer; a \<open>connect\<close> without an answer; a candidate task
  that is not cancelled; a second offer with the same id; an offer that fails late; candidates that
  overtake their offer; readers that are never told that the peer has closed; a read that was given
  up and then blocks \<open>recv\<close>; servers that stay listed after their address has expired.

  \<^bold>\<open>Bounds\<close>

  Loops are structural recursion on the list that is left, or on the number of attempts, which the
  code bounds as well; the cutting of a message recurses on the bytes left, which decrease. The
  waits of \<open>connect\<close> and of the listener are not bounded by fuel: the signals that arrived and the
  states that were seen are arguments, and waiting for more is \<open>Pending\<close>. Futures are driven by as
  many polls as needed; \<open>drive_send\<close> has a number of polls, and the lemma on it holds for every
  number that is enough. The accept loop of the example server never ends: \<open>server_loop\<close> has a number
  of turns, and the theorem on it holds for every number above that of the queued sessions.
  The programs of the examples are lists of calls, and each step is one poll.

  \<^bold>\<open>Not modelled\<close>

  The WebRTC stack, tokio, the ciphers, JSON and byte buffers are third-party: they are parameters
  (records \<open>rtc\<close>, \<open>polled_rtc\<close>, \<open>mpsc\<close>, \<open>bytes_mut\<close>, \<open>stream_reader\<close>, \<open>crates\<close>, \<open>connect_env\<close>,
  \<open>offer_env\<close>) with the laws their documentation states. The handling of an offer is two steps of the
  listener, before and after the calls on the offer; these calls do not touch the modelled state,
  so where among them another task runs makes no difference. Timers may fire at any time. Of the
  mutexes only the one of the packet receiver is held while a caller waits, and has a theory of its
  own (Recv_Lock); the theories that leave it out have more runs than the code. The
  other mutexes, logging, sockets and the trait \<open>Notifier\<close>, which nothing implements, are left out; so are
  the benchmark, which only times calls of the crate, and the modules that only re-export.
\<close>

end
